(* ===== verification/Prelude.thy ===== *)
theory Prelude
  imports Main "HOL-Library.AList" "HOL-Library.Word" "HOL-Library.Multiset"
begin

text \<open>
  Shared ground of the development: the machine types of the code, the panics a task can die of,
  the composition of fallible steps, first-occurrence deduplication (the key order of an
  insertion-ordered map) and the collections of hints the component theories use.

  A fallible Rust function is a function into a sum type: \<open>Inl\<close> carries the error or the panic,
  \<open>Inr\<close> the value. A function that can panic and can also return an error has the type
  \<open>panic + (error + 'a)\<close>.
\<close>

named_theorems rust_arith \<open>unfolding of the profile-dependent machine arithmetic\<close>
named_theorems dash_simps \<open>lookups, keys and lengths of concurrent maps\<close>
named_theorems store_inv \<open>preservation of the transaction store invariant\<close>

type_synonym u8 = "8 word"
type_synonym u16 = "16 word"
type_synonym u32 = "32 word"
type_synonym i32 = "32 word"
type_synonym u64 = "64 word"
type_synonym i64 = "64 word"
type_synonym usize = "64 word"

text \<open>
  Instants and durations are in milliseconds. Every duration the code compares a reading with is a
  whole number of milliseconds, so a truncated reading decides each comparison as the exact one does.
\<close>

type_synonym instant = nat
type_synonym duration = nat

section \<open>Panics and fallible steps\<close>

datatype panic =
    Arith_overflow
  | Index_out_of_range
  | Slice_out_of_range
  | Unwrap_failed
  | Expect_failed string

text \<open>Rust's \<open>?\<close> operator and \<open>Result::and_then\<close>.\<close>

fun and_then :: "'e + 'a \<Rightarrow> ('a \<Rightarrow> 'e + 'b) \<Rightarrow> 'e + 'b" where
  "and_then (Inl e) f = Inl e"
| "and_then (Inr a) f = f a"

fun map_err :: "('e \<Rightarrow> 'd) \<Rightarrow> 'e + 'a \<Rightarrow> 'd + 'a" where
  "map_err f (Inl e) = Inl (f e)"
| "map_err f (Inr a) = Inr a"

lemma and_then_eq_Inr: "and_then r f = Inr b \<longleftrightarrow> (\<exists>a. r = Inr a \<and> f a = Inr b)"
  by (cases r) auto

lemma and_then_eq_Inl: "and_then r f = Inl e \<longleftrightarrow> r = Inl e \<or> (\<exists>a. r = Inr a \<and> f a = Inl e)"
  by (cases r) auto

lemma map_err_eq_Inr [simp]: "map_err f r = Inr a \<longleftrightarrow> r = Inr a"
  by (cases r) auto

lemma map_err_eq_Inl: "map_err f r = Inl d \<longleftrightarrow> (\<exists>e. r = Inl e \<and> d = f e)"
  by (cases r) auto

lemmas fallible = and_then_eq_Inr and_then_eq_Inl map_err_eq_Inl

text \<open>Indexing \<open>xs[i]\<close> and slicing \<open>xs[i..]\<close>, which panic out of range.\<close>

definition index :: "'a list \<Rightarrow> nat \<Rightarrow> panic + 'a" where
  "index xs i = (if i < length xs then Inr (xs ! i) else Inl Index_out_of_range)"

definition slice_from :: "'a list \<Rightarrow> nat \<Rightarrow> panic + 'a list" where
  "slice_from xs i = (if i \<le> length xs then Inr (drop i xs) else Inl Slice_out_of_range)"

fun expect :: "string \<Rightarrow> 'a option \<Rightarrow> panic + 'a" where
  "expect msg None = Inl (Expect_failed msg)"
| "expect msg (Some a) = Inr a"

fun unwrap :: "'a option \<Rightarrow> panic + 'a" where
  "unwrap None = Inl Unwrap_failed"
| "unwrap (Some a) = Inr a"

fun unwrap_or :: "'a \<Rightarrow> 'a option \<Rightarrow> 'a" where
  "unwrap_or d None = d"
| "unwrap_or d (Some a) = a"

lemma index_0_Cons [simp]: "index (x # xs) 0 = Inr x"
  by (simp add: index_def)

lemma index_Nil [simp]: "index [] i = Inl Index_out_of_range"
  by (simp add: index_def)

lemma index_eq_Inr: "index xs i = Inr x \<longleftrightarrow> i < length xs \<and> x = xs ! i"
  by (auto simp: index_def)

lemma slice_from_eq_Inr: "slice_from xs i = Inr ys \<longleftrightarrow> i \<le> length xs \<and> ys = drop i xs"
  by (auto simp: slice_from_def)

text \<open>Collecting an iterator of results: \<open>?\<close> in a loop stops at the first error.\<close>

fun try_map :: "('a \<Rightarrow> 'e + 'b) \<Rightarrow> 'a list \<Rightarrow> 'e + 'b list" where
  "try_map f [] = Inr []"
| "try_map f (x # xs) =
     and_then (f x) (\<lambda>y. and_then (try_map f xs) (\<lambda>ys. Inr (y # ys)))"

lemma try_map_Inr_iff:
  "try_map f xs = Inr ys \<longleftrightarrow> list_all2 (\<lambda>x y. f x = Inr y) xs ys"
  by (induction xs arbitrary: ys) (auto simp: and_then_eq_Inr list_all2_Cons1)

lemma try_map_Inl:
  "try_map f xs = Inl e \<Longrightarrow>
     \<exists>us x vs. xs = us @ x # vs \<and> (\<forall>u \<in> set us. \<exists>y. f u = Inr y) \<and> f x = Inl e"
proof (induction xs)
  case (Cons x xs)
  show ?case
  proof (cases "f x")
    case (Inl d)
    with Cons.prems have "x # xs = [] @ x # xs \<and> f x = Inl e" by simp
    then show ?thesis by fastforce
  next
    case (Inr y)
    with Cons.prems have "try_map f xs = Inl e" by (auto simp: and_then_eq_Inl)
    then obtain us z vs where "xs = us @ z # vs" "\<forall>u \<in> set us. \<exists>y. f u = Inr y" "f z = Inl e"
      using Cons.IH by blast
    with Inr have "x # xs = (x # us) @ z # vs \<and> (\<forall>u \<in> set (x # us). \<exists>y. f u = Inr y) \<and> f z = Inl e"
      by simp
    then show ?thesis by blast
  qed
qed simp

section \<open>First-occurrence deduplication\<close>

fun dedup_from :: "'a list \<Rightarrow> 'a list \<Rightarrow> 'a list" where
  "dedup_from seen [] = seen"
| "dedup_from seen (x # xs) = dedup_from (if x \<in> set seen then seen else seen @ [x]) xs"

lemma set_dedup_from [simp]: "set (dedup_from seen xs) = set seen \<union> set xs"
  by (induction xs arbitrary: seen) auto

lemma distinct_dedup_from: "distinct seen \<Longrightarrow> distinct (dedup_from seen xs)"
  by (induction xs arbitrary: seen) auto

lemma dedup_from_prefix: "\<exists>zs. dedup_from seen xs = seen @ zs"
proof (induction xs arbitrary: seen)
  case (Cons x xs)
  show ?case
  proof (cases "x \<in> set seen")
    case True
    then show ?thesis using Cons.IH by simp
  next
    case False
    obtain zs where "dedup_from (seen @ [x]) xs = (seen @ [x]) @ zs" using Cons.IH by blast
    with False show ?thesis by simp
  qed
qed simp

lemma take_dedup_from: "n \<le> length seen \<Longrightarrow> take n (dedup_from seen xs) = take n seen"
  using dedup_from_prefix [of seen xs] by auto

lemma length_dedup_from_le: "length (dedup_from seen xs) \<le> length seen + length xs"
proof (induction xs arbitrary: seen)
  case (Cons x xs)
  have "length (dedup_from (if x \<in> set seen then seen else seen @ [x]) xs)
      \<le> length (if x \<in> set seen then seen else seen @ [x]) + length xs"
    by (rule Cons.IH)
  also have "\<dots> \<le> length seen + length (x # xs)" by simp
  finally show ?case by simp
qed simp

section \<open>Clocks\<close>

text \<open>
  The readings of a clock at successive turns of a loop that sleeps for \<open>d\<close> in each turn: a sleep
  never returns early, so they are at least \<open>d\<close> apart.
\<close>

definition sleeps_at_least :: "duration \<Rightarrow> (nat \<Rightarrow> duration) \<Rightarrow> bool" where
  "sleeps_at_least d clock \<longleftrightarrow> (\<forall>k. clock k + d \<le> clock (Suc k))"

lemma sleeps_at_leastD: "sleeps_at_least d clock \<Longrightarrow> clock k + d \<le> clock (Suc k)"
  by (simp add: sleeps_at_least_def)

lemma sleeps_at_least_mono: "sleeps_at_least d clock \<Longrightarrow> j \<le> k \<Longrightarrow> clock j \<le> clock k"
  by (rule lift_Suc_mono_le) (auto dest: sleeps_at_leastD intro: add_leD1)

lemma sleeps_at_least_linear: "sleeps_at_least d clock \<Longrightarrow> d * k \<le> clock k"
proof (induction k)
  case (Suc k)
  from Suc.IH [OF Suc.prems] sleeps_at_leastD [OF Suc.prems, of k] show ?case by simp
qed simp

end
