(* ===== verification/Rust_Int.thy ===== *)
theory Rust_Int
  imports Prelude
begin

text \<open>
  Rust's machine arithmetic. The same source has two meanings: with overflow checks (the \<open>dev\<close>
  profile of cargo) an overflowing operation panics, without them (the \<open>release\<close> profile, which the
  README and the ansible role build) it wraps. The build profile is an argument of every operation
  that can overflow. The section ends with the decimal printing and parsing of integers that
  \<open>to_string\<close>, \<open>format!\<close> and \<open>parse\<close> do.
\<close>

datatype profile = Dev | Release

section \<open>Arithmetic\<close>

definition add_w :: "profile \<Rightarrow> 'l::len word \<Rightarrow> 'l word \<Rightarrow> panic + 'l word" where
  "add_w p a b =
     (if p = Dev \<and> 2 ^ LENGTH('l) \<le> unat a + unat b then Inl Arith_overflow else Inr (a + b))"

definition sub_w :: "profile \<Rightarrow> 'l::len word \<Rightarrow> 'l word \<Rightarrow> panic + 'l word" where
  "sub_w p a b = (if p = Dev \<and> unat a < unat b then Inl Arith_overflow else Inr (a - b))"

definition mul_w :: "profile \<Rightarrow> 'l::len word \<Rightarrow> 'l word \<Rightarrow> panic + 'l word" where
  "mul_w p a b =
     (if p = Dev \<and> 2 ^ LENGTH('l) \<le> unat a * unat b then Inl Arith_overflow else Inr (a * b))"

text \<open>Signed multiplication and \<open>i64::unsigned_abs\<close>.\<close>

definition mul_i64 :: "profile \<Rightarrow> i64 \<Rightarrow> i64 \<Rightarrow> panic + i64" where
  "mul_i64 p a b =
     (if p = Dev \<and> (sint a * sint b < - (2 ^ 63) \<or> 2 ^ 63 \<le> sint a * sint b)
      then Inl Arith_overflow else Inr (a * b))"

definition unsigned_abs :: "i64 \<Rightarrow> u64" where
  "unsigned_abs a = (if sint a < 0 then - a else a)"

lemma add_w_Release [simp]: "add_w Release a b = Inr (a + b)"
  by (simp add: add_w_def)

lemma sub_w_Release [simp]: "sub_w Release a b = Inr (a - b)"
  by (simp add: sub_w_def)

lemma mul_w_Release [simp]: "mul_w Release a b = Inr (a * b)"
  by (simp add: mul_w_def)

lemma mul_i64_Release [simp]: "mul_i64 Release a b = Inr (a * b)"
  by (simp add: mul_i64_def)

text \<open>An operation that does not overflow has the same result in both profiles.\<close>

lemma add_w_exact [rust_arith]:
  fixes a b :: "'l::len word"
  shows "unat a + unat b < 2 ^ LENGTH('l) \<Longrightarrow> add_w p a b = Inr (a + b)"
  by (simp add: add_w_def)

lemma sub_w_exact [rust_arith]: "unat b \<le> unat a \<Longrightarrow> sub_w p a b = Inr (a - b)"
  by (simp add: sub_w_def)

lemma mul_w_exact [rust_arith]:
  fixes a b :: "'l::len word"
  shows "unat a * unat b < 2 ^ LENGTH('l) \<Longrightarrow> mul_w p a b = Inr (a * b)"
  by (simp add: mul_w_def)

lemma mul_i64_exact [rust_arith]:
  "- (2 ^ 63) \<le> sint a * sint b \<Longrightarrow> sint a * sint b < 2 ^ 63 \<Longrightarrow> mul_i64 p a b = Inr (a * b)"
  by (simp add: mul_i64_def)

lemma unat_add_exact:
  fixes a b :: "'l::len word"
  shows "unat a + unat b < 2 ^ LENGTH('l) \<Longrightarrow> unat (a + b) = unat a + unat b"
  by (simp add: unat_word_ariths)

lemma unat_mul_exact:
  fixes a b :: "'l::len word"
  shows "unat a * unat b < 2 ^ LENGTH('l) \<Longrightarrow> unat (a * b) = unat a * unat b"
  by (simp add: unat_word_ariths)

lemma unat_sub_exact:
  fixes a b :: "'l::len word"
  shows "unat b \<le> unat a \<Longrightarrow> unat (a - b) = unat a - unat b"
  by (simp add: unat_sub word_le_nat_alt)

lemma unat_sub_wrap:
  fixes a b :: "'l::len word"
  assumes "unat a < unat b"
  shows "unat (a - b) = 2 ^ LENGTH('l) + unat a - unat b"
proof -
  have b: "unat b < 2 ^ LENGTH('l)" by simp
  then have "of_nat (2 ^ LENGTH('l) + unat a - unat b)
      = (of_nat (2 ^ LENGTH('l)) + of_nat (unat a) - of_nat (unat b) :: 'l word)"
    by (simp only: of_nat_diff of_nat_add trans_le_add1 less_imp_le)
  also have "\<dots> = a - b" by simp
  finally have "unat (a - b) = unat (of_nat (2 ^ LENGTH('l) + unat a - unat b) :: 'l word)"
    by simp
  also have "\<dots> = 2 ^ LENGTH('l) + unat a - unat b"
    using assms b by (simp only: unsigned_of_nat) (subst take_bit_nat_eq_self, arith, simp)
  finally show ?thesis .
qed

section \<open>Signed readings\<close>

lemma sint64_bounds: "- (2 ^ 63) \<le> sint (a :: i64)" "sint (a :: i64) < 2 ^ 63"
  using sint_greater_eq [of a] sint_less [of a] by simp_all

lemma uint_of_nonneg:
  assumes "0 \<le> sint (a :: i64)"
  shows "uint a = sint a"
proof -
  have "uint a = take_bit 64 (sint a)" using uint_sint [of a] by simp
  also have "\<dots> = sint a"
    using assms sint64_bounds [of a] by (intro take_bit_int_eq_self) simp_all
  finally show ?thesis .
qed

lemma uint_unsigned_abs: "uint (unsigned_abs a) = \<bar>sint a\<bar>"
proof (cases "sint a < 0")
  case True
  have "uint (- a) = uint (word_of_int (- sint a) :: i64)" by simp
  also have "\<dots> = (- sint a) mod 2 ^ 64" by (simp only: uint_word_of_int) simp
  also have "\<dots> = - sint a"
    using True sint64_bounds [of a] by (intro mod_pos_pos_trivial) simp_all
  finally show ?thesis using True by (simp add: unsigned_abs_def)
next
  case False
  then show ?thesis by (simp add: unsigned_abs_def uint_of_nonneg)
qed

lemma sint_mul_exact:
  fixes a b :: i64
  assumes "- (2 ^ 63) \<le> sint a * sint b" and "sint a * sint b < 2 ^ 63"
  shows "sint (a * b) = sint a * sint b"
proof -
  have "sint (a * b) = signed_take_bit 63 (sint a * sint b)"
    by (simp add: sint_word_ariths)
  also have "\<dots> = sint a * sint b"
    using assms by (intro signed_take_bit_int_eq_self) simp_all
  finally show ?thesis .
qed

lemma add_w_uint:
  fixes a b :: "'l::len word"
  assumes "uint a + uint b < 2 ^ LENGTH('l)"
  shows "add_w p a b = Inr (a + b)" and "uint (a + b) = uint a + uint b"
proof -
  have "int (unat a + unat b) < int (2 ^ LENGTH('l))" using assms by simp
  then have "unat a + unat b < 2 ^ LENGTH('l)" by (simp only: of_nat_less_iff)
  then show "add_w p a b = Inr (a + b)" by (rule add_w_exact)
  show "uint (a + b) = uint a + uint b" using assms by (simp only: uint_add_lem)
qed

lemma sub_w_uint:
  fixes a b :: "'l::len word"
  assumes "uint b \<le> uint a"
  shows "sub_w p a b = Inr (a - b)" and "uint (a - b) = uint a - uint b"
proof -
  have "int (unat b) \<le> int (unat a)" using assms by simp
  then have "unat b \<le> unat a" by (simp only: of_nat_le_iff)
  then show "sub_w p a b = Inr (a - b)" by (rule sub_w_exact)
  show "uint (a - b) = uint a - uint b" using assms by (simp only: uint_sub_lem)
qed

lemma sub_w_uint_wrap:
  fixes a b :: "'l::len word"
  assumes "uint a < uint b"
  shows "sub_w Dev a b = Inl Arith_overflow" and "uint (a - b) = 2 ^ LENGTH('l) + uint a - uint b"
proof -
  have "int (unat a) < int (unat b)" using assms by simp
  then have lt: "unat a < unat b" by (simp only: of_nat_less_iff)
  then show "sub_w Dev a b = Inl Arith_overflow" by (simp add: sub_w_def)
  have le: "unat b \<le> 2 ^ LENGTH('l) + unat a"
    by (rule trans_le_add1) (simp add: less_imp_le)
  have "int (unat (a - b)) = int (2 ^ LENGTH('l) + unat a - unat b)"
    by (simp only: unat_sub_wrap [OF lt])
  also have "\<dots> = int (2 ^ LENGTH('l) + unat a) - int (unat b)"
    using le by (simp only: of_nat_diff)
  finally show "uint (a - b) = 2 ^ LENGTH('l) + uint a - uint b" by simp
qed

section \<open>Decimal text\<close>

definition digit :: "nat \<Rightarrow> char" where
  "digit d = char_of (48 + d)"

fun show_nat :: "nat \<Rightarrow> string" where
  "show_nat n = (if n < 10 then [digit n] else show_nat (n div 10) @ [digit (n mod 10)])"

declare show_nat.simps [simp del]

definition show_int :: "int \<Rightarrow> string" where
  "show_int i = (if i < 0 then CHR ''-'' # show_nat (nat (- i)) else show_nat (nat i))"

definition digit_value :: "char \<Rightarrow> nat option" where
  "digit_value c = (let n = of_char c :: nat in if 48 \<le> n \<and> n \<le> 57 then Some (n - 48) else None)"

fun parse_digits :: "nat \<Rightarrow> string \<Rightarrow> nat option" where
  "parse_digits acc [] = Some acc"
| "parse_digits acc (c # cs) =
     (case digit_value c of None \<Rightarrow> None | Some d \<Rightarrow> parse_digits (10 * acc + d) cs)"

text \<open>
  \<open>str::parse::<u16>\<close>: an empty text or a lone sign is an error, one leading plus is skipped, every
  other character must be a digit, and a value that does not fit is an error.
\<close>

definition parse_u16 :: "string \<Rightarrow> u16 option" where
  "parse_u16 s =
     (let ds = (case s of c # cs \<Rightarrow> if c = CHR ''+'' then cs else s | [] \<Rightarrow> []) in
      if ds = [] then None
      else case parse_digits 0 ds of
             None \<Rightarrow> None
           | Some n \<Rightarrow> if n < 2 ^ 16 then Some (of_nat n) else None)"

lemma digit_value_digit [simp]:
  assumes "d < 10"
  shows "digit_value (digit d) = Some d"
proof -
  have "of_char (digit d) = (48 + d) mod 256" unfolding digit_def by (rule of_char_of)
  with assms have "of_char (digit d) = 48 + d" by simp
  with assms show ?thesis unfolding digit_value_def Let_def by simp
qed

lemma show_nat_not_Nil [simp]: "show_nat n \<noteq> []"
  by (subst show_nat.simps) simp

lemma parse_digits_append:
  "parse_digits acc (xs @ ys) =
     (case parse_digits acc xs of None \<Rightarrow> None | Some a \<Rightarrow> parse_digits a ys)"
  by (induction xs arbitrary: acc) (auto split: option.splits)

lemma parse_digits_show_nat:
  "parse_digits acc (show_nat n) = Some (acc * 10 ^ length (show_nat n) + n)"
proof (induction n arbitrary: acc rule: show_nat.induct)
  case (1 n)
  show ?case
  proof (cases "n < 10")
    case True
    then show ?thesis by (simp add: show_nat.simps [of n])
  next
    case False
    then have "parse_digits acc (show_nat (n div 10))
        = Some (acc * 10 ^ length (show_nat (n div 10)) + n div 10)"
      using "1.IH" by blast
    with False show ?thesis
      by (simp add: show_nat.simps [of n] parse_digits_append algebra_simps)
  qed
qed

lemma show_nat_inj: "show_nat m = show_nat n \<Longrightarrow> m = n"
proof -
  assume "show_nat m = show_nat n"
  then have "parse_digits 0 (show_nat m) = parse_digits 0 (show_nat n)" by (rule arg_cong)
  then show ?thesis by (simp only: parse_digits_show_nat) simp
qed

lemma hd_show_nat: "\<exists>d < 10. hd (show_nat n) = digit d"
proof (induction n rule: show_nat.induct)
  case (1 n)
  show ?case
  proof (cases "n < 10")
    case True
    then have "hd (show_nat n) = digit n" by (simp add: show_nat.simps [of n])
    with True show ?thesis by blast
  next
    case False
    then have "hd (show_nat n) = hd (show_nat (n div 10))" by (simp add: show_nat.simps [of n])
    with False "1.IH" show ?thesis by simp
  qed
qed

lemma digit_not_sign: "d < 10 \<Longrightarrow> digit d \<noteq> CHR ''+'' \<and> digit d \<noteq> CHR ''-''"
proof -
  assume "d < 10"
  then have "digit_value (digit d) \<noteq> None" by simp
  then show ?thesis by (auto simp: digit_value_def Let_def)
qed

lemma show_nat_hd_not_sign: "hd (show_nat n) \<noteq> CHR ''+'' \<and> hd (show_nat n) \<noteq> CHR ''-''"
  using hd_show_nat [of n] digit_not_sign by metis

lemma show_nat_Cons:
  assumes "show_nat n = c # cs"
  shows "c \<noteq> CHR ''+''" and "c \<noteq> CHR ''-''"
  using show_nat_hd_not_sign [of n] assms by auto

lemma show_int_inj: "show_int i = show_int j \<Longrightarrow> i = j"
proof -
  assume eq: "show_int i = show_int j"
  show "i = j"
  proof (cases "i < 0"; cases "j < 0")
    assume "i < 0" "j < 0"
    with eq have "nat (- i) = nat (- j)" by (auto simp: show_int_def intro: show_nat_inj)
    with \<open>i < 0\<close> \<open>j < 0\<close> show ?thesis by simp
  next
    assume "\<not> i < 0" "\<not> j < 0"
    with eq have "nat i = nat j" by (auto simp: show_int_def intro: show_nat_inj)
    with \<open>\<not> i < 0\<close> \<open>\<not> j < 0\<close> show ?thesis by simp
  next
    assume "i < 0" "\<not> j < 0"
    with eq show ?thesis
      using show_nat_Cons(2) [of "nat j" "CHR ''-''" "show_nat (nat (- i))"] by (simp add: show_int_def)
  next
    assume "\<not> i < 0" "j < 0"
    with eq show ?thesis
      using show_nat_Cons(2) [of "nat i" "CHR ''-''" "show_nat (nat (- j))"] by (simp add: show_int_def)
  qed
qed

lemma parse_u16_show_nat: "n < 2 ^ 16 \<Longrightarrow> parse_u16 (show_nat n) = Some (of_nat n)"
proof -
  assume n: "n < 2 ^ 16"
  obtain c cs where s: "show_nat n = c # cs" by (cases "show_nat n") auto
  then have "c \<noteq> CHR ''+''" by (rule show_nat_Cons)
  moreover have "parse_digits 0 (show_nat n) = Some n" by (simp add: parse_digits_show_nat)
  ultimately show ?thesis using n s by (simp add: parse_u16_def)
qed

end
