(* ===== verification/Transaction.thy ===== *)
theory Transaction
  imports Rust_Int
begin

text \<open>
  The data the components exchange: what the code reads of a Solana transaction, the metadata of a
  request and the record of a transaction in the retry queue (\<open>TransactionData\<close> of
  \<open>storage/transaction_store.rs\<close>, \<open>RequestMetadata\<close> and \<open>SendTransactionBundleResponse\<close> of
  \<open>application/transaction.rs\<close>), and the errors of \<open>errors.rs\<close>.

  A signature, a hash and a public key are wrapped by the text \<open>to_string\<close> prints for them.
\<close>

datatype signature = Signature (sig_text: string)
datatype hash = Hash (hash_text: string)
datatype pubkey = Pubkey (pubkey_text: string)

record compiled_instruction =
  program_id_index :: u8
  ix_data :: "u8 list"

record versioned_transaction =
  signatures :: "signature list"
  recent_blockhash :: hash
  static_account_keys :: "pubkey list"
  instructions :: "compiled_instruction list"

record request_metadata =
  api_key :: string

record transaction_data =
  wire_transaction :: "u8 list"
  versioned_transaction :: versioned_transaction
  sent_at :: instant
  retry_count :: usize
  max_retries :: usize
  request_metadata :: "request_metadata option"

record bundle_response =
  response_signatures :: "string list"
  response_errors :: "string list"

text \<open>
  \<open>request_metadata.map(|m| m.api_key).unwrap_or("none")\<close>, the key every request is counted under.
\<close>

definition api_key_or_none :: "request_metadata option \<Rightarrow> string" where
  "api_key_or_none m = unwrap_or ''none'' (map_option api_key m)"

section \<open>Errors\<close>

datatype error_code = INVALID_PARAMS_CODE | INTERNAL_ERROR_CODE

record error_object =
  code :: error_code
  message :: string
  data :: "string option"

datatype atlas_txn_sender_error = Custom string

definition invalid_request :: "string \<Rightarrow> error_object" where
  "invalid_request reason =
     \<lparr>code = INVALID_PARAMS_CODE, message = ''Invalid Request: '' @ reason, data = None\<rparr>"

fun display_error :: "atlas_txn_sender_error \<Rightarrow> string" where
  "display_error (Custom msg) = msg"

definition error_from_string :: "string \<Rightarrow> atlas_txn_sender_error" where
  "error_from_string msg = Custom msg"

fun error_into_object :: "atlas_txn_sender_error \<Rightarrow> error_object" where
  "error_into_object (Custom msg) = \<lparr>code = INTERNAL_ERROR_CODE, message = msg, data = None\<rparr>"

lemma error_message_kept: "message (error_into_object e) = display_error e"
  by (cases e) simp

lemma invalid_request_inj [simp]: "invalid_request r = invalid_request r' \<longleftrightarrow> r = r'"
  by (simp add: invalid_request_def)

end
