(* ===== verification/Dash_Map.thy ===== *)
theory Dash_Map
  imports Prelude
begin

text \<open>
  The maps the program shares between its tasks (\<open>DashMap\<close>) and the insertion-ordered map of
  \<open>get_leaders\<close> (\<open>IndexMap\<close>). A concurrent map is the list of its entries, one for each key, in the
  order an iteration would yield them. That order is unspecified in the library, so every theorem
  quantifies over all lists that represent a map, and the transition system of the whole service has
  a step that permutes it. The laws the program relies on are the assumptions of the locale
  \<open>concurrent_map\<close>, which the list operations below discharge.
\<close>

type_synonym ('k, 'v) dashmap = "('k \<times> 'v) list"

definition dm_ok :: "('k, 'v) dashmap \<Rightarrow> bool" where
  "dm_ok m \<longleftrightarrow> distinct (map fst m)"

definition dm_get :: "('k, 'v) dashmap \<Rightarrow> 'k \<Rightarrow> 'v option" where
  "dm_get m k = map_of m k"

definition dm_contains_key :: "('k, 'v) dashmap \<Rightarrow> 'k \<Rightarrow> bool" where
  "dm_contains_key m k = (dm_get m k \<noteq> None)"

definition dm_insert :: "'k \<Rightarrow> 'v \<Rightarrow> ('k, 'v) dashmap \<Rightarrow> ('k, 'v) dashmap" where
  "dm_insert k v m = AList.update k v m"

definition dm_remove :: "'k \<Rightarrow> ('k, 'v) dashmap \<Rightarrow> ('k, 'v) dashmap" where
  "dm_remove k m = filter (\<lambda>e. fst e \<noteq> k) m"

definition dm_retain :: "('k \<Rightarrow> 'v \<Rightarrow> bool) \<Rightarrow> ('k, 'v) dashmap \<Rightarrow> ('k, 'v) dashmap" where
  "dm_retain P m = filter (\<lambda>(k, v). P k v) m"

definition every_entry :: "('k \<Rightarrow> 'v option) \<Rightarrow> ('k \<Rightarrow> 'v \<Rightarrow> bool) \<Rightarrow> bool" where
  "every_entry look Q \<longleftrightarrow> (\<forall>k v. look k = Some v \<longrightarrow> Q k v)"

lemma every_entryI: "(\<And>k v. look k = Some v \<Longrightarrow> Q k v) \<Longrightarrow> every_entry look Q"
  by (simp add: every_entry_def)

lemma every_entryD: "every_entry look Q \<Longrightarrow> look k = Some v \<Longrightarrow> Q k v"
  by (simp add: every_entry_def)

section \<open>The interface\<close>

locale concurrent_map =
  fixes lookup :: "'m \<Rightarrow> 'k \<Rightarrow> 'v option"
    and insert_at :: "'k \<Rightarrow> 'v \<Rightarrow> 'm \<Rightarrow> 'm"
    and remove_at :: "'k \<Rightarrow> 'm \<Rightarrow> 'm"
    and retain_in :: "('k \<Rightarrow> 'v \<Rightarrow> bool) \<Rightarrow> 'm \<Rightarrow> 'm"
    and wf_map :: "'m \<Rightarrow> bool"
  assumes lookup_insert: "wf_map m \<Longrightarrow> lookup (insert_at k v m) = (lookup m)(k \<mapsto> v)"
    and lookup_remove: "wf_map m \<Longrightarrow> lookup (remove_at k m) = (lookup m)(k := None)"
    and lookup_retain: "wf_map m \<Longrightarrow> lookup (retain_in P m) k =
          (case lookup m k of None \<Rightarrow> None | Some v \<Rightarrow> if P k v then Some v else None)"
    and wf_insert: "wf_map m \<Longrightarrow> wf_map (insert_at k v m)"
    and wf_remove: "wf_map m \<Longrightarrow> wf_map (remove_at k m)"
    and wf_retain: "wf_map m \<Longrightarrow> wf_map (retain_in P m)"
begin

lemma every_insert:
  "wf_map m \<Longrightarrow> every_entry (lookup m) Q \<Longrightarrow> Q k v \<Longrightarrow> every_entry (lookup (insert_at k v m)) Q"
  by (auto simp: lookup_insert every_entry_def)

lemma every_remove:
  "wf_map m \<Longrightarrow> every_entry (lookup m) Q \<Longrightarrow> every_entry (lookup (remove_at k m)) Q"
  by (auto simp: lookup_remove every_entry_def)

lemma every_retain:
  "wf_map m \<Longrightarrow> every_entry (lookup m) Q \<Longrightarrow>
     every_entry (lookup (retain_in P m)) (\<lambda>k v. Q k v \<and> P k v)"
  by (auto simp: lookup_retain every_entry_def split: option.splits if_splits)

lemma retain_keeps:
  "wf_map m \<Longrightarrow> lookup m k = Some v \<Longrightarrow> P k v \<Longrightarrow> lookup (retain_in P m) k = Some v"
  by (simp add: lookup_retain)

lemma retain_only:
  "wf_map m \<Longrightarrow> lookup (retain_in P m) k = Some v \<longleftrightarrow> lookup m k = Some v \<and> P k v"
  by (auto simp: lookup_retain split: option.splits)

lemma insert_other: "wf_map m \<Longrightarrow> k' \<noteq> k \<Longrightarrow> lookup (insert_at k v m) k' = lookup m k'"
  by (simp add: lookup_insert)

lemma remove_other: "wf_map m \<Longrightarrow> k' \<noteq> k \<Longrightarrow> lookup (remove_at k m) k' = lookup m k'"
  by (simp add: lookup_remove)

lemma wf_fold_insert: "wf_map m \<Longrightarrow> wf_map (fold (\<lambda>(k, v). insert_at k v) kvs m)"
  by (induction kvs arbitrary: m) (auto simp: wf_insert)

lemma wf_fold_remove: "wf_map m \<Longrightarrow> wf_map (fold remove_at ks m)"
  by (induction ks arbitrary: m) (auto simp: wf_remove)

lemma lookup_fold_remove:
  "wf_map m \<Longrightarrow> lookup (fold remove_at ks m) k = (if k \<in> set ks then None else lookup m k)"
  by (induction ks arbitrary: m) (auto simp: wf_remove lookup_remove)

lemma lookup_fold_insert:
  "wf_map m \<Longrightarrow> lookup (fold (\<lambda>(k, v). insert_at k v) kvs m) k =
     (case map_of (rev kvs) k of None \<Rightarrow> lookup m k | Some v \<Rightarrow> Some v)"
  by (induction kvs arbitrary: m)
    (auto simp: wf_insert lookup_insert map_add_def split: option.splits)

end

section \<open>The entry list implements it\<close>

lemma dm_get_filter:
  "dm_ok m \<Longrightarrow> dm_get (filter (\<lambda>(k, v). P k v) m) k =
     (case dm_get m k of None \<Rightarrow> None | Some v \<Rightarrow> if P k v then Some v else None)"
proof (induction m)
  case (Cons e m)
  obtain k' v' where e: "e = (k', v')" by (cases e)
  have "map_of m k' = None" if "k = k'"
    using Cons.prems e by (auto simp: dm_ok_def map_of_eq_None_iff image_iff)
  with Cons e show ?case
    by (auto simp: dm_ok_def dm_get_def split: option.splits)
qed (simp add: dm_get_def)

interpretation dm: concurrent_map dm_get dm_insert dm_remove dm_retain dm_ok
proof unfold_locales
  fix m :: "('a, 'b) dashmap" and k v P
  assume ok: "dm_ok m"
  show "dm_get (dm_insert k v m) = (dm_get m)(k \<mapsto> v)"
    by (simp add: fun_eq_iff dm_get_def dm_insert_def update_conv')
  show "dm_get (dm_remove k m) = (dm_get m)(k := None)"
  proof
    fix k'
    show "dm_get (dm_remove k m) k' = ((dm_get m)(k := None)) k'"
      using dm_get_filter [OF ok, of "\<lambda>x _. x \<noteq> k" k']
      by (auto simp: dm_remove_def split_def split: option.splits)
  qed
  show "dm_ok (dm_insert k v m)"
    using ok by (simp add: dm_ok_def dm_insert_def distinct_update)
  show "dm_ok (dm_remove k m)"
    using ok by (simp add: dm_ok_def dm_remove_def distinct_map_filter)
next
  fix m :: "('a, 'b) dashmap" and P k
  assume ok: "dm_ok m"
  show "dm_get (dm_retain P m) k =
      (case dm_get m k of None \<Rightarrow> None | Some v \<Rightarrow> if P k v then Some v else None)"
    using dm_get_filter [OF ok] by (simp add: dm_retain_def)
  show "dm_ok (dm_retain P m)"
    using ok by (simp add: dm_ok_def dm_retain_def distinct_map_filter)
qed

lemmas dash [dash_simps] = dm.lookup_insert dm.lookup_remove dm.lookup_retain
lemmas dash_wf [dash_simps] = dm.wf_insert dm.wf_remove dm.wf_retain

section \<open>Entries and lookups\<close>

lemma dm_ok_Nil [simp]: "dm_ok []"
  by (simp add: dm_ok_def)

lemma dm_get_Nil [simp]: "dm_get [] k = None"
  by (simp add: dm_get_def)

lemma dm_ok_Cons: "dm_ok ((k, v) # m) \<longleftrightarrow> dm_get m k = None \<and> dm_ok m"
  by (auto simp: dm_ok_def dm_get_def map_of_eq_None_iff)

lemma dm_get_in_set: "dm_ok m \<Longrightarrow> dm_get m k = Some v \<longleftrightarrow> (k, v) \<in> set m"
  by (auto simp: dm_ok_def dm_get_def dest: map_of_SomeD intro: map_of_is_SomeI)

lemma dm_contains_key_iff: "dm_contains_key m k \<longleftrightarrow> k \<in> fst ` set m"
  by (auto simp: dm_contains_key_def dm_get_def map_of_eq_None_iff)

lemma every_entry_set: "dm_ok m \<Longrightarrow> every_entry (dm_get m) Q \<longleftrightarrow> (\<forall>(k, v) \<in> set m. Q k v)"
  by (auto simp: every_entry_def dm_get_in_set)

lemma dm_length_insert:
  "length (dm_insert k v m) = (if dm_contains_key m k then length m else Suc (length m))"
proof -
  have "length (map fst (AList.update k v m))
      = (if k \<in> set (map fst m) then length m else Suc (length m))"
    unfolding update_keys by simp
  then show ?thesis by (simp add: dm_insert_def dm_contains_key_iff)
qed

text \<open>Two lists with the same entries are the same map: the iteration order is not observable in lookups.\<close>

lemma dm_perm_ok: "mset m = mset m' \<Longrightarrow> dm_ok m \<Longrightarrow> dm_ok m'"
  unfolding dm_ok_def by (metis mset_eq_imp_distinct_iff mset_map)

lemma dm_perm_get:
  assumes "mset m = mset m'" and "dm_ok m"
  shows "dm_get m = dm_get m'"
proof
  fix k
  have "dm_ok m'" using assms by (rule dm_perm_ok)
  moreover have "set m = set m'" using assms(1) by (rule mset_eq_setD)
  ultimately have "dm_get m k = Some v \<longleftrightarrow> dm_get m' k = Some v" for v
    using assms(2) by (simp add: dm_get_in_set)
  then show "dm_get m k = dm_get m' k" by (metis option.exhaust)
qed

text \<open>
  \<open>iter_mut\<close> with a body that changes the value in place: the keys and their order stay.
\<close>

definition dm_update_values :: "('v \<Rightarrow> 'v) \<Rightarrow> ('k, 'v) dashmap \<Rightarrow> ('k, 'v) dashmap" where
  "dm_update_values f m = map (\<lambda>(k, v). (k, f v)) m"

lemma dm_get_update_values [dash_simps]:
  "dm_get (dm_update_values f m) k = map_option f (dm_get m k)"
  by (induction m) (auto simp: dm_get_def dm_update_values_def)

lemma dm_ok_update_values [dash_simps]: "dm_ok (dm_update_values f m) \<longleftrightarrow> dm_ok m"
  by (simp add: dm_ok_def dm_update_values_def comp_def split_def)

section \<open>Insertion order\<close>

text \<open>
  \<open>IndexMap::insert\<close>: a new key goes to the end, a known key keeps its place and gets the new
  value.
\<close>

definition im_insert :: "'k \<Rightarrow> 'v \<Rightarrow> ('k \<times> 'v) list \<Rightarrow> ('k \<times> 'v) list" where
  "im_insert k v m = AList.update k v m"

lemma im_insert_keys:
  "map fst (im_insert k v m) = (if k \<in> set (map fst m) then map fst m else map fst m @ [k])"
  unfolding im_insert_def by (rule update_keys)

lemma im_insert_distinct: "distinct (map fst m) \<Longrightarrow> distinct (map fst (im_insert k v m))"
  by (simp add: im_insert_def distinct_update)

lemma im_insert_length_le: "length m \<le> length (im_insert k v m)"
  and im_insert_length_ge: "length (im_insert k v m) \<le> Suc (length m)"
  using im_insert_keys [of k v m] by (auto dest: arg_cong [where f = length] split: if_splits)

lemma im_insert_set: "set (im_insert k v m) \<subseteq> insert (k, v) (set m)"
  by (induction m) (auto simp: im_insert_def)

end
