(* ===== verification/Transaction_Store.thy ===== *)
theory Transaction_Store
  imports Transaction Dash_Map
begin

text \<open>
  \<open>storage/transaction_store.rs\<close>: the retry queue, a concurrent map from the text of a
  transaction's first signature to its record. The trait \<open>TransactionStore\<close> is the locale
  \<open>transaction_store\<close>: what a caller may rely on; the interpretation \<open>ts\<close> discharges its laws for
  \<open>TransactionStoreImpl\<close>. Logging and the three duration metrics of the store are left out.
\<close>

type_synonym tx_store = "(string, transaction_data) dashmap"

definition get_signature :: "transaction_data \<Rightarrow> string option" where
  "get_signature t =
     (case signatures (versioned_transaction t) of [] \<Rightarrow> None | s # _ \<Rightarrow> Some (sig_text s))"

definition new_store :: tx_store where
  "new_store = []"

definition has_signature :: "tx_store \<Rightarrow> string \<Rightarrow> bool" where
  "has_signature s sg = dm_contains_key s sg"

definition add_transaction :: "transaction_data \<Rightarrow> tx_store \<Rightarrow> tx_store" where
  "add_transaction t s =
     (case get_signature t of
        Some sg \<Rightarrow> if dm_contains_key s sg then s else dm_insert sg t s
      | None \<Rightarrow> s)"

definition get_signatures :: "tx_store \<Rightarrow> panic + string list" where
  "get_signatures s = try_map (\<lambda>(_, t). unwrap (get_signature t)) s"

definition remove_transaction :: "string \<Rightarrow> tx_store \<Rightarrow> transaction_data option \<times> tx_store" where
  "remove_transaction sg s = (dm_get s sg, dm_remove sg s)"

text \<open>\<open>get_transactions\<close> hands out the shared map itself.\<close>

definition get_transactions :: "tx_store \<Rightarrow> (string, transaction_data) dashmap" where
  "get_transactions s = s"

section \<open>The invariant\<close>

text \<open>
  Every entry is filed under its own first signature and has not been retried more often than its
  bound allows.
\<close>

definition entry_ok :: "string \<Rightarrow> transaction_data \<Rightarrow> bool" where
  "entry_ok k t \<longleftrightarrow> get_signature t = Some k \<and> retry_count t \<le> max_retries t"

definition store_ok :: "tx_store \<Rightarrow> bool" where
  "store_ok s \<longleftrightarrow> dm_ok s \<and> every_entry (dm_get s) entry_ok"

lemma store_okD: "store_ok s \<Longrightarrow> dm_get s k = Some t \<Longrightarrow> entry_ok k t"
  by (simp add: store_ok_def every_entry_def)

lemma store_ok_dm [dest]: "store_ok s \<Longrightarrow> dm_ok s"
  by (simp add: store_ok_def)

lemma store_ok_new [store_inv]: "store_ok new_store"
  by (simp add: store_ok_def new_store_def every_entry_def)

lemma store_ok_insert [store_inv]:
  "store_ok s \<Longrightarrow> get_signature t = Some sg \<Longrightarrow> retry_count t \<le> max_retries t \<Longrightarrow>
     store_ok (dm_insert sg t s)"
  by (auto simp: store_ok_def entry_ok_def dash_wf intro!: dm.every_insert)

lemma store_ok_add [store_inv]:
  "store_ok s \<Longrightarrow> retry_count t \<le> max_retries t \<Longrightarrow> store_ok (add_transaction t s)"
  by (auto simp: add_transaction_def store_ok_insert split: option.split)

lemma store_ok_remove [store_inv]: "store_ok s \<Longrightarrow> store_ok (snd (remove_transaction sg s))"
  by (auto simp: store_ok_def remove_transaction_def dash_wf intro!: dm.every_remove)

lemma store_ok_dm_remove [store_inv]: "store_ok s \<Longrightarrow> store_ok (dm_remove sg s)"
  using store_ok_remove [of s sg] by (simp add: remove_transaction_def)

lemma store_ok_perm [store_inv]: "store_ok s \<Longrightarrow> mset s = mset s' \<Longrightarrow> store_ok s'"
  using dm_perm_get [of s s'] dm_perm_ok [of s s'] by (auto simp: store_ok_def)

lemma store_ok_entries: "store_ok s \<longleftrightarrow> dm_ok s \<and> (\<forall>(k, t) \<in> set s. entry_ok k t)"
  by (auto simp: store_ok_def every_entry_set)

section \<open>The contract of the trait\<close>

locale transaction_store =
  fixes has :: "'s \<Rightarrow> string \<Rightarrow> bool"
    and add :: "transaction_data \<Rightarrow> 's \<Rightarrow> 's"
    and remove :: "string \<Rightarrow> 's \<Rightarrow> transaction_data option \<times> 's"
    and find_tx :: "'s \<Rightarrow> string \<Rightarrow> transaction_data option"
    and ok :: "'s \<Rightarrow> bool"
  assumes has_find: "has s sg \<longleftrightarrow> find_tx s sg \<noteq> None"
    and find_add: "ok s \<Longrightarrow> find_tx (add t s) sg =
          (if get_signature t = Some sg \<and> \<not> has s sg then Some t else find_tx s sg)"
    and remove_result: "fst (remove sg s) = find_tx s sg"
    and find_remove: "ok s \<Longrightarrow> find_tx (snd (remove sg s)) sg' = (if sg' = sg then None else find_tx s sg')"
    and ok_add: "ok s \<Longrightarrow> retry_count t \<le> max_retries t \<Longrightarrow> ok (add t s)"
    and ok_remove: "ok s \<Longrightarrow> ok (snd (remove sg s))"
begin

lemma add_then_has: "ok s \<Longrightarrow> get_signature t = Some sg \<Longrightarrow> has (add t s) sg"
  by (simp add: has_find find_add)

lemma add_keeps_first: "ok s \<Longrightarrow> find_tx s sg = Some u \<Longrightarrow> find_tx (add t s) sg = Some u"
  by (auto simp: find_add has_find)

lemma add_twice:
  "ok s \<Longrightarrow> retry_count t \<le> max_retries t \<Longrightarrow> get_signature u = get_signature t \<Longrightarrow>
     find_tx (add u (add t s)) sg = find_tx (add t s) sg"
  by (auto simp: find_add has_find ok_add)

lemma remove_takes_added:
  "ok s \<Longrightarrow> retry_count t \<le> max_retries t \<Longrightarrow> get_signature t = Some sg \<Longrightarrow> \<not> has s sg \<Longrightarrow>
     fst (remove sg (add t s)) = Some t \<and> \<not> has (snd (remove sg (add t s))) sg"
  by (simp add: remove_result find_add find_remove has_find ok_add)

lemma remove_again: "ok s \<Longrightarrow> fst (remove sg (snd (remove sg s))) = None"
  by (simp add: remove_result find_remove)

end

interpretation ts: transaction_store has_signature add_transaction remove_transaction dm_get store_ok
  by unfold_locales
    (auto simp: has_signature_def dm_contains_key_def add_transaction_def remove_transaction_def
      dash_simps store_ok_dm store_inv split: option.splits)

section \<open>Functional behaviour\<close>

lemma get_signatures_keys:
  assumes "store_ok s"
  shows "get_signatures s = Inr (map fst s)"
proof -
  from assms have "list_all2 (\<lambda>e k. (case e of (_, t) \<Rightarrow> unwrap (get_signature t)) = Inr k) s (map fst s)"
    by (auto simp: store_ok_entries entry_ok_def list_all2_map2 list_all2_same)
  then show ?thesis by (simp add: get_signatures_def try_map_Inr_iff)
qed

lemma add_without_signature [simp]: "get_signature t = None \<Longrightarrow> add_transaction t s = s"
  by (simp add: add_transaction_def)

lemma length_add_transaction:
  "length (add_transaction t s) =
     (case get_signature t of
        Some sg \<Rightarrow> if has_signature s sg then length s else Suc (length s)
      | None \<Rightarrow> length s)"
  by (simp add: add_transaction_def has_signature_def dm_length_insert split: option.split)

end
