(* ===== verification/Solana_Rpc.thy ===== *)
theory Solana_Rpc
  imports Rust_Int
begin

text \<open>
  \<open>infrastructure/solana_rpc.rs\<close>: the trait \<open>SolanaRpc\<close>, through which the leader tracker and the
  sender see the chain. \<open>get_next_slot\<close> never reports the slot 0, which stands for not yet known;
  \<open>confirm_transaction\<close> waits on the cache of confirmed signatures that \<open>confirmed_at\<close> reads. Both
  locales are interpreted in the theory of \<open>GrpcGeyserImpl\<close>.
\<close>

locale slot_source =
  fixes next_slot_of :: "'s \<Rightarrow> u64 option"
  assumes next_slot_nonzero: "next_slot_of src = Some n \<Longrightarrow> n \<noteq> 0"
begin

lemma next_slot_zero: "next_slot_of src \<noteq> Some 0"
  using next_slot_nonzero by blast

end

text \<open>
  The confirmation half: \<open>wait clock caches sg\<close> is the answer of the waiting call that finds the
  cache \<open>caches k\<close> and the elapsed time \<open>clock k\<close> at its \<open>k\<close>-th turn.
\<close>

locale confirmation_source =
  fixes confirmed_at :: "'c \<Rightarrow> string \<Rightarrow> i64 option"
    and wait :: "(nat \<Rightarrow> duration) \<Rightarrow> (nat \<Rightarrow> 'c) \<Rightarrow> string \<Rightarrow> i64 option option"
    and limit :: duration
    and nap :: duration
  assumes wait_returns: "sleeps_at_least nap clock \<Longrightarrow> \<exists>r. wait clock caches sg = Some r"
    and wait_Some: "wait clock caches sg = Some (Some bt) \<Longrightarrow>
          \<exists>k. clock k < limit \<and> confirmed_at (caches k) sg = Some bt"
    and wait_None: "wait clock caches sg = Some None \<Longrightarrow> sleeps_at_least nap clock \<Longrightarrow>
          clock k < limit \<Longrightarrow> confirmed_at (caches k) sg = None"
begin

lemma wait_finds:
  "sleeps_at_least nap clock \<Longrightarrow> clock k < limit \<Longrightarrow> confirmed_at (caches k) sg \<noteq> None \<Longrightarrow>
     \<exists>bt. wait clock caches sg = Some (Some bt)"
  by (metis wait_returns wait_None option.exhaust)

lemma wait_misses:
  "sleeps_at_least nap clock \<Longrightarrow> (\<And>k. clock k < limit \<Longrightarrow> confirmed_at (caches k) sg = None) \<Longrightarrow>
     wait clock caches sg = Some None"
  by (metis wait_returns wait_Some option.exhaust option.distinct(1))

end

end
