(* ===== verification/Leader_Tracker.thy ===== *)
theory Leader_Tracker
  imports Solana_Rpc Transaction Dash_Map
begin

text \<open>
  \<open>infrastructure/leader_tracker.rs\<close>: the tracker's state, the slot poller, the leader poller with
  its clean-up, and \<open>get_leaders\<close>. The slots come from the trait \<open>SolanaRpc\<close> (locale \<open>slot_source\<close>);
  the trait \<open>LeaderTracker\<close> is the locale \<open>leader_source\<close>, interpreted on \<open>get_leaders\<close>. The answers of the RPC node are arguments. The last
  section interleaves the two pollers, which run as separate tasks on the shared state.
\<close>

record contact_info =
  contact_pubkey :: string
  tpu_quic :: "string option"

definition NUM_LEADERS_PER_SLOT :: usize where
  "NUM_LEADERS_PER_SLOT = 4"

record leader_tracker =
  cur_slot :: u64
  cur_leaders :: "(u64, contact_info) dashmap"
  num_leaders :: usize
  leader_offset :: i64

definition new_tracker :: "usize \<Rightarrow> i64 \<Rightarrow> leader_tracker" where
  "new_tracker n off =
     \<lparr>cur_slot = 0, cur_leaders = [], num_leaders = n, leader_offset = off\<rparr>"

section \<open>The slot poller\<close>

definition get_start_slot :: "profile \<Rightarrow> u64 \<Rightarrow> i64 \<Rightarrow> panic + u64" where
  "get_start_slot p next_slot offset =
     and_then (mul_i64 p offset NUM_LEADERS_PER_SLOT) (\<lambda>slot_buffer.
       if 0 < sint slot_buffer then add_w p next_slot slot_buffer
       else sub_w p next_slot (unsigned_abs slot_buffer))"

text \<open>One turn of the loop, on the answer of \<open>get_next_slot\<close>.\<close>

definition poll_slot_once :: "profile \<Rightarrow> u64 option \<Rightarrow> leader_tracker \<Rightarrow> panic + leader_tracker" where
  "poll_slot_once p next_slot t =
     (case next_slot of
        None \<Rightarrow> Inr t
      | Some s \<Rightarrow>
          and_then (get_start_slot p s (leader_offset t)) (\<lambda>start_slot.
            if cur_slot t < start_slot then Inr (t\<lparr>cur_slot := start_slot\<rparr>) else Inr t))"

fun poll_slot :: "profile \<Rightarrow> leader_tracker \<Rightarrow> u64 option list \<Rightarrow> panic + leader_tracker" where
  "poll_slot p t [] = Inr t"
| "poll_slot p t (s # ss) = and_then (poll_slot_once p s t) (\<lambda>t'. poll_slot p t' ss)"

section \<open>The leader poller\<close>

definition cluster_node_map :: "contact_info list \<Rightarrow> string \<Rightarrow> contact_info option" where
  "cluster_node_map nodes = fold (\<lambda>n m. m(contact_pubkey n \<mapsto> n)) nodes (\<lambda>_. None)"

fun insert_leaders ::
  "profile \<Rightarrow> (string \<Rightarrow> contact_info option) \<Rightarrow> u64 \<Rightarrow> nat \<Rightarrow> pubkey list \<Rightarrow>
   (u64, contact_info) dashmap \<Rightarrow> panic + (u64, contact_info) dashmap" where
  "insert_leaders p nodes next_slot i [] m = Inr m"
| "insert_leaders p nodes next_slot i (leader # leaders) m =
     (case nodes (pubkey_text leader) of
        Some ci \<Rightarrow>
          and_then (add_w p next_slot (of_nat i)) (\<lambda>slot.
            insert_leaders p nodes next_slot (Suc i) leaders (dm_insert slot ci m))
      | None \<Rightarrow> insert_leaders p nodes next_slot (Suc i) leaders m)"

definition slots_to_remove :: "leader_tracker \<Rightarrow> u64 list" where
  "slots_to_remove t = filter (\<lambda>s. s < cur_slot t) (map fst (cur_leaders t))"

definition clean_up_slot_leaders :: "leader_tracker \<Rightarrow> leader_tracker" where
  "clean_up_slot_leaders t =
     t\<lparr>cur_leaders := fold dm_remove (slots_to_remove t) (cur_leaders t)\<rparr>"

definition poll_slot_leaders_once ::
  "profile \<Rightarrow> (u64 \<Rightarrow> u64 \<Rightarrow> string + pubkey list) \<Rightarrow> (string + contact_info list) \<Rightarrow>
   leader_tracker \<Rightarrow> panic + ((atlas_txn_sender_error + unit) \<times> leader_tracker)" where
  "poll_slot_leaders_once p get_slot_leaders get_cluster_nodes t =
     (let next_slot = cur_slot t in
      case get_slot_leaders next_slot 1000 of
        Inl e \<Rightarrow> Inr (Inl (error_from_string (''Error getting slot leaders: '' @ e)), t)
      | Inr slot_leaders \<Rightarrow>
          (case get_cluster_nodes of
             Inl e \<Rightarrow> Inr (Inl (error_from_string (''Error getting cluster nodes: '' @ e)), t)
           | Inr nodes \<Rightarrow>
               and_then (insert_leaders p (cluster_node_map nodes) next_slot 0 slot_leaders
                           (cur_leaders t))
                 (\<lambda>m. Inr (Inr (), clean_up_slot_leaders (t\<lparr>cur_leaders := m\<rparr>)))))"

text \<open>How long the loop sleeps after a round: a second after an error, a minute otherwise.\<close>

definition poll_slot_leaders_pause :: "atlas_txn_sender_error + unit \<Rightarrow> duration" where
  "poll_slot_leaders_pause r = (case r of Inl _ \<Rightarrow> 1000 | Inr _ \<Rightarrow> 60000)"

section \<open>Reading the leaders\<close>

definition slot_range :: "u64 \<Rightarrow> u64 \<Rightarrow> u64 list" where
  "slot_range a b = (if a < b then map (\<lambda>i. a + of_nat i) [0..<unat (b - a)] else [])"

fun leaders_loop ::
  "(u64 \<Rightarrow> contact_info option) \<Rightarrow> nat \<Rightarrow> u64 list \<Rightarrow> (string \<times> contact_info) list \<Rightarrow>
   (string \<times> contact_info) list" where
  "leaders_loop look n [] leaders = leaders"
| "leaders_loop look n (slot # slots) leaders =
     (let leaders' = (case look slot of
            Some leader \<Rightarrow> im_insert (contact_pubkey leader) leader leaders
          | None \<Rightarrow> leaders) in
      if n \<le> length leaders' then leaders' else leaders_loop look n slots leaders')"

definition get_leaders :: "profile \<Rightarrow> leader_tracker \<Rightarrow> panic + contact_info list" where
  "get_leaders p t =
     and_then (mul_w p (num_leaders t) NUM_LEADERS_PER_SLOT) (\<lambda>window.
       and_then (add_w p (cur_slot t) window) (\<lambda>end_slot.
         Inr (map snd (leaders_loop (dm_get (cur_leaders t)) (unat (num_leaders t))
                         (slot_range (cur_slot t) end_slot) []))))"

section \<open>Facts about the slot poller\<close>

lemma sint_NUM: "sint NUM_LEADERS_PER_SLOT = 4"
  by (simp add: NUM_LEADERS_PER_SLOT_def)

text \<open>The start slot is the observed slot shifted by four slots per leader of offset.\<close>

lemma get_start_slot_exact:
  assumes "- (2 ^ 63) \<le> 4 * sint offset" and "4 * sint offset < 2 ^ 63"
    and "0 \<le> uint s + 4 * sint offset" and "uint s + 4 * sint offset < 2 ^ 64"
  obtains r where "get_start_slot p s offset = Inr r" and "uint r = uint s + 4 * sint offset"
proof -
  define b where "b = offset * NUM_LEADERS_PER_SLOT"
  have b: "sint b = 4 * sint offset"
    using assms(1,2) by (simp add: b_def sint_mul_exact sint_NUM)
  have mul: "mul_i64 p offset NUM_LEADERS_PER_SLOT = Inr b"
    using assms(1,2) by (simp add: b_def mul_i64_exact sint_NUM)
  show thesis
  proof (cases "0 < sint b")
    case True
    then have ub: "uint b = 4 * sint offset" using b by (simp only: uint_of_nonneg)
    have "uint s + uint b < 2 ^ LENGTH(64)" using assms(4) ub by simp
    note add = add_w_uint [OF this]
    from True mul add(1) have "get_start_slot p s offset = Inr (s + b)"
      by (simp add: get_start_slot_def)
    moreover from add(2) ub have "uint (s + b) = uint s + 4 * sint offset" by simp
    ultimately show thesis by (rule that)
  next
    case False
    then have ub: "uint (unsigned_abs b) = - (4 * sint offset)" using b by (simp add: uint_unsigned_abs)
    have "uint (unsigned_abs b) \<le> uint s" using assms(3) ub by simp
    note sub = sub_w_uint [OF this]
    from False mul sub(1) have "get_start_slot p s offset = Inr (s - unsigned_abs b)"
      by (simp add: get_start_slot_def)
    moreover from sub(2) ub have "uint (s - unsigned_abs b) = uint s + 4 * sint offset" by simp
    ultimately show thesis by (rule that)
  qed
qed

text \<open>A slot smaller than the backward shift: the checked build panics, the release build wraps.\<close>

lemma get_start_slot_underflow:
  assumes "- (2 ^ 63) \<le> 4 * sint offset" and "uint s + 4 * sint offset < 0"
  shows "get_start_slot Dev s offset = Inl Arith_overflow"
    and "\<exists>r. get_start_slot Release s offset = Inr r \<and> uint r = 2 ^ 64 + uint s + 4 * sint offset"
proof -
  define b where "b = offset * NUM_LEADERS_PER_SLOT"
  have neg: "sint offset < 0" using assms(2) uint_ge_0 [of s] by linarith
  then have b: "sint b = 4 * sint offset"
    using assms(1) by (simp add: b_def sint_mul_exact sint_NUM)
  have mul: "mul_i64 p offset NUM_LEADERS_PER_SLOT = Inr b" for p
    using assms(1) neg by (simp add: b_def mul_i64_exact sint_NUM)
  have ub: "uint (unsigned_abs b) = - (4 * sint offset)" using b neg by (simp add: uint_unsigned_abs)
  have "uint s < uint (unsigned_abs b)" using assms(2) ub by simp
  note sub = sub_w_uint_wrap [OF this]
  have start: "get_start_slot p s offset = sub_w p s (unsigned_abs b)" for p
    using mul b neg by (simp add: get_start_slot_def)
  show "get_start_slot Dev s offset = Inl Arith_overflow" using start sub(1) by simp
  have "uint (s - unsigned_abs b) = 2 ^ 64 + uint s + 4 * sint offset" using sub(2) ub by simp
  then show "\<exists>r. get_start_slot Release s offset = Inr r \<and> uint r = 2 ^ 64 + uint s + 4 * sint offset"
    using start by simp
qed

definition start_slot :: "i64 \<Rightarrow> u64 \<Rightarrow> u64" where
  "start_slot offset s = (case get_start_slot Release s offset of Inr r \<Rightarrow> r | Inl _ \<Rightarrow> 0)"

lemma get_start_slot_Release: "get_start_slot Release s offset = Inr (start_slot offset s)"
  by (simp add: start_slot_def get_start_slot_def)

lemma poll_slot_once_Release:
  "poll_slot_once Release s t =
     Inr (case s of None \<Rightarrow> t
          | Some v \<Rightarrow> t\<lparr>cur_slot := max (cur_slot t) (start_slot (leader_offset t) v)\<rparr>)"
  by (auto simp: poll_slot_once_def get_start_slot_Release max_def split: option.split)

lemma poll_slot_once_frame:
  assumes "poll_slot_once p s t = Inr t'"
  shows "cur_slot t \<le> cur_slot t'" and "t' = t\<lparr>cur_slot := cur_slot t'\<rparr>"
  using assms
  by (auto simp: poll_slot_once_def and_then_eq_Inr split: option.splits if_splits)

lemma poll_slot_Release:
  "poll_slot Release t ss =
     Inr (t\<lparr>cur_slot :=
       fold max (map (start_slot (leader_offset t)) (List.map_filter id ss)) (cur_slot t)\<rparr>)"
proof (induction ss arbitrary: t)
  case (Cons s ss)
  then show ?case
    by (cases s) (auto simp: poll_slot_once_Release map_filter_simps max.commute)
qed (simp add: map_filter_simps)

lemma poll_slot_mono: "poll_slot p t ss = Inr t' \<Longrightarrow> cur_slot t \<le> cur_slot t'"
proof (induction ss arbitrary: t)
  case (Cons s ss)
  then obtain u where "poll_slot_once p s t = Inr u" "poll_slot p u ss = Inr t'"
    by (auto simp: and_then_eq_Inr)
  then have "cur_slot t \<le> cur_slot u" "cur_slot u \<le> cur_slot t'"
    using poll_slot_once_frame Cons.IH by blast+
  then show ?case by (rule order_trans)
qed simp

text \<open>What the tracker gets from its slot source.\<close>

context slot_source
begin

lemma tracker_follows_source:
  assumes "next_slot_of src = Some n"
    and "- (2 ^ 63) \<le> 4 * sint (leader_offset t)" and "4 * sint (leader_offset t) < 2 ^ 63"
    and "0 \<le> uint n + 4 * sint (leader_offset t)" and "uint n + 4 * sint (leader_offset t) < 2 ^ 64"
  shows "\<exists>t'. poll_slot_once p (next_slot_of src) t = Inr t' \<and>
    uint (cur_slot t') = max (uint (cur_slot t)) (uint n + 4 * sint (leader_offset t))"
proof -
  obtain r where r: "get_start_slot p n (leader_offset t) = Inr r"
    and v: "uint r = uint n + 4 * sint (leader_offset t)"
    by (rule get_start_slot_exact [OF assms(2-5)])
  show ?thesis
  proof (cases "cur_slot t < r")
    case True
    then have "uint (cur_slot t) < uint r" by (simp add: word_less_def)
    with True r v assms(1) show ?thesis by (simp add: poll_slot_once_def)
  next
    case False
    then have "uint r \<le> uint (cur_slot t)" by (simp add: word_less_def)
    with False r v assms(1) show ?thesis by (simp add: poll_slot_once_def)
  qed
qed

lemma tracker_starts:
  assumes "next_slot_of src \<noteq> None" and "leader_offset t = 0"
    and "poll_slot_once p (next_slot_of src) t = Inr t'"
  shows "cur_slot t' \<noteq> 0"
proof -
  obtain n where n: "next_slot_of src = Some n" using assms(1) by blast
  then have "n \<noteq> 0" by (rule next_slot_nonzero)
  then have "uint n \<noteq> 0" by (simp add: uint_0_iff)
  then have pos: "0 < uint n" using uint_ge_0 [of n] by linarith
  have lt: "uint n < 2 ^ 64" using unsigned_less [of n, where 'a = int] by simp
  obtain u where "poll_slot_once p (next_slot_of src) t = Inr u"
    and u: "uint (cur_slot u) = max (uint (cur_slot t)) (uint n + 4 * sint (leader_offset t))"
    using tracker_follows_source [OF n, of t p] assms(2) lt by auto
  then have "0 < uint (cur_slot t')" using assms(2,3) pos by simp
  then show ?thesis by auto
qed

end

section \<open>Facts about the leader poller\<close>

text \<open>The contact that a reply starting at slot \<open>next_slot + i\<close> gives for a slot.\<close>

definition leader_of ::
  "(string \<Rightarrow> contact_info option) \<Rightarrow> u64 \<Rightarrow> nat \<Rightarrow> pubkey list \<Rightarrow> u64 \<Rightarrow> contact_info option" where
  "leader_of nodes next_slot i leaders s =
     (if unat next_slot + i \<le> unat s \<and> unat s < unat next_slot + i + length leaders
      then nodes (pubkey_text (leaders ! (unat s - unat next_slot - i))) else None)"

lemma leader_of_Nil [simp]: "leader_of nodes next_slot i [] = Map.empty"
  by (auto simp: leader_of_def fun_eq_iff)

lemma leader_of_Cons:
  assumes "unat slot = unat next_slot + i"
  shows "leader_of nodes next_slot i (l # ls) =
    (leader_of nodes next_slot (Suc i) ls)(slot := nodes (pubkey_text l))"
proof
  fix s
  have "s = slot \<longleftrightarrow> unat s = unat next_slot + i" using assms by (auto simp: word_unat_eq_iff)
  moreover have "unat s - unat next_slot - i = Suc (unat s - unat next_slot - Suc i)"
    if "unat next_slot + Suc i \<le> unat s" using that by arith
  ultimately show "leader_of nodes next_slot i (l # ls) s =
      ((leader_of nodes next_slot (Suc i) ls)(slot := nodes (pubkey_text l))) s"
    by (auto simp: leader_of_def)
qed

lemma insert_leaders_get:
  assumes "dm_ok m" and "unat next_slot + i + length leaders \<le> 2 ^ 64"
  shows "\<exists>m'. insert_leaders p nodes next_slot i leaders m = Inr m' \<and> dm_ok m' \<and>
    dm_get m' = dm_get m ++ leader_of nodes next_slot i leaders"
  using assms
proof (induction leaders arbitrary: i m)
  case Nil
  then show ?case by simp
next
  case (Cons l ls)
  define slot where "slot = next_slot + of_nat i"
  have i: "unat next_slot + i < 2 ^ 64" using Cons.prems(2) by simp
  then have ui: "unat (of_nat i :: u64) = i"
    by (simp add: unsigned_of_nat take_bit_nat_eq_self)
  have slot: "unat slot = unat next_slot + i"
    using i ui unat_add_exact [of next_slot "of_nat i"] by (simp add: slot_def)
  have add: "add_w p next_slot (of_nat i) = Inr slot"
    using i ui by (simp add: slot_def add_w_exact)
  define m1 where "m1 = (case nodes (pubkey_text l) of Some ci \<Rightarrow> dm_insert slot ci m | None \<Rightarrow> m)"
  have ok1: "dm_ok m1" using Cons.prems(1) by (simp add: m1_def dash_simps split: option.split)
  have eq: "insert_leaders p nodes next_slot i (l # ls) m = insert_leaders p nodes next_slot (Suc i) ls m1"
    by (simp add: m1_def add split: option.split)
  have "unat next_slot + Suc i + length ls \<le> 2 ^ 64" using Cons.prems(2) by simp
  then obtain m' where m': "insert_leaders p nodes next_slot (Suc i) ls m1 = Inr m'" "dm_ok m'"
    and get: "dm_get m' = dm_get m1 ++ leader_of nodes next_slot (Suc i) ls"
    using Cons.IH [OF ok1] by blast
  have "leader_of nodes next_slot (Suc i) ls slot = None"
    using slot by (simp add: leader_of_def)
  then have "dm_get m1 ++ leader_of nodes next_slot (Suc i) ls
      = dm_get m ++ leader_of nodes next_slot i (l # ls)"
    using Cons.prems(1)
    by (auto simp: m1_def leader_of_Cons [OF slot] dash_simps map_add_def fun_eq_iff
        split: option.splits)
  with m' get eq show ?case by simp
qed

lemma clean_up_get:
  assumes "dm_ok (cur_leaders t)"
  shows "dm_get (cur_leaders (clean_up_slot_leaders t)) s =
           (if s < cur_slot t then None else dm_get (cur_leaders t) s)"
proof -
  have "s \<in> set (slots_to_remove t) \<or> dm_get (cur_leaders t) s = None" if "s < cur_slot t"
    using that by (auto simp: slots_to_remove_def dm_get_def map_of_eq_None_iff)
  moreover have "s \<notin> set (slots_to_remove t)" if "\<not> s < cur_slot t"
    using that by (simp add: slots_to_remove_def)
  ultimately show ?thesis
    using dm.lookup_fold_remove [OF assms] by (auto simp: clean_up_slot_leaders_def)
qed

lemma clean_up_ok: "dm_ok (cur_leaders t) \<Longrightarrow> dm_ok (cur_leaders (clean_up_slot_leaders t))"
  by (simp add: clean_up_slot_leaders_def dm.wf_fold_remove)

lemma poll_slot_leaders_once_Ok:
  assumes "get_slot_leaders (cur_slot t) 1000 = Inr slot_leaders" and "get_cluster_nodes = Inr nodes"
    and "dm_ok (cur_leaders t)" and "unat (cur_slot t) + length slot_leaders \<le> 2 ^ 64"
  obtains t' where "poll_slot_leaders_once p get_slot_leaders get_cluster_nodes t = Inr (Inr (), t')"
    and "cur_slot t' = cur_slot t" and "dm_ok (cur_leaders t')"
    and "\<And>s. dm_get (cur_leaders t') s =
      (if s < cur_slot t then None
       else (dm_get (cur_leaders t) ++
             leader_of (cluster_node_map nodes) (cur_slot t) 0 slot_leaders) s)"
proof -
  have "unat (cur_slot t) + 0 + length slot_leaders \<le> 2 ^ 64" using assms(4) by simp
  then obtain m where m: "insert_leaders p (cluster_node_map nodes) (cur_slot t) 0 slot_leaders
      (cur_leaders t) = Inr m" "dm_ok m"
    and get: "dm_get m = dm_get (cur_leaders t) ++
      leader_of (cluster_node_map nodes) (cur_slot t) 0 slot_leaders"
    using insert_leaders_get [OF assms(3)] by blast
  show thesis
  proof (rule that [of "clean_up_slot_leaders (t\<lparr>cur_leaders := m\<rparr>)"])
    show "poll_slot_leaders_once p get_slot_leaders get_cluster_nodes t =
        Inr (Inr (), clean_up_slot_leaders (t\<lparr>cur_leaders := m\<rparr>))"
      using assms(1,2) m(1) by (simp add: poll_slot_leaders_once_def)
  qed (use m(2) get in \<open>simp_all add: clean_up_ok clean_up_get, simp add: clean_up_slot_leaders_def\<close>)
qed

section \<open>Facts about reading the leaders\<close>

lemma slot_range_unit:
  assumes "unat a + n < 2 ^ 64"
  shows "slot_range a (a + of_nat n) = map (\<lambda>i. a + of_nat i) [0..<n]"
proof (cases "n = 0")
  case False
  have n: "unat (of_nat n :: u64) = n" using assms by (simp add: unsigned_of_nat take_bit_nat_eq_self)
  then have "unat (a + of_nat n) = unat a + n" using assms unat_add_exact [of a "of_nat n"] by simp
  then have "a < a + of_nat n" using False by (simp add: word_less_nat_alt)
  then show ?thesis using n by (simp add: slot_range_def)
qed (simp add: slot_range_def)

lemma leaders_loop_keys:
  "length acc < n \<Longrightarrow> map fst (leaders_loop look n slots acc) =
     take n (dedup_from (map fst acc) (map contact_pubkey (List.map_filter look slots)))"
proof (induction slots arbitrary: acc)
  case Nil
  then show ?case by (simp add: map_filter_simps)
next
  case (Cons s slots)
  show ?case
  proof (cases "look s")
    case None
    with Cons show ?thesis by (simp add: map_filter_simps)
  next
    case (Some l)
    define acc' where "acc' = im_insert (contact_pubkey l) l acc"
    have keys: "map fst acc' = (if contact_pubkey l \<in> set (map fst acc) then map fst acc
        else map fst acc @ [contact_pubkey l])"
      unfolding acc'_def by (rule im_insert_keys)
    have len: "length acc' \<le> n"
      using Cons.prems im_insert_length_ge [of "contact_pubkey l" l acc] by (simp add: acc'_def)
    have rhs: "dedup_from (map fst acc) (map contact_pubkey (List.map_filter look (s # slots)))
        = dedup_from (map fst acc') (map contact_pubkey (List.map_filter look slots))"
      using Some by (simp add: map_filter_simps keys)
    show ?thesis
    proof (cases "n \<le> length acc'")
      case True
      then have "leaders_loop look n (s # slots) acc = acc'" using Some by (simp add: acc'_def)
      moreover have "take n (dedup_from (map fst acc') (map contact_pubkey (List.map_filter look slots)))
          = map fst acc'"
        using True len by (subst take_dedup_from) auto
      ultimately show ?thesis using rhs by simp
    next
      case False
      then have "leaders_loop look n (s # slots) acc = leaders_loop look n slots acc'"
        using Some by (simp add: acc'_def)
      with False Cons.IH [of acc'] rhs show ?thesis by simp
    qed
  qed
qed

text \<open>Every entry is keyed by its own public key and comes from one of the slots.\<close>

lemma leaders_loop_entries:
  assumes "\<forall>(k, l) \<in> set acc. contact_pubkey l = k \<and> l \<in> L"
    and "\<forall>s \<in> set slots. \<forall>l. look s = Some l \<longrightarrow> l \<in> L"
  shows "\<forall>(k, l) \<in> set (leaders_loop look n slots acc). contact_pubkey l = k \<and> l \<in> L"
  using assms
proof (induction slots arbitrary: acc)
  case (Cons s slots)
  define acc' where "acc' = (case look s of Some l \<Rightarrow> im_insert (contact_pubkey l) l acc | None \<Rightarrow> acc)"
  have "\<forall>(k, l) \<in> set acc'. contact_pubkey l = k \<and> l \<in> L"
    using Cons.prems im_insert_set
    by (fastforce simp: acc'_def split: option.splits)
  with Cons show ?case by (auto simp: acc'_def [symmetric] Let_def)
qed simp

lemma leaders_loop_map:
  assumes "\<forall>(k, l) \<in> set (leaders_loop look n slots []). contact_pubkey l = k \<and> l \<in> L"
  shows "map contact_pubkey (map snd (leaders_loop look n slots [])) = map fst (leaders_loop look n slots [])"
  using assms by auto

lemma get_leaders_shape:
  assumes "get_leaders p t = Inr ls"
  shows "distinct (map contact_pubkey ls)" and "length ls \<le> unat (num_leaders t)"
    and "\<forall>l \<in> set ls. \<exists>s. dm_get (cur_leaders t) s = Some l"
proof -
  obtain e where ls: "ls = map snd (leaders_loop (dm_get (cur_leaders t)) (unat (num_leaders t))
      (slot_range (cur_slot t) e) [])" (is "_ = map snd ?loop")
    and e: "num_leaders t = 0 \<longrightarrow> e = cur_slot t"
    using assms by (auto simp: get_leaders_def and_then_eq_Inr mul_w_def add_w_def split: if_splits)
  let ?L = "{l. \<exists>s. dm_get (cur_leaders t) s = Some l}"
  have entries: "\<forall>(k, l) \<in> set ?loop. contact_pubkey l = k \<and> l \<in> ?L"
    by (rule leaders_loop_entries) auto
  then have keys: "map contact_pubkey ls = map fst ?loop"
    unfolding ls by (rule leaders_loop_map)
  show "\<forall>l \<in> set ls. \<exists>s. dm_get (cur_leaders t) s = Some l"
    using entries ls by auto
  have *: "distinct (map fst ?loop) \<and> length ?loop \<le> unat (num_leaders t)"
  proof (cases "num_leaders t = 0")
    case True
    with e show ?thesis by (simp add: slot_range_def)
  next
    case False
    then have "0 < unat (num_leaders t)" by (simp add: unat_gt_0)
    then have k: "map fst ?loop = take (unat (num_leaders t)) (dedup_from []
        (map contact_pubkey (List.map_filter (dm_get (cur_leaders t)) (slot_range (cur_slot t) e))))"
      using leaders_loop_keys [of "[]"] by simp
    have "length (map fst ?loop) \<le> unat (num_leaders t)" by (subst k) simp
    moreover have "distinct (map fst ?loop)" by (subst k) (simp add: distinct_dedup_from)
    ultimately show ?thesis by simp
  qed
  show "distinct (map contact_pubkey ls)" using * keys by simp
  show "length ls \<le> unat (num_leaders t)" using * ls by simp
qed

section \<open>The contract of the trait\<close>

locale leader_source =
  fixes leaders_of :: "'s \<Rightarrow> panic + contact_info list"
    and bound :: "'s \<Rightarrow> nat"
  assumes leaders_distinct: "leaders_of s = Inr ls \<Longrightarrow> distinct (map contact_pubkey ls)"
    and leaders_bound: "leaders_of s = Inr ls \<Longrightarrow> length ls \<le> bound s"
begin

lemma filter_bound:
  "leaders_of s = Inr ls \<Longrightarrow> length (filter P ls) \<le> bound s \<and> distinct (map contact_pubkey (filter P ls))"
  by (meson distinct_map_filter le_trans leaders_bound leaders_distinct length_filter_le)

end

interpretation lt: leader_source "get_leaders p" "\<lambda>t. unat (num_leaders t)" for p
  by unfold_locales (auto dest: get_leaders_shape)

section \<open>The two pollers side by side\<close>

text \<open>
  \<open>poll_slot\<close> and \<open>poll_slot_leaders\<close> run as separate tasks, and \<open>get_leaders\<close> is called by others
  at any time. One step is one access to the shared state: an update of the slot, one insertion, the
  scan of \<open>clean_up_slot_leaders\<close> (which reads the slot a second time) or one removal. The slot the
  insertions count from was read when the round began and may be old by the time they happen.
\<close>

datatype poller =
    Poll_sleeping
  | Inserting u64 nat "pubkey list" "string \<Rightarrow> contact_info option"
  | Removing "u64 list"

record tracker_tasks =
  tracker :: leader_tracker
  poller :: poller

inductive tracker_step :: "profile \<Rightarrow> tracker_tasks \<Rightarrow> tracker_tasks \<Rightarrow> bool" for p where
  slot: "poll_slot_once p s (tracker c) = Inr t \<Longrightarrow> tracker_step p c (c\<lparr>tracker := t\<rparr>)"
| fetch: "poller c = Poll_sleeping \<Longrightarrow>
    tracker_step p c (c\<lparr>poller := Inserting (cur_slot (tracker c)) 0 leaders (cluster_node_map nodes)\<rparr>)"
| insert_known: "poller c = Inserting next_slot i (l # ls) nodes \<Longrightarrow> nodes (pubkey_text l) = Some ci \<Longrightarrow>
    add_w p next_slot (of_nat i) = Inr s \<Longrightarrow>
    tracker_step p c (c\<lparr>tracker := (tracker c)\<lparr>cur_leaders := dm_insert s ci (cur_leaders (tracker c))\<rparr>,
      poller := Inserting next_slot (Suc i) ls nodes\<rparr>)"
| insert_unknown: "poller c = Inserting next_slot i (l # ls) nodes \<Longrightarrow> nodes (pubkey_text l) = None \<Longrightarrow>
    tracker_step p c (c\<lparr>poller := Inserting next_slot (Suc i) ls nodes\<rparr>)"
| scan: "poller c = Inserting next_slot i [] nodes \<Longrightarrow>
    tracker_step p c (c\<lparr>poller := Removing (slots_to_remove (tracker c))\<rparr>)"
| remove: "poller c = Removing (s # ss) \<Longrightarrow>
    tracker_step p c (c\<lparr>tracker := (tracker c)\<lparr>cur_leaders := dm_remove s (cur_leaders (tracker c))\<rparr>,
      poller := Removing ss\<rparr>)"
| rest: "poller c = Removing [] \<Longrightarrow> tracker_step p c (c\<lparr>poller := Poll_sleeping\<rparr>)"

inductive_cases tracker_stepE: "tracker_step p c c'"

inductive tracker_reach :: "profile \<Rightarrow> leader_tracker \<Rightarrow> tracker_tasks \<Rightarrow> bool" for p t0 where
  start: "tracker_reach p t0 \<lparr>tracker = t0, poller = Poll_sleeping\<rparr>"
| step: "tracker_reach p t0 c \<Longrightarrow> tracker_step p c c' \<Longrightarrow> tracker_reach p t0 c'"

text \<open>
  The clean-up only holds slots that the tracker has already passed, however far the slot has moved
  since the scan.
\<close>

definition tasks_inv :: "tracker_tasks \<Rightarrow> bool" where
  "tasks_inv c \<longleftrightarrow> dm_ok (cur_leaders (tracker c)) \<and>
     (case poller c of Removing ss \<Rightarrow> \<forall>s \<in> set ss. s < cur_slot (tracker c) | _ \<Rightarrow> True)"

lemma tracker_step_inv:
  assumes "tracker_step p c c'" and "tasks_inv c"
  shows "tasks_inv c'"
  using assms
proof (cases rule: tracker_step.cases)
  case (slot s t)
  have le: "cur_slot (tracker c) \<le> cur_slot t" by (rule poll_slot_once_frame(1) [OF slot(2)])
  have leaders: "cur_leaders t = cur_leaders (tracker c)"
    using arg_cong [OF poll_slot_once_frame(2) [OF slot(2)], of cur_leaders] by simp
  show ?thesis
    using assms(2) slot(1) le leaders
    by (auto simp: tasks_inv_def split: poller.splits dest: order.strict_trans2)
qed (auto simp: tasks_inv_def dash_wf slots_to_remove_def)

lemma tracker_step_slot: "tracker_step p c c' \<Longrightarrow> cur_slot (tracker c) \<le> cur_slot (tracker c')"
  by (auto elim!: tracker_stepE dest: poll_slot_once_frame(1))

lemma tracker_reach_inv: "tracker_reach p t0 c \<Longrightarrow> dm_ok (cur_leaders t0) \<Longrightarrow> tasks_inv c"
  by (induction rule: tracker_reach.induct) (auto simp: tasks_inv_def dest: tracker_step_inv)

lemma tracker_step_keeps:
  assumes "tasks_inv c" and "tracker_step p c c'"
    and "dm_get (cur_leaders (tracker c)) s = Some l" and "cur_slot (tracker c') \<le> s"
  shows "\<exists>l'. dm_get (cur_leaders (tracker c')) s = Some l'"
  using assms(2)
proof (cases rule: tracker_step.cases)
  case (slot v t)
  then have "cur_leaders t = cur_leaders (tracker c)"
    using arg_cong [OF poll_slot_once_frame(2) [OF slot(2)], of cur_leaders] by simp
  with slot assms show ?thesis by simp
next
  case (remove s' ss)
  with assms have "s' < cur_slot (tracker c)" by (simp add: tasks_inv_def)
  with remove assms have "s \<noteq> s'" by auto
  with remove assms show ?thesis by (simp add: tasks_inv_def dash)
qed (use assms in \<open>auto simp: tasks_inv_def dash\<close>)

section \<open>Properties\<close>

text \<open>
  C17: \<open>get_leaders\<close> returns the public keys of the leaders of the slots
  \<open>[cur_slot, cur_slot + 4 * num_leaders)\<close> that are known, each once and in the order of their first
  slot, cut after \<open>num_leaders\<close> of them; this holds in both build profiles as long as the window does
  not leave the 64-bit range.
\<close>

theorem get_leaders_spec:
  assumes "4 * unat (num_leaders t) < 2 ^ 64"
    and "unat (cur_slot t) + 4 * unat (num_leaders t) < 2 ^ 64"
  shows "\<exists>ls. get_leaders p t = Inr ls \<and>
    map contact_pubkey ls = take (unat (num_leaders t)) (dedup_from []
      (map contact_pubkey (List.map_filter (\<lambda>i. dm_get (cur_leaders t) (cur_slot t + of_nat i))
         [0..<4 * unat (num_leaders t)])))"
proof -
  define n where "n = unat (num_leaders t)"
  define w :: u64 where "w = of_nat (4 * n)"
  have w: "unat w = 4 * n"
    using assms(1) unfolding w_def n_def by (simp only: unsigned_of_nat) (simp add: take_bit_nat_eq_self)
  have "num_leaders t * NUM_LEADERS_PER_SLOT = w"
    by (simp add: w_def n_def NUM_LEADERS_PER_SLOT_def)
  then have mul: "mul_w p (num_leaders t) NUM_LEADERS_PER_SLOT = Inr w"
    using assms(1) by (simp add: mul_w_exact NUM_LEADERS_PER_SLOT_def mult.commute)
  have add: "add_w p (cur_slot t) w = Inr (cur_slot t + w)"
    using assms(2) w by (intro add_w_exact) (simp add: n_def)
  let ?look = "dm_get (cur_leaders t)"
  let ?slots = "map (\<lambda>i. cur_slot t + of_nat i) [0..<4 * n]"
  have range: "slot_range (cur_slot t) (cur_slot t + w) = ?slots"
    using assms(2) unfolding w_def by (intro slot_range_unit) (simp add: n_def)
  define ls where "ls = map snd (leaders_loop ?look n ?slots [])"
  have got: "get_leaders p t = Inr ls"
    by (simp add: get_leaders_def mul add range ls_def n_def [symmetric])
  have "map contact_pubkey ls = map fst (leaders_loop ?look n ?slots [])"
    unfolding ls_def by (rule leaders_loop_map [of _ _ _ UNIV], rule leaders_loop_entries) auto
  also have "\<dots> = take n (dedup_from [] (map contact_pubkey (List.map_filter ?look ?slots)))"
    by (cases "n = 0") (simp_all add: leaders_loop_keys)
  also have "List.map_filter ?look ?slots =
      List.map_filter (\<lambda>i. dm_get (cur_leaders t) (cur_slot t + of_nat i)) [0..<4 * n]"
    by (simp add: map_filter_def comp_def filter_map)
  finally show ?thesis using got by (auto simp: n_def)
qed

definition demo_contact :: "string \<Rightarrow> contact_info" where
  "demo_contact k = \<lparr>contact_pubkey = k, tpu_quic = Some ''quic''\<rparr>"

definition demo_tracker :: leader_tracker where
  "demo_tracker = \<lparr>cur_slot = 10, cur_leaders = [(12, demo_contact ''B''), (10, demo_contact ''A''),
     (11, demo_contact ''A''), (13, demo_contact ''C'')], num_leaders = 2, leader_offset = -1\<rparr>"

theorem get_leaders_spec_witness:
  "\<exists>ls. get_leaders Dev demo_tracker = Inr ls \<and> map contact_pubkey ls = [''A'', ''B'']"
  using get_leaders_spec [of demo_tracker Dev]
  by (simp add: demo_tracker_def demo_contact_def dm_get_def upt_rec map_filter_simps)

text \<open>
  Whatever the state and the build profile, a list that \<open>get_leaders\<close> returns has at most
  \<open>num_leaders\<close> entries, no public key twice, and only contacts that the tracker holds for some slot.
\<close>

theorem get_leaders_sound:
  "get_leaders p t = Inr ls \<Longrightarrow>
     length ls \<le> unat (num_leaders t) \<and> distinct (map contact_pubkey ls) \<and>
     (\<forall>l \<in> set ls. \<exists>s. dm_get (cur_leaders t) s = Some l)"
  using lt.leaders_bound lt.leaders_distinct get_leaders_shape(3) by blast

theorem get_leaders_sound_witness:
  "length [demo_contact ''A''] \<le> 1 \<and> distinct (map contact_pubkey [demo_contact ''A''])"
proof -
  have "get_leaders Dev (demo_tracker\<lparr>num_leaders := 1\<rparr>) = Inr [demo_contact ''A'']"
    by (simp add: get_leaders_def demo_tracker_def NUM_LEADERS_PER_SLOT_def mul_w_def add_w_def
        slot_range_def upt_rec dm_get_def im_insert_def Let_def)
  from get_leaders_sound [OF this] show ?thesis by simp
qed

text \<open>
  The start slot is the observed slot plus four times the offset, in both build profiles,
  whenever that number fits in 64 bits.
\<close>

theorem get_start_slot_value:
  assumes "- (2 ^ 63) \<le> 4 * sint offset" and "4 * sint offset < 2 ^ 63"
    and "0 \<le> uint s + 4 * sint offset" and "uint s + 4 * sint offset < 2 ^ 64"
  shows "\<exists>r. get_start_slot p s offset = Inr r \<and> uint r = uint s + 4 * sint offset"
  using get_start_slot_exact [OF assms] by blast

theorem get_start_slot_value_witness:
  "\<exists>r. get_start_slot Dev 100 (- 2) = Inr r \<and> uint r = 92"
  using get_start_slot_value [of "- 2" 100 Dev] by simp

lemma get_leaders_past:
  assumes "2 ^ 63 \<le> uint (cur_slot t)"
    and "every_entry (dm_get (cur_leaders t)) (\<lambda>s l. uint s < 2 ^ 63)"
  shows "get_leaders Release t = Inr []"
proof -
  have loop: "leaders_loop look n slots [] = []" if "\<forall>s \<in> set slots. look s = None" for look n slots
    using that by (induction slots) auto
  have "dm_get (cur_leaders t) s = None" if "s \<in> set (slot_range (cur_slot t) e)" for s e
  proof -
    from that obtain i where lt: "cur_slot t < e" and i: "i < unat (e - cur_slot t)"
      and s: "s = cur_slot t + of_nat i"
      by (auto simp: slot_range_def split: if_splits)
    have "unat (e - cur_slot t) = unat e - unat (cur_slot t)"
      using lt by (intro unat_sub_exact) (simp add: word_less_nat_alt)
    with i have lt64: "unat (cur_slot t) + i < 2 ^ 64"
      using unsigned_less [of e, where 'a = nat] by simp
    then have "unat (of_nat i :: u64) = i" by (simp add: unsigned_of_nat take_bit_nat_eq_self)
    with lt64 s have "unat s = unat (cur_slot t) + i"
      using unat_add_exact [of "cur_slot t" "of_nat i"] by simp
    then have "int (unat (cur_slot t)) \<le> int (unat s)" by simp
    with assms(1) have "2 ^ 63 \<le> uint s" by simp
    with assms(2) show ?thesis by (auto simp: every_entry_def)
  qed
  then show ?thesis by (simp add: get_leaders_def loop)
qed

text \<open>
  C34: With a backward offset, one observed slot smaller than the shift is fatal. The checked build
  panics in the poller. The release build wraps: the slot jumps near \<open>2 ^ 64\<close>, no later observation
  lowers it (the poller only ever raises it), and from then on \<open>get_leaders\<close> returns no leader,
  whatever leaders of slots below \<open>2 ^ 63\<close> are stored.
\<close>

theorem underflow_silences_tracker:
  assumes "- (2 ^ 60) \<le> sint (leader_offset t)" and "uint s + 4 * sint (leader_offset t) < 0"
    and "every_entry (dm_get m) (\<lambda>s l. uint s < 2 ^ 63)"
  shows "poll_slot Dev t (Some s # ss) = Inl Arith_overflow \<and>
    (\<exists>t'. poll_slot Release t (Some s # ss) = Inr t' \<and> 2 ^ 63 \<le> uint (cur_slot t') \<and>
          get_leaders Release (t'\<lparr>cur_leaders := m\<rparr>) = Inr [])"
proof
  have lo: "- (2 ^ 63) \<le> 4 * sint (leader_offset t)" using assms(1) by simp
  note under = get_start_slot_underflow [OF lo assms(2)]
  show "poll_slot Dev t (Some s # ss) = Inl Arith_overflow"
    by (simp add: poll_slot_once_def under(1))
  have "uint (start_slot (leader_offset t) s) = 2 ^ 64 + uint s + 4 * sint (leader_offset t)"
    using under(2) by (auto simp: start_slot_def)
  moreover have pow: "(2::int) ^ 64 = 18446744073709551616" "(2::int) ^ 63 = 9223372036854775808"
    "(2::int) ^ 60 = 1152921504606846976" by simp_all
  ultimately have high: "2 ^ 63 \<le> uint (start_slot (leader_offset t) s)"
    using assms(1) pow uint_ge_0 [of s] by linarith
  define t1 where "t1 = t\<lparr>cur_slot := max (cur_slot t) (start_slot (leader_offset t) s)\<rparr>"
  obtain t' where t': "poll_slot Release t1 ss = Inr t'" by (simp add: poll_slot_Release)
  have "start_slot (leader_offset t) s \<le> cur_slot t1" by (simp add: t1_def)
  also have "cur_slot t1 \<le> cur_slot t'" by (rule poll_slot_mono [OF t'])
  finally have big: "2 ^ 63 \<le> uint (cur_slot t')" using high by (simp add: word_le_def)
  moreover have "poll_slot Release t (Some s # ss) = Inr t'"
    using t' by (simp add: poll_slot_once_Release t1_def)
  moreover have "get_leaders Release (t'\<lparr>cur_leaders := m\<rparr>) = Inr []"
    by (rule get_leaders_past) (use big assms(3) in simp_all)
  ultimately show "\<exists>t'. poll_slot Release t (Some s # ss) = Inr t' \<and> 2 ^ 63 \<le> uint (cur_slot t') \<and>
          get_leaders Release (t'\<lparr>cur_leaders := m\<rparr>) = Inr []"
    by blast
qed

theorem underflow_silences_tracker_witness:
  "poll_slot Dev demo_tracker [Some 3, Some 500] = Inl Arith_overflow \<and>
   (\<exists>t'. poll_slot Release demo_tracker [Some 3, Some 500] = Inr t' \<and> 2 ^ 63 \<le> uint (cur_slot t') \<and>
         get_leaders Release (t'\<lparr>cur_leaders := [(496, demo_contact ''A'')]\<rparr>) = Inr [])"
proof -
  have off: "sint (leader_offset demo_tracker) = - 1" by (simp add: demo_tracker_def)
  show ?thesis
    by (rule underflow_silences_tracker) (simp_all add: off every_entry_def dm_get_def)
qed

text \<open>
  C33: A successful round of the leader poller leaves exactly this: below the current slot nothing; at
  the \<open>i\<close>-th slot of the reply the contact of that leader if the cluster knows it; everywhere else,
  and for an unknown leader, what was there before.
\<close>

theorem poll_slot_leaders_refresh:
  assumes "get_slot_leaders (cur_slot t) 1000 = Inr slot_leaders" and "get_cluster_nodes = Inr nodes"
    and "dm_ok (cur_leaders t)" and "unat (cur_slot t) + length slot_leaders \<le> 2 ^ 64"
  shows "\<exists>t'. poll_slot_leaders_once p get_slot_leaders get_cluster_nodes t = Inr (Inr (), t') \<and>
    cur_slot t' = cur_slot t \<and>
    (\<forall>s. dm_get (cur_leaders t') s =
      (if s < cur_slot t then None
       else (dm_get (cur_leaders t) ++
             leader_of (cluster_node_map nodes) (cur_slot t) 0 slot_leaders) s))"
  using poll_slot_leaders_once_Ok [where get_slot_leaders = get_slot_leaders, OF assms] by metis

theorem poll_slot_leaders_refresh_witness:
  "\<exists>t'. poll_slot_leaders_once Dev (\<lambda>_ _. Inr [Pubkey ''C'', Pubkey ''Z'']) (Inr [demo_contact ''C''])
          (demo_tracker\<lparr>cur_slot := 11\<rparr>) = Inr (Inr (), t') \<and>
     dm_get (cur_leaders t') 10 = None \<and> dm_get (cur_leaders t') 11 = Some (demo_contact ''C'') \<and>
     dm_get (cur_leaders t') 12 = Some (demo_contact ''B'')"
proof -
  let ?t = "demo_tracker\<lparr>cur_slot := 11\<rparr>"
  have "dm_ok (cur_leaders ?t)" by (simp add: demo_tracker_def dm_ok_def)
  moreover have "unat (cur_slot ?t) + length [Pubkey ''C'', Pubkey ''Z''] \<le> 2 ^ 64" by simp
  ultimately obtain t' where "poll_slot_leaders_once Dev (\<lambda>_ _. Inr [Pubkey ''C'', Pubkey ''Z''])
      (Inr [demo_contact ''C'']) ?t = Inr (Inr (), t')"
    and "\<forall>s. dm_get (cur_leaders t') s =
      (if s < cur_slot ?t then None
       else (dm_get (cur_leaders ?t) ++ leader_of (cluster_node_map [demo_contact ''C''])
              (cur_slot ?t) 0 [Pubkey ''C'', Pubkey ''Z'']) s)"
    using poll_slot_leaders_refresh [of "\<lambda>_ _. Inr [Pubkey ''C'', Pubkey ''Z'']" ?t
        "[Pubkey ''C'', Pubkey ''Z'']" "Inr [demo_contact ''C'']" "[demo_contact ''C'']" Dev]
    by blast
  then show ?thesis
    by (intro exI [of _ t'])
      (simp add: leader_of_def cluster_node_map_def demo_contact_def demo_tracker_def dm_get_def
        map_add_def)
qed

text \<open>
  C18: While the two pollers run side by side, the current slot never falls, and a step that leaves
  it at or below a slot never takes away that slot's leader: the clean-up only removes slots the
  tracker has passed, even though the slot moves on between its scan and its removals.
\<close>

theorem tracker_keeps_upcoming_leaders:
  assumes "tracker_reach p (new_tracker n off) c" and "tracker_step p c c'"
  shows "cur_slot (tracker c) \<le> cur_slot (tracker c') \<and>
    (dm_get (cur_leaders (tracker c)) s \<noteq> None \<and> cur_slot (tracker c') \<le> s \<longrightarrow>
       dm_get (cur_leaders (tracker c')) s \<noteq> None)"
proof -
  have "tasks_inv c" using assms(1) by (rule tracker_reach_inv) (simp add: new_tracker_def)
  then show ?thesis
    using tracker_step_slot [OF assms(2)] tracker_step_keeps [OF _ assms(2)] by fastforce
qed

theorem tracker_keeps_upcoming_leaders_witness:
  "tracker_step Dev \<lparr>tracker = new_tracker 2 0, poller = Poll_sleeping\<rparr>
     \<lparr>tracker = (new_tracker 2 0)\<lparr>cur_slot := 7\<rparr>, poller = Poll_sleeping\<rparr> \<and>
   cur_slot (new_tracker 2 0) \<le> 7"
proof -
  let ?c = "\<lparr>tracker = new_tracker 2 0, poller = Poll_sleeping\<rparr>"
  let ?t = "(new_tracker 2 0)\<lparr>cur_slot := 7\<rparr>"
  have "poll_slot_once Dev (Some 7) (tracker ?c) = Inr ?t"
    by (simp add: poll_slot_once_def get_start_slot_def new_tracker_def mul_i64_def sub_w_def
        unsigned_abs_def)
  from tracker_step.slot [OF this] have step: "tracker_step Dev ?c \<lparr>tracker = ?t, poller = Poll_sleeping\<rparr>"
    by simp
  with tracker_keeps_upcoming_leaders [OF tracker_reach.start step] show ?thesis by simp
qed

end
