(* ===== verification/Priority.thy ===== *)
theory Priority
  imports Transaction
begin

text \<open>
  \<open>compute_priority_details\<close> of \<open>infrastructure/txn_sender.rs\<close>: the fee, the priority and the
  compute-unit limit that the metrics of a tracked transaction report. The limit is set as a side
  effect of the closure that feeds the instructions to two library functions, so it depends on how
  many items those functions pull. The library is the record \<open>budget_lib\<close>: its constants, its
  instruction parser, and for each of the two consumers when it stops pulling, given what it has
  seen, and what it returns.
\<close>

datatype compute_budget_instruction = SetComputeUnitLimit u32 | Other_instruction

type_synonym seen_instructions = "(pubkey \<times> compiled_instruction) list"

record budget_lib =
  DEFAULT_INSTRUCTION_COMPUTE_UNIT_LIMIT :: u32
  MAX_COMPUTE_UNIT_LIMIT :: u32
  try_from_slice_unchecked :: "u8 list \<Rightarrow> compute_budget_instruction option"
  budget_stops :: "seen_instructions \<Rightarrow> bool"
  budget_result :: "seen_instructions \<Rightarrow> u64 option"
  limits_stops :: "seen_instructions \<Rightarrow> bool"
  limits_result :: "seen_instructions \<Rightarrow> u64 option"
  fee_details :: "u64 \<Rightarrow> u64 \<Rightarrow> u64 \<times> u64"

record priority_details =
  fee :: u64
  cu_limit :: u32
  priority :: u64

text \<open>The assignment to \<open>cu_limit\<close> in the closure, and the program id it looks up.\<close>

definition limit_after :: "budget_lib \<Rightarrow> u32 \<Rightarrow> compiled_instruction \<Rightarrow> u32" where
  "limit_after lib cu ix =
     (case try_from_slice_unchecked lib (ix_data ix) of
        Some (SetComputeUnitLimit compute_unit_limit) \<Rightarrow>
          min compute_unit_limit (MAX_COMPUTE_UNIT_LIMIT lib)
      | _ \<Rightarrow> cu)"

definition program_of :: "pubkey list \<Rightarrow> compiled_instruction \<Rightarrow> panic + pubkey" where
  "program_of keys ix =
     expect ''program id index is sanitized''
       (if unat (program_id_index ix) < length keys then Some (keys ! unat (program_id_index ix)) else None)"

fun pull_instructions ::
  "budget_lib \<Rightarrow> pubkey list \<Rightarrow> (seen_instructions \<Rightarrow> bool) \<Rightarrow> compiled_instruction list \<Rightarrow>
   seen_instructions \<Rightarrow> u32 \<Rightarrow> panic + (u32 \<times> seen_instructions)" where
  "pull_instructions lib keys stops [] seen cu = Inr (cu, seen)"
| "pull_instructions lib keys stops (ix # ixs) seen cu =
     (if stops seen then Inr (cu, seen)
      else and_then (program_of keys ix) (\<lambda>program.
             pull_instructions lib keys stops ixs (seen @ [(program, ix)]) (limit_after lib cu ix)))"

definition details_of ::
  "budget_lib \<Rightarrow> u32 \<Rightarrow> u64 option \<Rightarrow> u64 option \<Rightarrow> priority_details" where
  "details_of lib cu compute_budget compute_budget_limits =
     (case (compute_budget, compute_budget_limits) of
        (Some unit_limit, Some unit_price) \<Rightarrow>
          \<lparr>fee = fst (fee_details lib unit_price unit_limit), cu_limit = cu,
           priority = snd (fee_details lib unit_price unit_limit)\<rparr>
      | _ \<Rightarrow> \<lparr>fee = 0, cu_limit = cu, priority = 0\<rparr>)"

definition compute_priority_details ::
  "budget_lib \<Rightarrow> versioned_transaction \<Rightarrow> panic + priority_details" where
  "compute_priority_details lib t =
     and_then (pull_instructions lib (static_account_keys t) (budget_stops lib) (instructions t) []
                 (DEFAULT_INSTRUCTION_COMPUTE_UNIT_LIMIT lib)) (\<lambda>(cu1, seen1).
       and_then (pull_instructions lib (static_account_keys t) (limits_stops lib) (instructions t) []
                   cu1) (\<lambda>(cu2, seen2).
         Inr (details_of lib cu2 (budget_result lib seen1) (limits_result lib seen2))))"

section \<open>What the pulls do\<close>

lemma cu_limit_details_of [simp]: "cu_limit (details_of lib cu a b) = cu"
  by (auto simp: details_of_def split: option.split)

definition in_range :: "versioned_transaction \<Rightarrow> bool" where
  "in_range t \<longleftrightarrow>
     (\<forall>ix \<in> set (instructions t). unat (program_id_index ix) < length (static_account_keys t))"

lemma program_of_cases:
  "(unat (program_id_index ix) < length keys \<and> program_of keys ix = Inr (keys ! unat (program_id_index ix))) \<or>
   (length keys \<le> unat (program_id_index ix) \<and>
    program_of keys ix = Inl (Expect_failed ''program id index is sanitized''))"
  by (auto simp: program_of_def)

lemma pull_limit:
  "pull_instructions lib keys stops ixs seen cu = Inr (cu', seen') \<Longrightarrow>
     \<exists>n. cu' = fold (\<lambda>ix c. limit_after lib c ix) (take n ixs) cu"
proof (induction ixs arbitrary: seen cu)
  case (Cons ix ixs)
  show ?case
  proof (cases "stops seen")
    case True
    with Cons.prems have "cu' = fold (\<lambda>ix c. limit_after lib c ix) (take 0 (ix # ixs)) cu" by simp
    then show ?thesis ..
  next
    case False
    with Cons.prems obtain program where
      "pull_instructions lib keys stops ixs (seen @ [(program, ix)]) (limit_after lib cu ix) = Inr (cu', seen')"
      by (auto simp: and_then_eq_Inr)
    then obtain n where "cu' = fold (\<lambda>ix c. limit_after lib c ix) (take n ixs) (limit_after lib cu ix)"
      using Cons.IH by blast
    then have "cu' = fold (\<lambda>ix c. limit_after lib c ix) (take (Suc n) (ix # ixs)) cu" by simp
    then show ?thesis ..
  qed
qed simp

lemma limit_after_bound: "limit_after lib cu ix = cu \<or> limit_after lib cu ix \<le> MAX_COMPUTE_UNIT_LIMIT lib"
  by (auto simp: limit_after_def split: option.split compute_budget_instruction.split)

lemma fold_limit_bound:
  "fold (\<lambda>ix c. limit_after lib c ix) ixs cu = cu \<or>
   fold (\<lambda>ix c. limit_after lib c ix) ixs cu \<le> MAX_COMPUTE_UNIT_LIMIT lib"
proof (induction ixs arbitrary: cu)
  case (Cons ix ixs)
  then show ?case
    using limit_after_bound [of lib cu ix] by (metis fold_simps(2))
qed simp

text \<open>A consumer that never stops sees everything, or dies on the first program id out of range.\<close>

lemma pull_all:
  assumes "\<And>s. \<not> stops s"
  shows "pull_instructions lib keys stops ixs seen cu =
    (if \<forall>ix \<in> set ixs. unat (program_id_index ix) < length keys
     then Inr (fold (\<lambda>ix c. limit_after lib c ix) ixs cu,
               seen @ map (\<lambda>ix. (keys ! unat (program_id_index ix), ix)) ixs)
     else Inl (Expect_failed ''program id index is sanitized''))"
  using assms
  by (induction ixs arbitrary: seen cu) (auto simp: program_of_def)

text \<open>
  A consumer pulls instructions until it stops, judging by what it has seen: the pairs of program and
  instruction of those before. \<open>pulled\<close> is the number it would pull if all indices were in range.
\<close>

definition seen_of :: "pubkey list \<Rightarrow> compiled_instruction list \<Rightarrow> seen_instructions" where
  "seen_of keys ixs = map (\<lambda>ix. (keys ! unat (program_id_index ix), ix)) ixs"

definition pulled :: "(seen_instructions \<Rightarrow> bool) \<Rightarrow> pubkey list \<Rightarrow> compiled_instruction list \<Rightarrow> nat" where
  "pulled stops keys ixs = length (takeWhile (\<lambda>n. \<not> stops (seen_of keys (take n ixs))) [0..<length ixs])"

lemma pulled_le: "pulled stops keys ixs \<le> length ixs"
  using length_takeWhile_le [of _ "[0..<length ixs]"] by (simp add: pulled_def)

definition budget_pulls :: "budget_lib \<Rightarrow> versioned_transaction \<Rightarrow> nat" where
  "budget_pulls lib t = pulled (budget_stops lib) (static_account_keys t) (instructions t)"

definition limits_pulls :: "budget_lib \<Rightarrow> versioned_transaction \<Rightarrow> nat" where
  "limits_pulls lib t = pulled (limits_stops lib) (static_account_keys t) (instructions t)"

lemma pulled_shift:
  "pulled (\<lambda>s. stops (seen @ s)) keys (ix # ixs) =
     (if stops seen then 0
      else Suc (pulled (\<lambda>s. stops ((seen @ [(keys ! unat (program_id_index ix), ix)]) @ s)) keys ixs))"
proof -
  have "[0..<length (ix # ixs)] = 0 # map Suc [0..<length ixs]"
    by (simp add: upt_conv_Cons map_Suc_upt del: upt_Suc)
  then show ?thesis by (simp add: pulled_def seen_of_def takeWhile_map comp_def del: upt_Suc)
qed

lemma pull_instructions_eq:
  "pull_instructions lib keys stops ixs seen cu =
    (let n = pulled (\<lambda>s. stops (seen @ s)) keys ixs in
     if \<forall>ix \<in> set (take n ixs). unat (program_id_index ix) < length keys
     then Inr (fold (\<lambda>ix c. limit_after lib c ix) (take n ixs) cu, seen @ seen_of keys (take n ixs))
     else Inl (Expect_failed ''program id index is sanitized''))"
proof (induction ixs arbitrary: seen cu)
  case Nil
  then show ?case by (simp add: pulled_def seen_of_def)
next
  case (Cons ix ixs)
  show ?case
    using program_of_cases [of ix keys]
    by (auto simp: pulled_shift Cons.IH Let_def seen_of_def)
qed

lemma fold_limit_restart:
  "fold (\<lambda>ix c. limit_after lib c ix) ixs (fold (\<lambda>ix c. limit_after lib c ix) ixs cu)
     = fold (\<lambda>ix c. limit_after lib c ix) ixs cu"
proof -
  let ?f = "\<lambda>ix c. limit_after lib c ix"
  have "fold ?f ixs cu = cu \<or> (\<forall>c. fold ?f ixs c = fold ?f ixs cu)"
  proof (induction ixs arbitrary: cu)
    case (Cons ix ixs)
    show ?case
    proof (cases "\<exists>l. try_from_slice_unchecked lib (ix_data ix) = Some (SetComputeUnitLimit l)")
      case True
      then have "limit_after lib c ix = limit_after lib cu ix" for c by (auto simp: limit_after_def)
      then show ?thesis by (metis fold_simps(2))
    next
      case False
      then have "limit_after lib c ix = c" for c
        by (auto simp: limit_after_def split: option.split compute_budget_instruction.split)
      with Cons.IH [of cu] show ?thesis by simp
    qed
  qed simp
  then show ?thesis by metis
qed

lemma compute_priority_details_total:
  assumes "\<And>s. \<not> budget_stops lib s" and "\<And>s. \<not> limits_stops lib s"
  shows "map_sum id cu_limit (compute_priority_details lib t) =
    (if in_range t
     then Inr (fold (\<lambda>ix c. limit_after lib c ix) (instructions t)
            (DEFAULT_INSTRUCTION_COMPUTE_UNIT_LIMIT lib))
     else Inl (Expect_failed ''program id index is sanitized''))"
  by (auto simp: compute_priority_details_def pull_all [OF assms(1)] pull_all [OF assms(2)]
      in_range_def fold_limit_restart)

section \<open>Properties\<close>

definition demo_lib :: budget_lib where
  "demo_lib =
     \<lparr>DEFAULT_INSTRUCTION_COMPUTE_UNIT_LIMIT = 200000, MAX_COMPUTE_UNIT_LIMIT = 1400000,
      try_from_slice_unchecked = (\<lambda>d. case d of [] \<Rightarrow> None
        | k # r \<Rightarrow> if k = 2 then Some (SetComputeUnitLimit (case r of [] \<Rightarrow> 0 | b # _ \<Rightarrow> ucast b))
                   else Some Other_instruction),
      budget_stops = (\<lambda>_. False), budget_result = (\<lambda>s. Some 300000),
      limits_stops = (\<lambda>_. False), limits_result = (\<lambda>s. Some 7),
      fee_details = (\<lambda>price lim. (price * lim, price))\<rparr>"

definition demo_txn :: "u8 \<Rightarrow> versioned_transaction" where
  "demo_txn program =
     \<lparr>signatures = [Signature ''sig''], recent_blockhash = Hash ''bh'',
      static_account_keys = [Pubkey ''payer'', Pubkey ''ComputeBudget'', Pubkey ''Other''],
      instructions = [\<lparr>program_id_index = program, ix_data = [2, 90]\<rparr>]\<rparr>"

text \<open>
  Whatever the two library functions pull, the reported compute-unit limit is the default or is
  at most the maximum.
\<close>

theorem cu_limit_bounded:
  "compute_priority_details lib t = Inr d \<Longrightarrow>
     cu_limit d = DEFAULT_INSTRUCTION_COMPUTE_UNIT_LIMIT lib \<or> cu_limit d \<le> MAX_COMPUTE_UNIT_LIMIT lib"
proof -
  assume "compute_priority_details lib t = Inr d"
  then obtain cu1 seen1 seen2
    where "pull_instructions lib (static_account_keys t) (budget_stops lib) (instructions t) []
          (DEFAULT_INSTRUCTION_COMPUTE_UNIT_LIMIT lib) = Inr (cu1, seen1)"
      and "pull_instructions lib (static_account_keys t) (limits_stops lib) (instructions t) [] cu1
          = Inr (cu_limit d, seen2)"
    by (auto simp: compute_priority_details_def and_then_eq_Inr)
  then obtain m n
    where "cu1 = fold (\<lambda>ix c. limit_after lib c ix) (take m (instructions t))
          (DEFAULT_INSTRUCTION_COMPUTE_UNIT_LIMIT lib)"
      and "cu_limit d = fold (\<lambda>ix c. limit_after lib c ix) (take n (instructions t)) cu1"
    by (metis pull_limit)
  then show ?thesis by (metis fold_limit_bound)
qed

theorem cu_limit_bounded_witness:
  "\<exists>d. compute_priority_details demo_lib (demo_txn 1) = Inr d \<and> cu_limit d = 90 \<and> fee d = 2100000 \<and>
     (cu_limit d = 200000 \<or> cu_limit d \<le> 1400000)"
proof -
  let ?d = "\<lparr>fee = 2100000, cu_limit = 90, priority = 7\<rparr>"
  have "compute_priority_details demo_lib (demo_txn 1) = Inr ?d"
    by (simp add: compute_priority_details_def details_of_def demo_lib_def demo_txn_def program_of_def limit_after_def)
  with cu_limit_bounded [OF this] show ?thesis by (simp add: demo_lib_def)
qed

text \<open>
  C37: Whatever the library does, the computation panics exactly if one of its two functions pulls an
  instruction whose program index is outside the static account keys (nothing sanitizes a decoded
  transaction): an instruction after the point where both have stopped early does no harm. Otherwise
  the reported limit is that of the last instruction pulled, by the first function and then by the
  second, whose data parse as a limit, or the default.
\<close>

theorem compute_priority_panics_iff:
  "(compute_priority_details lib t = Inl e \<longleftrightarrow>
      (\<exists>i < max (budget_pulls lib t) (limits_pulls lib t).
         length (static_account_keys t) \<le> unat (program_id_index (instructions t ! i))) \<and>
      e = Expect_failed ''program id index is sanitized'') \<and>
    (\<forall>d. compute_priority_details lib t = Inr d \<longrightarrow>
       cu_limit d = fold (\<lambda>ix c. limit_after lib c ix)
         (take (budget_pulls lib t) (instructions t) @ take (limits_pulls lib t) (instructions t))
         (DEFAULT_INSTRUCTION_COMPUTE_UNIT_LIMIT lib))"
proof -
  let ?bad = "\<lambda>n. \<exists>ix \<in> set (take n (instructions t)). length (static_account_keys t) \<le> unat (program_id_index ix)"
  let ?n1 = "budget_pulls lib t" and ?n2 = "limits_pulls lib t"
  have le: "?n1 \<le> length (instructions t)" "?n2 \<le> length (instructions t)"
    by (simp_all add: budget_pulls_def limits_pulls_def pulled_le)
  have bad: "?bad n \<longleftrightarrow> (\<exists>i < n. length (static_account_keys t) \<le> unat (program_id_index (instructions t ! i)))"
    if "n \<le> length (instructions t)" for n
    using that by (simp add: nth_image [symmetric] Bex_def)
  have "?bad ?n1 \<or> ?bad ?n2 \<longleftrightarrow>
      (\<exists>i < max ?n1 ?n2. length (static_account_keys t) \<le> unat (program_id_index (instructions t ! i)))"
    unfolding bad [OF le(1)] bad [OF le(2)] by (auto simp: less_max_iff_disj)
  then show ?thesis
    unfolding compute_priority_details_def pull_instructions_eq
    by (auto simp: Let_def and_then_eq_Inl and_then_eq_Inr not_less simp flip: budget_pulls_def limits_pulls_def split: if_splits)
qed

text \<open>A library whose first function stops for good after one instruction and whose second does so at once.\<close>

definition early_lib :: budget_lib where
  "early_lib = demo_lib\<lparr>budget_stops := \<lambda>s. s \<noteq> [], limits_stops := \<lambda>s. True\<rparr>"

theorem compute_priority_panics_iff_witness:
  "compute_priority_details demo_lib (demo_txn 3) = Inl (Expect_failed ''program id index is sanitized'') \<and>
   (\<exists>d. compute_priority_details early_lib ((demo_txn 1)\<lparr>instructions :=
      instructions (demo_txn 1) @ instructions (demo_txn 3)\<rparr>) = Inr d \<and> cu_limit d = 90)"
proof
  show "compute_priority_details demo_lib (demo_txn 3) = Inl (Expect_failed ''program id index is sanitized'')"
    using compute_priority_panics_iff [of demo_lib "demo_txn 3"]
    by (simp add: budget_pulls_def limits_pulls_def pulled_def demo_lib_def demo_txn_def)
  let ?t = "(demo_txn 1)\<lparr>instructions := instructions (demo_txn 1) @ instructions (demo_txn 3)\<rparr>"
  have "budget_pulls early_lib ?t = 1" "limits_pulls early_lib ?t = 0"
    by (simp_all add: budget_pulls_def limits_pulls_def pulled_def early_lib_def seen_of_def demo_txn_def upt_rec)
  with compute_priority_panics_iff [of early_lib ?t]
  show "\<exists>d. compute_priority_details early_lib ?t = Inr d \<and> cu_limit d = 90"
    by (cases "compute_priority_details early_lib ?t")
      (simp_all add: demo_txn_def early_lib_def demo_lib_def limit_after_def)
qed

text \<open>
  The limit is read from the data of every instruction, whichever program it belongs to: two
  transactions whose instructions carry the same data report the same limit, so an instruction of
  any other program whose data happen to parse as a limit sets it.
\<close>

theorem cu_limit_ignores_program:
  assumes "\<forall>s. \<not> budget_stops lib s" and "\<forall>s. \<not> limits_stops lib s"
    and "in_range t" and "in_range u" and "map ix_data (instructions t) = map ix_data (instructions u)"
  shows "map_sum id cu_limit (compute_priority_details lib t) =
         map_sum id cu_limit (compute_priority_details lib u)"
proof -
  have limit: "limit_after lib c ix = limit_after lib c (\<lparr>program_id_index = 0, ix_data = ix_data ix\<rparr>)" for c ix
    by (simp add: limit_after_def)
  have data: "fold (\<lambda>ix c. limit_after lib c ix) ixs c =
      fold (\<lambda>d c. limit_after lib c (\<lparr>program_id_index = 0, ix_data = d\<rparr>)) (map ix_data ixs) c" for ixs c
    by (induction ixs arbitrary: c) (simp_all add: limit [symmetric])
  show ?thesis
    using assms(1-4) data [of "instructions t"] data [of "instructions u"] assms(5)
    by (simp add: compute_priority_details_total)
qed

theorem cu_limit_ignores_program_witness:
  "map_sum id cu_limit (compute_priority_details demo_lib (demo_txn 1)) =
   map_sum id cu_limit (compute_priority_details demo_lib (demo_txn 2))"
  by (rule cu_limit_ignores_program) (simp_all add: demo_lib_def demo_txn_def in_range_def)

end
