(* ===== verification/Vendor_Rpc.thy ===== *)
theory Vendor_Rpc
  imports Transaction
begin

text \<open>
  \<open>vendor/solana_rpc.rs\<close>: the wire codecs (base58 or base64 around bincode) and
  \<open>send_and_encode_transaction\<close>, which submits one transaction of a bundle through the RPC node and
  waits for its confirmation.

  The codecs of the crates \<open>bs58\<close>, \<open>base64\<close> and \<open>bincode\<close> and the constant \<open>PACKET_DATA_SIZE\<close> are the
  fields of a record that every definition takes; \<open>codec_ok\<close> states what their documentation
  promises. The RPC node and the clock are the fields of \<open>rpc_node\<close>: the answer to the \<open>n\<close>-th
  submission, the answer to the \<open>k\<close>-th status poll and the reading of the clock at the \<open>k\<close>-th test of
  the confirmation loop.
\<close>

datatype transaction_binary_encoding = Base58 | Base64
datatype commitment = Processed | Confirmed | Finalized
datatype ui_transaction_encoding = Ui_Binary | Ui_Base64 | Ui_Base58 | Ui_Json | Ui_JsonParsed

record rpc_send_transaction_config =
  skip_preflight :: bool
  preflight_commitment :: "commitment option"
  encoding :: "ui_transaction_encoding option"
  rpc_max_retries :: "usize option"
  min_context_slot :: "u64 option"

record 't codec =
  bs58_encode :: "u8 list \<Rightarrow> string"
  bs58_decode :: "string \<Rightarrow> string + u8 list"
  base64_encode :: "u8 list \<Rightarrow> string"
  base64_decode :: "string \<Rightarrow> string + u8 list"
  bincode_serialize :: "nat \<Rightarrow> 't \<Rightarrow> string + u8 list"
  bincode_deserialize :: "nat \<Rightarrow> u8 list \<Rightarrow> string + 't"
  PACKET_DATA_SIZE :: nat

definition MAX_BASE58_SIZE :: nat where
  "MAX_BASE58_SIZE = 1683"

definition MAX_BASE64_SIZE :: nat where
  "MAX_BASE64_SIZE = 1644"

section \<open>Codecs\<close>

fun encode_wire :: "'t codec \<Rightarrow> transaction_binary_encoding \<Rightarrow> u8 list \<Rightarrow> string" where
  "encode_wire c Base58 b = bs58_encode c b"
| "encode_wire c Base64 b = base64_encode c b"

definition serialize_wire :: "'t codec \<Rightarrow> 't \<Rightarrow> error_object + u8 list" where
  "serialize_wire c t =
     (case bincode_serialize c (PACKET_DATA_SIZE c) t of
        Inl e \<Rightarrow> Inl (invalid_request (''failed to serialize: '' @ e))
      | Inr wire_output \<Rightarrow>
          if PACKET_DATA_SIZE c < length wire_output
          then Inl (invalid_request ''serialized too large'') else Inr wire_output)"

definition encode_and_serialize ::
  "'t codec \<Rightarrow> 't \<Rightarrow> transaction_binary_encoding \<Rightarrow> error_object + string" where
  "encode_and_serialize c t enc =
     and_then (serialize_wire c t) (\<lambda>wire_output. Inr (encode_wire c enc wire_output))"

fun decode_wire ::
  "'t codec \<Rightarrow> transaction_binary_encoding \<Rightarrow> string \<Rightarrow> error_object + u8 list" where
  "decode_wire c Base58 encoded =
     (if MAX_BASE58_SIZE < length encoded then Inl (invalid_request ''base58 encoded too large'')
      else map_err (\<lambda>e. invalid_request (''invalid base58 encoding: '' @ e)) (bs58_decode c encoded))"
| "decode_wire c Base64 encoded =
     (if MAX_BASE64_SIZE < length encoded then Inl (invalid_request ''base64 encoded too large'')
      else map_err (\<lambda>e. invalid_request (''invalid base64 encoding: '' @ e)) (base64_decode c encoded))"

definition decode_and_deserialize ::
  "'t codec \<Rightarrow> string \<Rightarrow> transaction_binary_encoding \<Rightarrow> error_object + (u8 list \<times> 't)" where
  "decode_and_deserialize c encoded enc =
     and_then (decode_wire c enc encoded) (\<lambda>wire_output.
       if PACKET_DATA_SIZE c < length wire_output then Inl (invalid_request ''decoded too large'')
       else case bincode_deserialize c (PACKET_DATA_SIZE c) wire_output of
              Inl e \<Rightarrow> Inl (invalid_request (''failed to deserialize: '' @ e))
            | Inr output \<Rightarrow> Inr (wire_output, output))"

text \<open>
  What the crates document: decoding inverts encoding, the text of a packet fits the golden sizes,
  and bincode refuses to write more than its limit and reads back what it wrote.
\<close>

definition text_codec_ok :: "nat \<Rightarrow> nat \<Rightarrow> (u8 list \<Rightarrow> string) \<Rightarrow> (string \<Rightarrow> string + u8 list) \<Rightarrow> bool" where
  "text_codec_ok packet max_text enc dec \<longleftrightarrow>
     (\<forall>b. dec (enc b) = Inr b) \<and> (\<forall>b. length b \<le> packet \<longrightarrow> length (enc b) \<le> max_text)"

definition bincode_ok :: "'t codec \<Rightarrow> bool" where
  "bincode_ok c \<longleftrightarrow> (\<forall>n t b. bincode_serialize c n t = Inr b \<longrightarrow>
     length b \<le> n \<and> bincode_deserialize c n b = Inr t)"

definition codec_ok :: "'t codec \<Rightarrow> bool" where
  "codec_ok c \<longleftrightarrow>
     text_codec_ok (PACKET_DATA_SIZE c) MAX_BASE58_SIZE (bs58_encode c) (bs58_decode c) \<and>
     text_codec_ok (PACKET_DATA_SIZE c) MAX_BASE64_SIZE (base64_encode c) (base64_decode c) \<and>
     bincode_ok c"

lemma decode_wire_encode_wire:
  "codec_ok c \<Longrightarrow> length b \<le> PACKET_DATA_SIZE c \<Longrightarrow> decode_wire c enc (encode_wire c enc b) = Inr b"
  by (cases enc) (auto simp: codec_ok_def text_codec_ok_def not_less)

lemma serialize_wire_Inr:
  "serialize_wire c t = Inr b \<longleftrightarrow>
     bincode_serialize c (PACKET_DATA_SIZE c) t = Inr b \<and> length b \<le> PACKET_DATA_SIZE c"
  by (auto simp: serialize_wire_def split: sum.splits)

text \<open>With bincode's own limit the second size test never fires.\<close>

lemma serialize_wire_limit:
  "bincode_ok c \<Longrightarrow> serialize_wire c t =
     map_err (\<lambda>e. invalid_request (''failed to serialize: '' @ e))
       (bincode_serialize c (PACKET_DATA_SIZE c) t)"
  by (auto simp: serialize_wire_def bincode_ok_def not_less split: sum.splits) fastforce

lemma decode_encode:
  assumes "codec_ok c" and "encode_and_serialize c t enc = Inr s"
  obtains b where "serialize_wire c t = Inr b" and "decode_and_deserialize c s enc = Inr (b, t)"
proof -
  from assms(2) obtain b where b: "serialize_wire c t = Inr b" "s = encode_wire c enc b"
    by (auto simp: encode_and_serialize_def and_then_eq_Inr)
  then have len: "length b \<le> PACKET_DATA_SIZE c"
    and ser: "bincode_serialize c (PACKET_DATA_SIZE c) t = Inr b"
    by (simp_all add: serialize_wire_Inr)
  from ser assms(1) have "bincode_deserialize c (PACKET_DATA_SIZE c) b = Inr t"
    by (auto simp: codec_ok_def bincode_ok_def)
  with decode_wire_encode_wire [OF assms(1) len] b len
  have "decode_and_deserialize c s enc = Inr (b, t)"
    by (simp add: decode_and_deserialize_def)
  with b show thesis by (intro that)
qed

lemma decode_and_deserialize_Inr:
  "decode_and_deserialize c s enc = Inr (b, t) \<Longrightarrow>
     length b \<le> PACKET_DATA_SIZE c \<and> bincode_deserialize c (PACKET_DATA_SIZE c) b = Inr t \<and>
     decode_wire c enc s = Inr b"
  by (auto simp: decode_and_deserialize_def and_then_eq_Inr split: if_splits sum.splits)

section \<open>Submission and confirmation\<close>

record send_transaction_config =
  commitment_level :: commitment
  send_retry_count :: nat
  retry_delay_ms :: duration
  confirmation_timeout_ms :: duration
  send_skip_preflight :: bool

definition DEFAULT_RETRY_COUNT :: nat where
  "DEFAULT_RETRY_COUNT = 3"

definition DEFAULT_RETRY_DELAY_MS :: duration where
  "DEFAULT_RETRY_DELAY_MS = 1000"

definition DEFAULT_CONFIRMATION_TIMEOUT_MS :: duration where
  "DEFAULT_CONFIRMATION_TIMEOUT_MS = 30000"

definition default_send_config :: send_transaction_config where
  "default_send_config =
     \<lparr>commitment_level = Confirmed, send_retry_count = DEFAULT_RETRY_COUNT,
      retry_delay_ms = DEFAULT_RETRY_DELAY_MS,
      confirmation_timeout_ms = DEFAULT_CONFIRMATION_TIMEOUT_MS, send_skip_preflight = False\<rparr>"

record rpc_node =
  send_result :: "nat \<Rightarrow> string + string"
  status_result :: "nat \<Rightarrow> string + (string + unit) option"
  confirm_elapsed :: "nat \<Rightarrow> duration"

text \<open>
  What the function does to the outside: the submissions with their options, the status queries and
  the sleeps.
\<close>

datatype 't rpc_call =
    Send_transaction 't rpc_send_transaction_config
  | Get_signature_status
  | Sleep duration

definition submit_options :: "send_transaction_config \<Rightarrow> rpc_send_transaction_config" where
  "submit_options cfg =
     \<lparr>skip_preflight = send_skip_preflight cfg,
      preflight_commitment = Some (commitment_level cfg), encoding = None,
      rpc_max_retries = Some 0, min_context_slot = None\<rparr>"

datatype confirmation = Landed | Failed string | Given_up

text \<open>
  The loop waiting for the confirmation, from its \<open>k\<close>-th test on: its status queries and sleeps and
  how it leaves; \<open>None\<close> when it never ends.
\<close>

partial_function (option) confirm_loop ::
  "rpc_node \<Rightarrow> duration \<Rightarrow> nat \<Rightarrow> ('t rpc_call list \<times> confirmation) option" where
  "confirm_loop node timeout k =
     (if confirm_elapsed node k < timeout then
        (case status_result node k of
           Inr (Some (Inr _)) \<Rightarrow> Some ([Get_signature_status], Landed)
         | Inr (Some (Inl err)) \<Rightarrow> Some ([Get_signature_status], Failed err)
         | Inr None \<Rightarrow>
             Option.bind (confirm_loop node timeout (Suc k)) (\<lambda>(calls, r).
               Some (Get_signature_status # Sleep 100 # calls, r))
         | Inl _ \<Rightarrow> Some ([Get_signature_status], Given_up))
      else Some ([], Given_up))"

definition debug_last_error :: "string option \<Rightarrow> string" where
  "debug_last_error e = (case e of None \<Rightarrow> ''None'' | Some d \<Rightarrow> ''Some('' @ d @ '')'')"

definition attempts_error :: "send_transaction_config \<Rightarrow> string option \<Rightarrow> error_object" where
  "attempts_error cfg last_error =
     invalid_request (''Failed to send transaction after '' @ show_nat (send_retry_count cfg) @
       '' attempts: '' @ debug_last_error last_error)"

definition confirmation_result ::
  "'t codec \<Rightarrow> transaction_binary_encoding \<Rightarrow> u8 list \<Rightarrow> confirmation \<Rightarrow> error_object + string" where
  "confirmation_result c enc wire_output r =
     (case r of
        Landed \<Rightarrow> Inr (encode_wire c enc wire_output)
      | Failed err \<Rightarrow> Inl (invalid_request (''Transaction failed: '' @ err))
      | Given_up \<Rightarrow> Inl (invalid_request ''Transaction confirmation timeout''))"

fun send_loop ::
  "'t codec \<Rightarrow> rpc_node \<Rightarrow> send_transaction_config \<Rightarrow> 't \<Rightarrow> transaction_binary_encoding \<Rightarrow> u8 list \<Rightarrow>
   string option \<Rightarrow> nat list \<Rightarrow> ('t rpc_call list \<times> (error_object + string)) option" where
  "send_loop c node cfg t enc wire_output last_error [] =
     Some ([], Inl (attempts_error cfg last_error))"
| "send_loop c node cfg t enc wire_output last_error (attempt # attempts) =
     (case send_result node attempt of
        Inr _ \<Rightarrow>
          Option.bind (confirm_loop node (confirmation_timeout_ms cfg) 0) (\<lambda>(waiting, r).
            Some (Send_transaction t (submit_options cfg) # waiting,
                  confirmation_result c enc wire_output r))
      | Inl e \<Rightarrow>
          Option.bind (send_loop c node cfg t enc wire_output (Some e) attempts) (\<lambda>(calls, r).
            Some (Send_transaction t (submit_options cfg) #
                  (if attempt < send_retry_count cfg then [Sleep (retry_delay_ms cfg)] else []) @ calls,
                  r)))"

definition send_and_encode_transaction ::
  "'t codec \<Rightarrow> rpc_node \<Rightarrow> 't \<Rightarrow> transaction_binary_encoding \<Rightarrow> send_transaction_config option \<Rightarrow>
   ('t rpc_call list \<times> (error_object + string)) option" where
  "send_and_encode_transaction c node t enc config =
     (let cfg = unwrap_or default_send_config config in
      case serialize_wire c t of
        Inl e \<Rightarrow> Some ([], Inl e)
      | Inr wire_output \<Rightarrow>
          send_loop c node cfg t enc wire_output None [0..<Suc (send_retry_count cfg)])"

section \<open>Counting calls\<close>

fun is_send :: "'t rpc_call \<Rightarrow> bool" where
  "is_send (Send_transaction _ _) = True"
| "is_send _ = False"

fun is_poll :: "'t rpc_call \<Rightarrow> bool" where
  "is_poll Get_signature_status = True"
| "is_poll _ = False"

fun slept :: "'t rpc_call \<Rightarrow> duration" where
  "slept (Sleep d) = d"
| "slept _ = 0"

definition n_sends :: "'t rpc_call list \<Rightarrow> nat" where
  "n_sends calls = length (filter is_send calls)"

definition n_polls :: "'t rpc_call list \<Rightarrow> nat" where
  "n_polls calls = length (filter is_poll calls)"

definition sleep_time :: "'t rpc_call list \<Rightarrow> duration" where
  "sleep_time calls = sum_list (map slept calls)"

lemma call_counts_simps [simp]:
  "n_sends [] = 0" "n_polls [] = 0" "sleep_time [] = 0"
  "n_sends (call # calls) = (if is_send call then Suc (n_sends calls) else n_sends calls)"
  "n_polls (call # calls) = (if is_poll call then Suc (n_polls calls) else n_polls calls)"
  "sleep_time (call # calls) = slept call + sleep_time calls"
  "n_sends (xs @ ys) = n_sends xs + n_sends ys"
  "n_polls (xs @ ys) = n_polls xs + n_polls ys"
  "sleep_time (xs @ ys) = sleep_time xs + sleep_time ys"
  by (simp_all add: n_sends_def n_polls_def sleep_time_def)

section \<open>Termination of the confirmation loop\<close>

text \<open>The loop returns; it queries once and sleeps 100 ms at most for every started 100 ms left.\<close>

lemma confirm_loop_returns:
  assumes "sleeps_at_least 100 (confirm_elapsed node)"
  shows "\<exists>(calls :: 't rpc_call list) r. confirm_loop node timeout k = Some (calls, r) \<and> n_sends calls = 0 \<and>
    100 * n_polls calls \<le> (timeout - confirm_elapsed node k) + 99 \<and> sleep_time calls \<le> 100 * n_polls calls"
proof (induction "timeout - confirm_elapsed node k" arbitrary: k rule: less_induct)
  case less
  show ?case
  proof (cases "confirm_elapsed node k < timeout \<and> status_result node k = Inr None")
    case True
    have step: "confirm_elapsed node k + 100 \<le> confirm_elapsed node (Suc k)"
      using assms by (simp add: sleeps_at_least_def)
    with True have "timeout - confirm_elapsed node (Suc k) < timeout - confirm_elapsed node k"
      by linarith
    from less [OF this] obtain r and calls :: "'t rpc_call list"
      where nxt: "confirm_loop node timeout (Suc k) = Some (calls, r)" "n_sends calls = 0"
        and len: "100 * n_polls calls \<le> (timeout - confirm_elapsed node (Suc k)) + 99"
          "sleep_time calls \<le> 100 * n_polls calls"
      by blast
    have "confirm_loop node timeout k = Some (Get_signature_status # Sleep 100 # calls, r)"
      using True nxt by (subst confirm_loop.simps) simp
    moreover have "100 * n_polls (Get_signature_status # Sleep 100 # calls) \<le> (timeout - confirm_elapsed node k) + 99"
      using len step True by (cases "n_polls calls") (simp_all, linarith+)
    ultimately show ?thesis using nxt(2) len(2) by (intro exI conjI) (assumption, simp_all)
  next
    case False
    then have "(\<exists>r. confirm_loop node timeout k = Some ([Get_signature_status], r) \<and> confirm_elapsed node k < timeout) \<or>
        confirm_loop node timeout k = Some ([], Given_up)"
      by (subst (1 2) confirm_loop.simps) (auto split: sum.splits option.splits)
    then show ?thesis by fastforce
  qed
qed

lemma confirm_loop_waits:
  assumes "confirm_loop node timeout k = Some (calls, r)"
  shows "set calls \<subseteq> {Get_signature_status, Sleep 100}"
proof -
  have "\<forall>calls r. x = (calls, r) \<longrightarrow> set calls \<subseteq> {Get_signature_status, Sleep 100}"
    if "confirm_loop node timeout k = Some x" for x :: "'t rpc_call list \<times> confirmation"
    using _ that
    by (rule confirm_loop.raw_induct) (fastforce split: if_splits sum.splits option.splits Option.bind_splits)
  with assms show ?thesis by blast
qed

section \<open>What a submission does and returns\<close>

lemma send_loop_returns:
  assumes "sleeps_at_least 100 (confirm_elapsed node)"
  shows "\<exists>calls r. send_loop c node cfg t enc w prev attempts = Some (calls, r)"
proof (induction attempts arbitrary: prev)
  case (Cons a as)
  show ?case
  proof (cases "send_result node a")
    case (Inl e)
    with Cons.IH [of "Some e"] show ?thesis by auto
  next
    case (Inr sg)
    obtain r and waiting :: "'a rpc_call list"
      where "confirm_loop node (confirmation_timeout_ms cfg) 0 = Some (waiting, r)"
      using confirm_loop_returns [OF assms, of "confirmation_timeout_ms cfg" 0] by blast
    with Inr show ?thesis by simp
  qed
qed simp

lemma send_loop_Inr:
  "send_loop c node cfg t enc w prev attempts = Some (calls, Inr s) \<Longrightarrow> s = encode_wire c enc w"
  by (induction attempts arbitrary: prev calls)
    (auto simp: confirmation_result_def split: sum.splits Option.bind_splits confirmation.splits)

text \<open>What one call costs: the submissions, and the queries and sleeps, given what a wait costs.\<close>

lemma send_loop_costs:
  assumes "sleeps_at_least 100 (confirm_elapsed node)"
    and "send_loop c node cfg t enc w prev attempts = Some (calls, r)"
  shows "n_sends calls \<le> length attempts \<and> n_polls calls \<le> (confirmation_timeout_ms cfg + 99) div 100 \<and>
    sleep_time calls \<le> length (filter (\<lambda>a. a < send_retry_count cfg) attempts) * retry_delay_ms cfg +
      100 * ((confirmation_timeout_ms cfg + 99) div 100)"
  using assms(2)
proof (induction attempts arbitrary: prev calls)
  case (Cons a as)
  let ?polls = "(confirmation_timeout_ms cfg + 99) div 100"
  show ?case
  proof (cases "send_result node a")
    case (Inl e)
    with Cons.prems obtain calls' where "send_loop c node cfg t enc w (Some e) as = Some (calls', r)"
      and "calls = Send_transaction t (submit_options cfg) #
        (if a < send_retry_count cfg then [Sleep (retry_delay_ms cfg)] else []) @ calls'"
      by (auto split: Option.bind_splits)
    with Cons.IH show ?thesis by fastforce
  next
    case (Inr sg)
    obtain r' and waiting :: "'a rpc_call list"
      where wait: "confirm_loop node (confirmation_timeout_ms cfg) 0 = Some (waiting, r')" "n_sends waiting = 0"
        and polls: "100 * n_polls waiting \<le> (confirmation_timeout_ms cfg - confirm_elapsed node 0) + 99"
          "sleep_time waiting \<le> 100 * n_polls waiting"
      using confirm_loop_returns [OF assms(1), of "confirmation_timeout_ms cfg" 0] by blast
    have "n_polls waiting \<le> ?polls" using polls(1) by (simp add: less_eq_div_iff_mult_less_eq)
    moreover from this have "sleep_time waiting \<le> 100 * ?polls" using polls(2) by linarith
    moreover have "calls = Send_transaction t (submit_options cfg) # waiting"
      using Cons.prems Inr wait(1) by simp
    ultimately show ?thesis using wait(2) by simp
  qed
qed simp

text \<open>The attempts before the first accepted submission each send once and sleep once.\<close>

definition failed_attempt :: "send_transaction_config \<Rightarrow> 't \<Rightarrow> 't rpc_call list" where
  "failed_attempt cfg t =
     [Send_transaction t (submit_options cfg), Sleep (retry_delay_ms cfg)]"

lemma send_loop_first_accepted:
  assumes "m \<le> n" and "n \<le> send_retry_count cfg"
    and "\<forall>a. m \<le> a \<and> a < n \<longrightarrow> (\<exists>e. send_result node a = Inl e)"
    and "send_result node n = Inr sg"
    and "confirm_loop node (confirmation_timeout_ms cfg) 0 = Some (waiting, r)"
  shows "send_loop c node cfg t enc w prev [m..<Suc (send_retry_count cfg)] =
    Some (concat (replicate (n - m) (failed_attempt cfg t)) @
          Send_transaction t (submit_options cfg) # waiting, confirmation_result c enc w r)"
  using assms
proof (induction "n - m" arbitrary: m prev)
  case 0
  then have "[m..<Suc (send_retry_count cfg)] = n # [Suc n..<Suc (send_retry_count cfg)]"
    by (simp add: upt_conv_Cons del: upt_Suc)
  with 0 show ?case by (simp del: upt_Suc)
next
  case (Suc d)
  then have upt: "[m..<Suc (send_retry_count cfg)] = m # [Suc m..<Suc (send_retry_count cfg)]"
    by (simp add: upt_conv_Cons del: upt_Suc)
  have m: "m < n" "m \<le> m" using Suc by arith+
  then obtain e where e: "send_result node m = Inl e" using Suc.prems(3) by blast
  have d: "n - m = Suc (n - Suc m)" "m < send_retry_count cfg" using Suc by arith+
  have "send_loop c node cfg t enc w (Some e) [Suc m..<Suc (send_retry_count cfg)] =
    Some (concat (replicate (n - Suc m) (failed_attempt cfg t)) @
          Send_transaction t (submit_options cfg) # waiting, confirmation_result c enc w r)"
    using Suc by (intro Suc.hyps) auto
  with e d upt show ?case by (simp add: failed_attempt_def del: upt_Suc)
qed

lemma send_loop_all_refused:
  assumes "m \<le> send_retry_count cfg"
    and "\<forall>a. m \<le> a \<and> a \<le> send_retry_count cfg \<longrightarrow> send_result node a = Inl (err a)"
  shows "\<exists>calls. send_loop c node cfg t enc w prev [m..<Suc (send_retry_count cfg)] =
      Some (calls, Inl (attempts_error cfg (Some (err (send_retry_count cfg))))) \<and>
    n_sends calls = Suc (send_retry_count cfg) - m"
  using assms
proof (induction "send_retry_count cfg - m" arbitrary: m prev)
  case 0
  then have "m = send_retry_count cfg" "send_result node m = Inl (err m)" by auto
  then show ?case by simp
next
  case (Suc d)
  then have le: "Suc m \<le> send_retry_count cfg" by arith
  then have upt: "[m..<Suc (send_retry_count cfg)] = m # [Suc m..<Suc (send_retry_count cfg)]"
    by (simp add: upt_conv_Cons del: upt_Suc)
  have e: "send_result node m = Inl (err m)" using Suc.prems by blast
  have "\<exists>calls. send_loop c node cfg t enc w (Some (err m)) [Suc m..<Suc (send_retry_count cfg)] =
      Some (calls, Inl (attempts_error cfg (Some (err (send_retry_count cfg))))) \<and>
    n_sends calls = Suc (send_retry_count cfg) - Suc m"
    using Suc.hyps(2) Suc.prems le by (intro Suc.hyps(1)) auto
  with e le upt show ?case by (auto simp del: upt_Suc)
qed

text \<open>The whole function, through \<open>encode_and_serialize\<close>.\<close>

lemma send_and_encode_Inr:
  "send_and_encode_transaction c node t enc cfg = Some (calls, Inr s) \<Longrightarrow>
     encode_and_serialize c t enc = Inr s"
  by (auto simp: send_and_encode_transaction_def encode_and_serialize_def Let_def
      split: sum.splits dest: send_loop_Inr)

lemma send_loop_sends_t:
  "send_loop c node cfg t enc w prev attempts = Some (calls, r) \<Longrightarrow>
     Send_transaction u opts \<in> set calls \<Longrightarrow> u = t \<and> opts = submit_options cfg"
  by (induction attempts arbitrary: prev calls)
    (fastforce split: sum.splits Option.bind_splits if_splits dest: confirm_loop_waits)+

lemma send_and_encode_sends_t:
  "send_and_encode_transaction c node t enc cfg = Some (calls, r) \<Longrightarrow>
     Send_transaction u opts \<in> set calls \<Longrightarrow>
     u = t \<and> opts = submit_options (unwrap_or default_send_config cfg)"
  by (auto simp: send_and_encode_transaction_def Let_def split: sum.splits dest: send_loop_sends_t)

lemma send_and_encode_returns:
  "sleeps_at_least 100 (confirm_elapsed node) \<Longrightarrow>
     \<exists>calls r. send_and_encode_transaction c node t enc cfg = Some (calls, r)"
  using send_loop_returns
  by (auto simp: send_and_encode_transaction_def Let_def simp del: upt_Suc split: sum.split)

section \<open>Properties\<close>

text \<open>A codec on raw bytes that keeps the documented laws: text is the bytes themselves.\<close>

definition raw_encode :: "u8 list \<Rightarrow> string" where
  "raw_encode b = map (\<lambda>w. char_of (unat w)) b"

definition raw_decode :: "string \<Rightarrow> string + u8 list" where
  "raw_decode s = Inr (map (\<lambda>ch. of_nat (of_char ch)) s)"

definition raw_codec :: "u8 list codec" where
  "raw_codec = \<lparr>bs58_encode = raw_encode, bs58_decode = raw_decode,
     base64_encode = raw_encode, base64_decode = raw_decode,
     bincode_serialize = (\<lambda>n t. if length t \<le> n then Inr t else Inl ''size limit''),
     bincode_deserialize = (\<lambda>n b. Inr b), PACKET_DATA_SIZE = 1232\<rparr>"

lemma raw_decode_encode [simp]: "raw_decode (raw_encode b) = Inr b"
proof -
  have "of_nat (of_char (char_of (unat w))) = w" for w :: u8
  proof -
    have "unat w < 256" using unsigned_less [of w, where 'a = nat] by simp
    then have "of_char (char_of (unat w)) = unat w" by (simp only: of_char_of mod_less)
    then show ?thesis by simp
  qed
  then show ?thesis by (simp add: raw_decode_def raw_encode_def comp_def)
qed

lemma raw_text_ok: "n \<le> m \<Longrightarrow> text_codec_ok n m raw_encode raw_decode"
  by (simp add: text_codec_ok_def) (simp add: raw_encode_def)

lemma raw_codec_ok: "codec_ok raw_codec"
  by (simp add: codec_ok_def raw_codec_def bincode_ok_def raw_text_ok MAX_BASE58_SIZE_def
      MAX_BASE64_SIZE_def)

definition demo_node :: "(nat \<Rightarrow> string + string) \<Rightarrow> rpc_node" where
  "demo_node answer = \<lparr>send_result = answer,
     status_result = (\<lambda>k. if k < 2 then Inr None else Inr (Some (Inr ()))),
     confirm_elapsed = (\<lambda>k. 150 * k)\<rparr>"

text \<open>
  C32: What \<open>encode_and_serialize\<close> writes, \<open>decode_and_deserialize\<close> reads back under the same
  encoding, with a wire image that fits in a packet.
\<close>

theorem wire_roundtrip:
  assumes "codec_ok c" and "encode_and_serialize c t enc = Inr s"
  shows "\<exists>b. decode_and_deserialize c s enc = Inr (b, t) \<and> length b \<le> PACKET_DATA_SIZE c"
  using decode_encode [OF assms] decode_and_deserialize_Inr by metis

theorem wire_roundtrip_witness:
  "\<exists>s. encode_and_serialize raw_codec [7, 8] Base64 = Inr s \<and>
     (\<exists>b. decode_and_deserialize raw_codec s Base64 = Inr (b, [7, 8]) \<and> length b \<le> 1232)"
proof -
  have enc: "encode_and_serialize raw_codec [7, 8] Base64 = Inr (raw_encode [7, 8])"
    by (simp add: encode_and_serialize_def serialize_wire_def raw_codec_def)
  from wire_roundtrip [OF raw_codec_ok this] enc show ?thesis by (simp add: raw_codec_def)
qed

text \<open>
  A decoded transaction obeys the size limits: its text is at most 1683 characters in base58 and
  1644 in base64, its wire image fits in a packet, and a longer text is refused before it is decoded.
\<close>

theorem decode_size_limits:
  "(\<forall>b t. decode_and_deserialize c s enc = Inr (b, t) \<longrightarrow>
      length b \<le> PACKET_DATA_SIZE c \<and> length s \<le> (case enc of Base58 \<Rightarrow> 1683 | Base64 \<Rightarrow> 1644)) \<and>
   (1683 < length s \<longrightarrow> decode_and_deserialize c s Base58 = Inl (invalid_request ''base58 encoded too large'')) \<and>
   (1644 < length s \<longrightarrow> decode_and_deserialize c s Base64 = Inl (invalid_request ''base64 encoded too large''))"
proof (intro conjI allI impI)
  fix b t
  assume "decode_and_deserialize c s enc = Inr (b, t)"
  then have "length b \<le> PACKET_DATA_SIZE c" and "decode_wire c enc s = Inr b"
    by (auto dest: decode_and_deserialize_Inr)
  then show "length b \<le> PACKET_DATA_SIZE c"
    and "length s \<le> (case enc of Base58 \<Rightarrow> 1683 | Base64 \<Rightarrow> 1644)"
    by (cases enc; simp add: MAX_BASE58_SIZE_def MAX_BASE64_SIZE_def split: if_splits)+
qed (simp_all add: decode_and_deserialize_def MAX_BASE58_SIZE_def MAX_BASE64_SIZE_def)

theorem decode_size_limits_witness:
  "decode_and_deserialize raw_codec ''ab'' Base58 = Inr ([97, 98], [97, 98]) \<and>
   length [97 :: u8, 98] \<le> PACKET_DATA_SIZE raw_codec \<and>
   decode_and_deserialize raw_codec (replicate 1645 CHR ''a'') Base64
     = Inl (invalid_request ''base64 encoded too large'')"
proof -
  have dec: "decode_and_deserialize raw_codec ''ab'' Base58 = Inr ([97, 98], [97, 98])"
    by (simp add: decode_and_deserialize_def MAX_BASE58_SIZE_def raw_codec_def raw_decode_def)
  have "length [97 :: u8, 98] \<le> PACKET_DATA_SIZE raw_codec"
    using decode_size_limits [of raw_codec "''ab''" Base58] dec by blast
  moreover have "decode_and_deserialize raw_codec (replicate 1645 CHR ''a'') Base64
     = Inl (invalid_request ''base64 encoded too large'')"
    using decode_size_limits [of raw_codec "replicate 1645 CHR ''a''" Base64] by simp
  ultimately show ?thesis using dec by blast
qed

text \<open>
  C24: With a node whose first accepted submission is the \<open>n\<close>-th, the function submits \<open>n + 1\<close> times,
  each time without preflight changes and with no retries left to the node, sleeps between them, waits
  for the confirmation and never submits again: on a landed transaction it returns the encoded wire
  image, never the signature the node returned, and otherwise the error of the failure or a timeout.
\<close>

theorem submission_result:
  assumes "serialize_wire c t = Inr w" and "n \<le> send_retry_count cfg"
    and "\<forall>a < n. \<exists>e. send_result node a = Inl e" and "send_result node n = Inr sg"
    and "confirm_loop node (confirmation_timeout_ms cfg) 0 = Some (waiting, r)"
  shows "send_and_encode_transaction c node t enc (Some cfg) =
    Some (concat (replicate n (failed_attempt cfg t)) @
          Send_transaction t (submit_options cfg) # waiting,
      case r of Landed \<Rightarrow> Inr (encode_wire c enc w)
        | Failed err \<Rightarrow> Inl (invalid_request (''Transaction failed: '' @ err))
        | Given_up \<Rightarrow> Inl (invalid_request ''Transaction confirmation timeout''))"
proof -
  have "\<forall>a. 0 \<le> a \<and> a < n \<longrightarrow> (\<exists>e. send_result node a = Inl e)" using assms(3) by simp
  from send_loop_first_accepted [OF le0 assms(2) this assms(4,5)] assms(1)
  show ?thesis
    by (simp add: send_and_encode_transaction_def confirmation_result_def del: upt_Suc)
qed

theorem submission_result_witness:
  "send_and_encode_transaction raw_codec (demo_node (\<lambda>a. if a = 1 then Inr ''sig'' else Inl ''busy''))
     [1, 2] Base58 (Some default_send_config) =
   Some (concat (replicate 1 (failed_attempt default_send_config [1, 2])) @
         Send_transaction [1, 2] (submit_options default_send_config) #
           [Get_signature_status, Sleep 100, Get_signature_status, Sleep 100, Get_signature_status],
     Inr (raw_encode [1, 2]))"
proof -
  let ?node = "demo_node (\<lambda>a. if a = 1 then Inr ''sig'' else Inl ''busy'')"
  let ?cfg = default_send_config
  let ?waiting = "[Get_signature_status, Sleep 100, Get_signature_status, Sleep 100, Get_signature_status]"
  have "confirm_loop ?node (confirmation_timeout_ms ?cfg) 0 = Some (?waiting, Landed)"
    by (simp add: confirm_loop.simps demo_node_def default_send_config_def
        DEFAULT_CONFIRMATION_TIMEOUT_MS_def)
  moreover have "serialize_wire raw_codec [1, 2] = Inr [1, 2]"
    by (simp add: serialize_wire_def raw_codec_def)
  ultimately show ?thesis
    using submission_result [of raw_codec "[1, 2]" "[1, 2]" 1 ?cfg ?node "''sig''" ?waiting Landed Base58]
    by (simp add: demo_node_def default_send_config_def DEFAULT_RETRY_COUNT_def raw_codec_def)
qed

text \<open>
  A node that refuses every submission is asked \<open>retry_count + 1\<close> times, and the error speaks of
  \<open>retry_count\<close> attempts and quotes the last refusal.
\<close>

theorem all_submissions_refused:
  assumes "serialize_wire c t = Inr w" and "\<forall>a \<le> send_retry_count cfg. send_result node a = Inl (err a)"
  shows "\<exists>calls. send_and_encode_transaction c node t enc (Some cfg) =
      Some (calls, Inl (invalid_request (''Failed to send transaction after '' @
        show_nat (send_retry_count cfg) @ '' attempts: Some('' @ err (send_retry_count cfg) @ '')''))) \<and>
    n_sends calls = Suc (send_retry_count cfg)"
proof -
  have "\<forall>a. 0 \<le> a \<and> a \<le> send_retry_count cfg \<longrightarrow> send_result node a = Inl (err a)"
    using assms(2) by simp
  from send_loop_all_refused [OF le0 this, of c t enc w None] assms(1)
  show ?thesis
    by (simp add: send_and_encode_transaction_def attempts_error_def debug_last_error_def del: upt_Suc)
qed

theorem all_submissions_refused_witness:
  "\<exists>calls. send_and_encode_transaction raw_codec (demo_node (\<lambda>a. Inl ''busy'')) [1] Base58
      (Some default_send_config) =
      Some (calls, Inl (invalid_request (''Failed to send transaction after '' @
        show_nat 3 @ '' attempts: Some(busy)''))) \<and> n_sends calls = 4"
proof -
  have "serialize_wire raw_codec [1] = Inr [1]" by (simp add: serialize_wire_def raw_codec_def)
  then show ?thesis
    using all_submissions_refused [of raw_codec "[1]" "[1]" default_send_config
        "demo_node (\<lambda>a. Inl ''busy'')" "\<lambda>_. ''busy''" Base58]
    by (simp add: demo_node_def default_send_config_def DEFAULT_RETRY_COUNT_def)
qed

text \<open>
  C25: With a clock on which sleeping takes its time, the function returns, after at most
  \<open>retry_count + 1\<close> submissions and at most one status query for every started 100 ms of the
  confirmation timeout; its sleeps add up to at most the retry delays and the timeout, rounded up.
\<close>

theorem submission_terminates:
  assumes "sleeps_at_least 100 (confirm_elapsed node)"
  shows "\<exists>calls r. send_and_encode_transaction c node t enc (Some cfg) = Some (calls, r) \<and>
    n_sends calls \<le> send_retry_count cfg + 1 \<and>
    n_polls calls \<le> (confirmation_timeout_ms cfg + 99) div 100 \<and>
    sleep_time calls \<le> send_retry_count cfg * retry_delay_ms cfg + 100 * ((confirmation_timeout_ms cfg + 99) div 100)"
proof -
  obtain calls r where run: "send_and_encode_transaction c node t enc (Some cfg) = Some (calls, r)"
    using send_and_encode_returns [OF assms, of c t enc "Some cfg"] by blast
  show ?thesis
  proof (cases "serialize_wire c t")
    case (Inl e)
    with run show ?thesis by (auto simp: send_and_encode_transaction_def Let_def)
  next
    case (Inr w)
    with run have "send_loop c node cfg t enc w None [0..<Suc (send_retry_count cfg)] = Some (calls, r)"
      by (simp add: send_and_encode_transaction_def Let_def del: upt_Suc)
    from send_loop_costs [OF assms this] run show ?thesis
      by (intro exI [of _ calls] exI [of _ r]) simp
  qed
qed

definition silent_node :: rpc_node where
  "silent_node = (demo_node (\<lambda>a. Inr ''sig''))\<lparr>status_result := \<lambda>k. Inr None, confirm_elapsed := \<lambda>k. 100 * k\<rparr>"

theorem submission_terminates_witness:
  "\<exists>calls r. send_and_encode_transaction raw_codec silent_node [1] Base58 (Some default_send_config) =
     Some (calls, r) \<and> n_sends calls \<le> 4 \<and> n_polls calls \<le> 300 \<and> sleep_time calls \<le> 33000"
  using submission_terminates [of silent_node raw_codec "[1]" Base58 default_send_config]
  by (simp add: silent_node_def sleeps_at_least_def default_send_config_def DEFAULT_RETRY_COUNT_def
      DEFAULT_RETRY_DELAY_MS_def DEFAULT_CONFIRMATION_TIMEOUT_MS_def)

end
