(* ===== verification/Txn_Sender.thy ===== *)
theory Txn_Sender
  imports Transaction_Store Leader_Tracker Priority Vendor_Rpc
begin

text \<open>
  \<open>infrastructure/txn_sender.rs\<close>: sending a transaction to the upcoming leaders, tracking it until it
  lands, the retry loop with its load shedding, and the bundle path through the RPC node. A task the
  code spawns is a value: its parameters, and a function that gives what it does once the answers
  of the network are known. Metrics are the values the code hands to statsd; log lines are left out.
\<close>

type_synonym tags = "(string \<times> string) list"

datatype metric = Count string tags | Gauge string nat | Timing string nat tags

definition RETRY_COUNT_BINS :: "int list" where
  "RETRY_COUNT_BINS = [0, 1, 2, 5, 10, 25]"

definition MAX_RETRIES_BINS :: "int list" where
  "MAX_RETRIES_BINS = [0, 1, 5, 10, 30]"

definition MAX_TIMEOUT_SEND_DATA :: duration where
  "MAX_TIMEOUT_SEND_DATA = 500"

definition MAX_TIMEOUT_SEND_DATA_BATCH :: duration where
  "MAX_TIMEOUT_SEND_DATA_BATCH = 500"

definition SEND_TXN_RETRIES :: nat where
  "SEND_TXN_RETRIES = 10"

record txn_sender_config =
  txn_sender_threads :: usize
  txn_send_retry_interval_seconds :: usize
  max_retry_queue_size :: "usize option"

definition show_bool :: "bool \<Rightarrow> string" where
  "show_bool b = (if b then ''true'' else ''false'')"

section \<open>Tags of the retry metrics\<close>

text \<open>\<open>usize as i32\<close>: the low 32 bits, read as a signed number.\<close>

definition as_i32 :: "usize \<Rightarrow> int" where
  "as_i32 n = sint (ucast n :: i32)"

fun find_bin :: "int \<Rightarrow> int list \<Rightarrow> string \<Rightarrow> string \<Rightarrow> string \<times> string" where
  "find_bin counter [] bin_start bin_end = (bin_start, bin_end)"
| "find_bin counter (bin # bins) bin_start bin_end =
     (if bin \<le> counter then (show_int bin, bin_end) else find_bin counter bins bin_start (show_int bin))"

definition bin_counter_to_tag :: "int option \<Rightarrow> int list \<Rightarrow> string" where
  "bin_counter_to_tag counter bins =
     (case counter of
        None \<Rightarrow> ''none''
      | Some c \<Rightarrow>
          (case find_bin c (rev bins) ''-inf'' ''inf'' of
             (bin_start, bin_end) \<Rightarrow> bin_start @ ''_'' @ bin_end))"

section \<open>Sending to one leader\<close>

text \<open>How one \<open>timeout(.., conn.send_data(..))\<close> ends.\<close>

datatype send_outcome = Timed_out | Send_error | Sent duration

record send_task =
  task_leader :: contact_info
  task_leader_num :: nat
  task_wire :: "u8 list"
  task_api_key :: string
  task_retry :: bool

fun send_attempts :: "send_task \<Rightarrow> (nat \<Rightarrow> send_outcome) \<Rightarrow> nat list \<Rightarrow> metric list \<times> bool" where
  "send_attempts task outcome [] = ([], False)"
| "send_attempts task outcome (i # is) =
     (case outcome i of
        Sent elapsed \<Rightarrow>
          ([Timing ''transaction_received_by_leader'' elapsed
             [(''leader_num'', show_nat (task_leader_num task)), (''api_key'', task_api_key task),
              (''retry'', show_bool (task_retry task))]], True)
      | Send_error \<Rightarrow>
          (let (ms, r) = send_attempts task outcome is in
           (Count ''transaction_send_error''
              [(''retry'', show_bool (task_retry task)),
               (''last_attempt'', show_bool (i = SEND_TXN_RETRIES - 1))] # ms, r))
      | Timed_out \<Rightarrow>
          (let (ms, r) = send_attempts task outcome is in
           (Count ''transaction_send_timeout'' [] # ms, r)))"

definition run_send_task :: "send_task \<Rightarrow> (nat \<Rightarrow> send_outcome) \<Rightarrow> metric list \<times> bool" where
  "run_send_task task outcome = send_attempts task outcome [0..<SEND_TXN_RETRIES]"

text \<open>
  The connection: the \<open>i\<close>-th \<open>send_data\<close> would take \<open>fst (net i)\<close> and succeed if \<open>snd (net i)\<close>. The
  timeout lets the future win when both are ready, and otherwise ends the attempt at its limit. The
  first sends measure from the request's \<open>sent_at\<close>, the retries from the moment of spawning; \<open>start\<close>
  is what that clock shows when the task begins.
\<close>

definition send_limit :: "send_task \<Rightarrow> duration" where
  "send_limit task = (if task_retry task then MAX_TIMEOUT_SEND_DATA_BATCH else MAX_TIMEOUT_SEND_DATA)"

definition time_spent :: "send_task \<Rightarrow> (nat \<Rightarrow> duration \<times> bool) \<Rightarrow> nat \<Rightarrow> duration" where
  "time_spent task net n = (\<Sum>i<n. min (fst (net i)) (send_limit task))"

definition timed_outcome :: "send_task \<Rightarrow> duration \<Rightarrow> (nat \<Rightarrow> duration \<times> bool) \<Rightarrow> nat \<Rightarrow> send_outcome" where
  "timed_outcome task start net i =
     (case net i of (took, received) \<Rightarrow>
        if send_limit task < took then Timed_out
        else if received then Sent (start + time_spent task net i + took) else Send_error)"

definition run_on_connection :: "send_task \<Rightarrow> duration \<Rightarrow> (nat \<Rightarrow> duration \<times> bool) \<Rightarrow> metric list \<times> bool" where
  "run_on_connection task start net = run_send_task task (timed_outcome task start net)"

text \<open>The loop over the leaders that spawns the tasks; a leader without a QUIC address is skipped.\<close>

fun spawn_sends :: "u8 list \<Rightarrow> string \<Rightarrow> bool \<Rightarrow> nat \<Rightarrow> contact_info list \<Rightarrow> send_task list" where
  "spawn_sends wire key retry leader_num [] = []"
| "spawn_sends wire key retry leader_num (leader # leaders) =
     (if tpu_quic leader = None then spawn_sends wire key retry leader_num leaders
      else \<lparr>task_leader = leader, task_leader_num = leader_num, task_wire = wire,
            task_api_key = key, task_retry = retry\<rparr>
           # spawn_sends wire key retry (Suc leader_num) leaders)"

section \<open>Tracking\<close>

record confirm_task =
  confirm_signature :: string
  confirm_details :: priority_details
  confirm_api_key :: string
  confirm_sent_at :: instant

text \<open>
  \<open>track_transaction\<close>: the record is stored before the priority details are computed, so a panic
  there leaves it in the store with no task waiting for its confirmation.
\<close>

definition track_transaction ::
  "budget_lib \<Rightarrow> transaction_data \<Rightarrow> tx_store \<Rightarrow> tx_store \<times> (panic + confirm_task option)" where
  "track_transaction lib t s =
     (case get_signature t of
        None \<Rightarrow> (s, Inr None)
      | Some sg \<Rightarrow>
          (let s' = add_transaction t s in
           (s', and_then (compute_priority_details lib (versioned_transaction t)) (\<lambda>d.
                  Inr (Some \<lparr>confirm_signature = sg, confirm_details = d,
                        confirm_api_key = api_key_or_none (request_metadata t),
                        confirm_sent_at = sent_at t\<rparr>)))))"

text \<open>The spawned task, once \<open>confirm_transaction\<close> has answered; \<open>now\<close> is its clock.\<close>

definition finish_tracking ::
  "confirm_task \<Rightarrow> i64 option \<Rightarrow> instant \<Rightarrow> tx_store \<Rightarrow> metric list \<times> tx_store" where
  "finish_tracking task confirmed_at now s =
     (let (removed, s') = remove_transaction (confirm_signature task) s;
          retries_tag = bin_counter_to_tag (map_option (\<lambda>t. as_i32 (retry_count t)) removed) RETRY_COUNT_BINS;
          max_retries_tag = bin_counter_to_tag (map_option (\<lambda>t. as_i32 (max_retries t)) removed) MAX_RETRIES_BINS;
          d = confirm_details task;
          enabled = show_bool (0 < fee d);
          key = [(''api_key'', confirm_api_key task)];
          retry_tags = [(''priority_fees_enabled'', enabled), (''retries'', retries_tag),
                        (''max_retries_tag'', max_retries_tag)];
          landed = show_bool (confirmed_at \<noteq> None)
      in ((if confirmed_at \<noteq> None
           then [Count ''transactions_landed'' retry_tags, Count ''transactions_landed_by_key'' key,
                 Timing ''transaction_land_time'' (now - confirm_sent_at task)
                   (key @ [(''priority_fees_enabled'', enabled)])]
           else [Count ''transactions_not_landed'' retry_tags, Count ''transactions_not_landed_by_key'' key,
                 Count ''transactions_not_landed_retries'' retry_tags]) @
          [Timing ''transaction_priority'' (unat (priority d)) [(''landed'', landed)],
           Timing ''transaction_priority_fee'' (unat (fee d)) [(''landed'', landed)],
           Timing ''transaction_compute_limit'' (unat (cu_limit d)) [(''landed'', landed)]], s'))"

text \<open>\<open>TxnSender::send_transaction\<close>; the leaders are what \<open>get_leaders\<close> answers after the tracking.\<close>

definition send_transaction ::
  "budget_lib \<Rightarrow> (panic + contact_info list) \<Rightarrow> transaction_data \<Rightarrow> tx_store \<Rightarrow>
   tx_store \<times> (panic + (confirm_task option \<times> send_task list))" where
  "send_transaction lib leaders t s =
     (case track_transaction lib t s of
        (s', r) \<Rightarrow>
          (s', and_then r (\<lambda>confirm.
                 and_then leaders (\<lambda>ls.
                   Inr (confirm, spawn_sends (wire_transaction t) (api_key_or_none (request_metadata t))
                                   False 0 ls)))))"

section \<open>The retry loop\<close>

text \<open>
  Load shedding: \<open>queue_length\<close> was read before, and \<open>entries\<close> is the snapshot the code collects
  and sorts; the result is the keys to remove.
\<close>

definition shed_victims ::
  "profile \<Rightarrow> usize option \<Rightarrow> nat \<Rightarrow> (string \<times> transaction_data) list \<Rightarrow> panic + string list" where
  "shed_victims p max_retry_queue queue_length entries =
     (case max_retry_queue of
        None \<Rightarrow> Inr []
      | Some max_size \<Rightarrow>
          if unat max_size < queue_length then
            and_then (add_w p max_size 1) (\<lambda>start.
              and_then (slice_from (sort_key (\<lambda>(_, t). retry_count t) entries) (unat start))
                (\<lambda>transactions_to_remove. Inr (map fst transactions_to_remove)))
          else Inr [])"

definition queue_metrics :: "usize option \<Rightarrow> nat \<Rightarrow> metric list" where
  "queue_metrics max_retry_queue queue_length =
     Gauge ''transaction_retry_queue_length'' queue_length #
     (case max_retry_queue of
        None \<Rightarrow> []
      | Some max_size \<Rightarrow>
          if unat max_size < queue_length
          then [Gauge ''transactions_retry_queue_dropped'' (queue_length - unat max_size)] else [])"

text \<open>The pass over the map: every entry is sent; one at its bound is reported, the others count up.\<close>

definition retry_entry ::
  "profile \<Rightarrow> transaction_data \<Rightarrow> panic + (transaction_data \<times> string list)" where
  "retry_entry p t =
     (if max_retries t \<le> retry_count t
      then and_then (unwrap (get_signature t)) (\<lambda>sg. Inr (t, [sg]))
      else and_then (add_w p (retry_count t) 1) (\<lambda>n. Inr (t\<lparr>retry_count := n\<rparr>, [])))"

fun retry_scan ::
  "profile \<Rightarrow> tx_store \<Rightarrow> panic + (tx_store \<times> u8 list list \<times> string list)" where
  "retry_scan p [] = Inr ([], [], [])"
| "retry_scan p ((k, t) # s) =
     and_then (retry_entry p t) (\<lambda>(t', reached).
       and_then (retry_scan p s) (\<lambda>(s', wires, reached').
         Inr ((k, t') # s', wire_transaction t # wires, reached @ reached')))"

text \<open>\<open>leaders_at i\<close> is the answer of \<open>get_leaders\<close> for the \<open>i\<close>-th wire transaction of the pass.\<close>

fun retry_sends ::
  "(nat \<Rightarrow> panic + contact_info list) \<Rightarrow> nat \<Rightarrow> u8 list list \<Rightarrow> panic + send_task list" where
  "retry_sends leaders_at i [] = Inr []"
| "retry_sends leaders_at i (wire # wires) =
     and_then (leaders_at i) (\<lambda>ls.
       and_then (retry_sends leaders_at (Suc i) wires) (\<lambda>tasks.
         Inr (spawn_sends wire ''not_applicable'' True 0 ls @ tasks)))"

record pass_result =
  pass_store :: tx_store
  pass_wires :: "u8 list list"
  pass_tasks :: "send_task list"
  pass_metrics :: "metric list"

text \<open>One turn of the loop of \<open>retry_transactions\<close>, undisturbed by other tasks.\<close>

definition retry_pass ::
  "profile \<Rightarrow> usize option \<Rightarrow> (nat \<Rightarrow> panic + contact_info list) \<Rightarrow> tx_store \<Rightarrow> panic + pass_result" where
  "retry_pass p max_retry_queue leaders_at s =
     and_then (shed_victims p max_retry_queue (length s) s) (\<lambda>victims.
       and_then (retry_scan p (fold dm_remove victims s)) (\<lambda>(s', wires, reached).
         and_then (retry_sends leaders_at 0 wires) (\<lambda>tasks.
           Inr \<lparr>pass_store = fold dm_remove reached s', pass_wires = wires, pass_tasks = tasks,
                pass_metrics = queue_metrics max_retry_queue (length s) @
                  map (\<lambda>_. Count ''transactions_reached_max_retries'' []) reached\<rparr>)))"

section \<open>Bundles\<close>

text \<open>\<open>{:?}\<close> of a text without characters to escape, as a signature is.\<close>

definition debug_text :: "string \<Rightarrow> string" where
  "debug_text s = CHR 0x22 # s @ [CHR 0x22]"

record bundle_effects =
  bundle_calls :: "versioned_transaction rpc_call list"
  bundle_metrics :: "metric list"

text \<open>
  The loop over a bundle. For its \<open>i\<close>-th transaction \<open>caches i\<close> is the shared blockhash cache as the
  check finds it and \<open>node i\<close> the answers the RPC node will give; \<open>None\<close> when some confirmation never
  ends. A panic keeps the effects made so far.
\<close>

fun bundle_loop ::
  "versioned_transaction codec \<Rightarrow> (nat \<Rightarrow> (hash, u64) dashmap) \<Rightarrow> (nat \<Rightarrow> rpc_node) \<Rightarrow>
   transaction_binary_encoding \<Rightarrow> string \<Rightarrow> nat \<Rightarrow> transaction_data list \<Rightarrow> bundle_effects \<Rightarrow>
   string list \<Rightarrow> string list \<Rightarrow>
   (bundle_effects \<times> (panic + (string list \<times> string list))) option" where
  "bundle_loop c caches node enc key i [] eff sigs errors = Some (eff, Inr (sigs, errors))"
| "bundle_loop c caches node enc key i (t # ts) eff sigs errors =
     (let tx = versioned_transaction t in
      if \<not> dm_contains_key (caches i) (recent_blockhash tx)
      then bundle_loop c caches node enc key (Suc i) ts eff sigs
             (errors @ [''Transaction has expired blockhash: '' @ hash_text (recent_blockhash tx)])
      else (case index (signatures tx) 0 of
              Inl e \<Rightarrow> Some (eff, Inl e)
            | Inr sg \<Rightarrow>
                Option.bind (send_and_encode_transaction c (node i) tx enc None) (\<lambda>(calls, r).
                  let eff' = eff\<lparr>bundle_calls := bundle_calls eff @ calls\<rparr> in
                  case r of
                    Inr encoded \<Rightarrow>
                      bundle_loop c caches node enc key (Suc i) ts
                        (eff'\<lparr>bundle_metrics := bundle_metrics eff' @
                           [Count ''send_transaction_in_bundle'' [(''api_key'', key)]]\<rparr>)
                        (sigs @ [encoded]) errors
                  | Inl _ \<Rightarrow>
                      bundle_loop c caches node enc key (Suc i) ts eff' sigs
                        (errors @ [''Error processing transaction '' @ debug_text (sig_text sg)]))))"

definition send_transaction_bundle ::
  "versioned_transaction codec \<Rightarrow> (nat \<Rightarrow> (hash, u64) dashmap) \<Rightarrow> (nat \<Rightarrow> rpc_node) \<Rightarrow>
   transaction_data list \<Rightarrow> transaction_binary_encoding \<Rightarrow> string \<Rightarrow>
   (bundle_effects \<times> (panic + (string list \<times> string list))) option" where
  "send_transaction_bundle c caches node ts enc key =
     bundle_loop c caches node enc key 0 ts \<lparr>bundle_calls = [], bundle_metrics = []\<rparr> [] []"

section \<open>Facts about tags and sends\<close>

lemma find_bin_append:
  "find_bin c (xs @ ys) s e =
     (if \<exists>x \<in> set xs. x \<le> c then find_bin c xs s e
      else find_bin c ys s (if xs = [] then e else show_int (List.last xs)))"
  by (induction xs arbitrary: e) auto

lemma find_bin_none: "\<forall>x \<in> set xs. c < x \<Longrightarrow> find_bin c xs s e = (s, if xs = [] then e else show_int (List.last xs))"
  by (induction xs arbitrary: e) auto

lemma test_bin_counter:
  "bin_counter_to_tag None RETRY_COUNT_BINS = ''none''"
  "bin_counter_to_tag (Some (- 100)) RETRY_COUNT_BINS = ''-inf_0''"
  "bin_counter_to_tag (Some 0) RETRY_COUNT_BINS = ''0_1''"
  "bin_counter_to_tag (Some 1) RETRY_COUNT_BINS = ''1_2''"
  "bin_counter_to_tag (Some 2) RETRY_COUNT_BINS = ''2_5''"
  "bin_counter_to_tag (Some 3) RETRY_COUNT_BINS = ''2_5''"
  "bin_counter_to_tag (Some 17) RETRY_COUNT_BINS = ''10_25''"
  "bin_counter_to_tag (Some 34) RETRY_COUNT_BINS = ''25_inf''"
  by code_simp+

lemma spawn_sends_leaders:
  "map task_leader (spawn_sends wire key retry n ls) = filter (\<lambda>l. tpu_quic l \<noteq> None) ls"
  by (induction ls arbitrary: n) auto

lemma spawn_sends_nums:
  "map task_leader_num (spawn_sends wire key retry n ls) =
     [n..<n + length (filter (\<lambda>l. tpu_quic l \<noteq> None) ls)]"
  by (induction ls arbitrary: n) (auto simp: upt_conv_Cons simp del: upt_Suc)

lemma spawn_sends_wire:
  "task \<in> set (spawn_sends wire key retry n ls) \<Longrightarrow>
     task_wire task = wire \<and> task_api_key task = key \<and> task_retry task = retry"
  by (induction ls arbitrary: n) (auto split: if_splits)

text \<open>
  What has to be spawned for a wire transaction: one task for every leader with a QUIC address, in
  order, numbered without gaps.
\<close>

definition tasks_for :: "u8 list \<Rightarrow> string \<Rightarrow> bool \<Rightarrow> contact_info list \<Rightarrow> send_task list" where
  "tasks_for wire key retry ls =
     map (\<lambda>(num, leader). \<lparr>task_leader = leader, task_leader_num = num, task_wire = wire, task_api_key = key,
            task_retry = retry\<rparr>)
       (enumerate 0 (filter (\<lambda>leader. tpu_quic leader \<noteq> None) ls))"

lemma spawn_sends_tasks: "spawn_sends wire key retry 0 ls = tasks_for wire key retry ls"
proof -
  have "spawn_sends wire key retry n ls =
     map (\<lambda>(num, leader). \<lparr>task_leader = leader, task_leader_num = num, task_wire = wire, task_api_key = key,
            task_retry = retry\<rparr>)
       (enumerate n (filter (\<lambda>leader. tpu_quic leader \<noteq> None) ls))" for n
    by (induction ls arbitrary: n) auto
  then show ?thesis by (simp add: tasks_for_def)
qed

lemma filter_tasks_for:
  "filter (\<lambda>task. task_wire task = w) (tasks_for w' key retry ls) = (if w' = w then tasks_for w key retry ls else [])"
  by (auto simp: tasks_for_def filter_empty_conv filter_id_conv split: prod.splits)

text \<open>The contract of the leader source bounds what one transaction spawns.\<close>

context leader_source
begin

lemma spawned_bound:
  assumes "leaders_of s = Inr ls"
  shows "length (spawn_sends wire key retry n ls) \<le> bound s"
    and "distinct (map (\<lambda>task. contact_pubkey (task_leader task)) (spawn_sends wire key retry n ls))"
proof -
  note bound = filter_bound [OF assms, of "\<lambda>l. tpu_quic l \<noteq> None"]
  have leaders: "map task_leader (spawn_sends wire key retry n ls) = filter (\<lambda>l. tpu_quic l \<noteq> None) ls"
    by (rule spawn_sends_leaders)
  from arg_cong [OF leaders, of length] bound
  show "length (spawn_sends wire key retry n ls) \<le> bound s" by simp
  from arg_cong [OF leaders, of "map contact_pubkey"] bound
  show "distinct (map (\<lambda>task. contact_pubkey (task_leader task)) (spawn_sends wire key retry n ls))"
    by (simp add: comp_def)
qed

end

lemma send_attempts_metrics: "length (fst (send_attempts task outcome is)) \<le> length is"
  by (induction "is") (auto split: send_outcome.split prod.splits)

lemma send_attempts_received:
  "snd (send_attempts task outcome is) \<longleftrightarrow> (\<exists>i \<in> set is. \<exists>d. outcome i = Sent d)"
  by (induction "is") (auto split: send_outcome.split prod.splits)

lemma send_attempts_prefix:
  assumes "\<forall>i \<in> set xs. \<forall>d. outcome i \<noteq> Sent d"
  shows "send_attempts task outcome (xs @ ys) =
    (fst (send_attempts task outcome xs) @ fst (send_attempts task outcome ys),
     snd (send_attempts task outcome ys))
    \<and> length (fst (send_attempts task outcome xs)) = length xs"
  using assms by (induction xs) (auto split: send_outcome.splits prod.splits)

section \<open>Facts about the retry loop\<close>

text \<open>What one pass means for the queue seen as a map: an entry at its bound goes, the others count up.\<close>

definition bump :: "transaction_data \<Rightarrow> transaction_data" where
  "bump t = (if max_retries t \<le> retry_count t then t else t\<lparr>retry_count := retry_count t + 1\<rparr>)"

definition retry_spec ::
  "(string \<Rightarrow> transaction_data option) \<Rightarrow> string \<Rightarrow> transaction_data option" where
  "retry_spec q k =
     (case q k of
        None \<Rightarrow> None
      | Some t \<Rightarrow> if max_retries t \<le> retry_count t then None
                  else Some (t\<lparr>retry_count := retry_count t + 1\<rparr>))"

lemma unat_succ_below:
  fixes n m :: usize
  assumes "n < m"
  shows "unat (n + 1) = Suc (unat n)" and "add_w p n 1 = Inr (n + 1)"
proof -
  have "unat n < unat m" using assms by (simp add: word_less_nat_alt)
  moreover have "unat m < 2 ^ 64" using unsigned_less [of m, where 'a = nat] by simp
  ultimately have lt: "unat n + unat (1 :: usize) < 2 ^ LENGTH(64)" by simp
  show "unat (n + 1) = Suc (unat n)" using unat_add_exact [OF lt] by simp
  show "add_w p n 1 = Inr (n + 1)" by (rule add_w_exact [OF lt])
qed

lemma bump_fields [simp]:
  "get_signature (bump t) = get_signature t" "wire_transaction (bump t) = wire_transaction t"
  "max_retries (bump t) = max_retries t"
  by (simp_all add: bump_def get_signature_def)

lemma entry_ok_bump: "entry_ok k t \<Longrightarrow> entry_ok k (bump t)"
  by (auto simp: entry_ok_def bump_def not_le word_le_nat_alt unat_succ_below word_less_nat_alt
      get_signature_def)

lemma retry_entry_ok:
  "entry_ok k t \<Longrightarrow>
     retry_entry p t = Inr (bump t, if max_retries t \<le> retry_count t then [k] else [])"
  by (auto simp: retry_entry_def bump_def entry_ok_def not_le unat_succ_below)

lemma retry_scan_ok:
  "\<forall>(k, t) \<in> set s. entry_ok k t \<Longrightarrow>
     retry_scan p s = Inr (dm_update_values bump s, map (\<lambda>(_, t). wire_transaction t) s,
       map fst (filter (\<lambda>(_, t). max_retries t \<le> retry_count t) s))"
  by (induction s) (auto simp: dm_update_values_def retry_entry_ok)

text \<open>The sends of a pass: for every entry in turn the tasks for the leaders its call of \<open>get_leaders\<close> gave.\<close>

definition pass_sends :: "(nat \<Rightarrow> contact_info list) \<Rightarrow> (string \<times> transaction_data) list \<Rightarrow> send_task list" where
  "pass_sends ls entries =
     concat (map (\<lambda>(i, k, t). tasks_for (wire_transaction t) ''not_applicable'' True (ls i)) (enumerate 0 entries))"

lemma retry_sends_ok:
  assumes "\<forall>i. leaders_at i = Inr (ls i)"
  shows "retry_sends leaders_at 0 (map (\<lambda>(_, t). wire_transaction t) entries) = Inr (pass_sends ls entries)"
proof -
  have "retry_sends leaders_at n (map (\<lambda>(_, t). wire_transaction t) entries) =
      Inr (concat (map (\<lambda>(i, k, t). tasks_for (wire_transaction t) ''not_applicable'' True (ls i)) (enumerate n entries)))"
    for n
    using assms by (induction entries arbitrary: n) (auto simp: spawn_sends_tasks)
  then show ?thesis by (simp add: pass_sends_def)
qed

lemma fold_dm_remove: "fold dm_remove ks s = filter (\<lambda>e. fst e \<notin> set ks) s"
  by (induction ks arbitrary: s) (auto simp: dm_remove_def filter_filter conj_commute intro: filter_cong)

text \<open>The part of a pass after the shedding.\<close>

lemma retry_pass_unshed:
  assumes "store_ok s" and "shed_victims p mx (length s) s = Inr victims"
    and "\<forall>i. leaders_at i = Inr (ls i)"
  obtains r where "retry_pass p mx leaders_at s = Inr r"
    and "store_ok (pass_store r)"
    and "dm_get (pass_store r) = retry_spec (dm_get (fold dm_remove victims s))"
    and "pass_tasks r = pass_sends ls (fold dm_remove victims s)"
proof -
  let ?s = "fold dm_remove victims s"
  have ok: "store_ok ?s"
    using assms(1) by (simp add: fold_dm_remove store_ok_entries dm_ok_def distinct_map_filter)
  then have dm: "dm_ok ?s" and entries: "\<forall>(k, t) \<in> set ?s. entry_ok k t"
    by (simp_all add: store_ok_entries)
  let ?reached = "map fst (filter (\<lambda>(_, t). max_retries t \<le> retry_count t) ?s)"
  let ?wires = "map (\<lambda>(_, t). wire_transaction t) ?s"
  note tasks = retry_sends_ok [OF assms(3), of ?s]
  define s' where "s' = fold dm_remove ?reached (dm_update_values bump ?s)"
  have okb: "dm_ok (dm_update_values bump ?s)" using dm by (simp add: dm_ok_update_values)
  have reached: "k \<in> set ?reached \<longleftrightarrow> (\<exists>t. dm_get ?s k = Some t \<and> max_retries t \<le> retry_count t)" for k
    using dm by (fastforce simp: dm_get_in_set image_iff)
  have get: "dm_get s' = retry_spec (dm_get ?s)"
  proof
    fix k
    show "dm_get s' k = retry_spec (dm_get ?s) k"
      unfolding s'_def dm.lookup_fold_remove [OF okb] reached
      by (auto simp: retry_spec_def dm_get_update_values bump_def split: option.split)
  qed
  have "store_ok s'"
  proof -
    have "dm_ok s'" unfolding s'_def using okb by (rule dm.wf_fold_remove)
    moreover have "\<forall>(k, t) \<in> set s'. entry_ok k t"
      using entries by (auto simp: s'_def fold_dm_remove dm_update_values_def intro: entry_ok_bump)
    ultimately show ?thesis by (simp add: store_ok_entries)
  qed
  moreover have "retry_pass p mx leaders_at s = Inr \<lparr>pass_store = s', pass_wires = ?wires, pass_tasks = pass_sends ls ?s,
      pass_metrics = queue_metrics mx (length s) @
        map (\<lambda>_. Count ''transactions_reached_max_retries'' []) ?reached\<rparr>"
    using assms(2) tasks by (simp add: retry_pass_def retry_scan_ok [OF entries] s'_def)
  ultimately show thesis using get that by fastforce
qed

section \<open>Facts about shedding\<close>

lemma shed_victims_panic:
  assumes "unat mx < 2 ^ 64 - 1"
  shows "shed_victims p (Some mx) n entries =
    (if n \<le> unat mx then Inr []
     else if length entries \<le> unat mx then Inl Slice_out_of_range
     else Inr (map fst (drop (Suc (unat mx)) (sort_key (\<lambda>(_, t). retry_count t) entries))))"
proof -
  have "unat mx + unat (1 :: usize) < 2 ^ LENGTH(64)" using assms by simp
  note one = add_w_exact [OF this, of p] unat_add_exact [OF this]
  have "unat (mx + 1) = Suc (unat mx)" using one(2) by simp
  then show ?thesis using one(1) by (auto simp: shed_victims_def slice_from_def)
qed

lemma kept_after_shedding:
  fixes s :: tx_store
  assumes "dm_ok s" and "mset l = mset s"
  shows "mset (fold dm_remove (map fst (drop n l)) s) = mset (take n l)"
proof -
  have "distinct (map fst l)" using dm_perm_ok [OF assms(2) [symmetric] assms(1)] by (simp add: dm_ok_def)
  then have d: "distinct (map fst (take n l) @ map fst (drop n l))"
    by (simp flip: map_append)
  let ?P = "\<lambda>e. fst e \<notin> set (map fst (drop n l))"
  have "filter ?P (take n l) = take n l" using d by (auto simp: filter_id_conv)
  moreover have "filter ?P (drop n l) = []" by (auto simp: filter_empty_conv)
  ultimately have "filter ?P l = take n l"
    by (metis append_Nil2 append_take_drop_id filter_append)
  then have "mset (filter ?P s) = mset (take n l)"
    using assms(2) by (metis mset_filter)
  then show ?thesis by (simp only: fold_dm_remove)
qed

lemma sorted_split:
  assumes "a \<in> set (take n (sort_key f l))" and "b \<in> set (drop n (sort_key f l))"
  shows "f a \<le> f b"
proof -
  have "sorted (map f (take n (sort_key f l)) @ map f (drop n (sort_key f l)))"
    using sorted_sort_key [of f l] by (simp flip: map_append)
  with assms show ?thesis by (auto simp: sorted_append)
qed

section \<open>Runs of passes\<close>

text \<open>Passes one after the other, \<open>ls i\<close> being the leaders answered for the \<open>i\<close>-th entry of a pass.\<close>

fun retry_passes ::
  "profile \<Rightarrow> usize option \<Rightarrow> (nat \<Rightarrow> contact_info list) list \<Rightarrow> tx_store \<Rightarrow>
   panic + (tx_store \<times> send_task list list)" where
  "retry_passes p mx [] s = Inr (s, [])"
| "retry_passes p mx (ls # lss) s =
     and_then (retry_pass p mx (\<lambda>i. Inr (ls i)) s) (\<lambda>r.
       and_then (retry_passes p mx lss (pass_store r)) (\<lambda>(s', sent). Inr (s', pass_tasks r # sent)))"

text \<open>The wire \<open>w\<close> belongs to the key \<open>k\<close> alone.\<close>

definition wire_of_key :: "tx_store \<Rightarrow> u8 list \<Rightarrow> string \<Rightarrow> bool" where
  "wire_of_key s w k \<longleftrightarrow> (\<forall>(k', t) \<in> set s. wire_transaction t = w \<longleftrightarrow> k' = k)"

abbreviation sends_of :: "u8 list \<Rightarrow> send_task list \<Rightarrow> send_task list" where
  "sends_of w \<equiv> filter (\<lambda>task. task_wire task = w)"

text \<open>A pass sends a wire for one call of \<open>get_leaders\<close> if its entry is queued, and not at all otherwise.\<close>

lemma pass_sends_of:
  assumes "dm_ok s" and "wire_of_key s w k"
  shows "\<exists>j. sends_of w (pass_sends ls s) =
    (if dm_get s k = None then [] else tasks_for w ''not_applicable'' True (ls j))"
proof -
  let ?sends = "\<lambda>n s. concat (map (\<lambda>(i, k, t). tasks_for (wire_transaction t) ''not_applicable'' True (ls i))
    (enumerate n s))"
  have "\<exists>j. sends_of w (?sends n s) = (if k \<in> fst ` set s then tasks_for w ''not_applicable'' True (ls j) else [])"
    if "distinct (map fst s)" "wire_of_key s w k" for n and s :: tx_store
    using that
  proof (induction s arbitrary: n)
    case (Cons e s)
    obtain k' t where e: "e = (k', t)" by (cases e)
    have wire: "wire_transaction t = w \<longleftrightarrow> k' = k" and rest: "wire_of_key s w k"
      using Cons.prems(2) by (simp_all add: wire_of_key_def e)
    from Cons.IH [OF _ rest, of "Suc n"] Cons.prems(1) obtain j where
      "sends_of w (?sends (Suc n) s) = (if k \<in> fst ` set s then tasks_for w ''not_applicable'' True (ls j) else [])"
      by auto
    with wire Cons.prems(1) show ?case
      by (cases "k' = k") (auto simp: e filter_tasks_for image_iff)
  qed simp
  moreover have "k \<in> fst ` set s \<longleftrightarrow> dm_get s k \<noteq> None"
    by (auto simp: dm_get_def map_of_eq_None_iff)
  ultimately show ?thesis using assms unfolding pass_sends_def dm_ok_def by metis
qed

lemma retry_spec_wire:
  assumes "dm_ok s" and "dm_ok s'" and "dm_get s' = retry_spec (dm_get s)" and "wire_of_key s w k"
  shows "wire_of_key s' w k"
proof -
  have "wire_transaction t' = w \<longleftrightarrow> k' = k" if "(k', t') \<in> set s'" for k' t'
  proof -
    have "retry_spec (dm_get s) k' = Some t'" using that assms(2,3) by (metis dm_get_in_set)
    then obtain t where "dm_get s k' = Some t" and "wire_transaction t' = wire_transaction t"
      by (auto simp: retry_spec_def split: option.splits if_splits)
    with assms(1,4) show ?thesis by (auto simp: wire_of_key_def dm_get_in_set)
  qed
  then show ?thesis by (auto simp: wire_of_key_def)
qed

lemma retry_pass_plain:
  assumes "store_ok s" and "\<forall>i. leaders_at i = Inr (ls i)"
  obtains r where "retry_pass p None leaders_at s = Inr r" and "store_ok (pass_store r)"
    and "dm_get (pass_store r) = retry_spec (dm_get s)" and "pass_tasks r = pass_sends ls s"
proof -
  have "shed_victims p None (length s) s = Inr []" by (simp add: shed_victims_def)
  from retry_pass_unshed [OF assms(1) this assms(2)] that show thesis by auto
qed

text \<open>One pass of a run, and what it does for one wire.\<close>

lemma retry_passes_Cons:
  assumes "store_ok s" and "wire_of_key s w k"
  obtains r j where "retry_pass p None (\<lambda>i. Inr (ls i)) s = Inr r" and "store_ok (pass_store r)"
    and "dm_get (pass_store r) = retry_spec (dm_get s)" and "wire_of_key (pass_store r) w k"
    and "sends_of w (pass_tasks r) = (if dm_get s k = None then [] else tasks_for w ''not_applicable'' True (ls j))"
proof -
  obtain r where r: "retry_pass p None (\<lambda>i. Inr (ls i)) s = Inr r" "store_ok (pass_store r)"
      "dm_get (pass_store r) = retry_spec (dm_get s)" "pass_tasks r = pass_sends ls s"
    using retry_pass_plain [OF assms(1), of "\<lambda>i. Inr (ls i)" ls p] by auto
  have "wire_of_key (pass_store r) w k"
    using retry_spec_wire [OF store_ok_dm [OF assms(1)] store_ok_dm [OF r(2)] r(3) assms(2)] .
  moreover obtain j where "sends_of w (pass_tasks r) =
      (if dm_get s k = None then [] else tasks_for w ''not_applicable'' True (ls j))"
    using pass_sends_of [OF store_ok_dm [OF assms(1)] assms(2), of ls] r(4) by auto
  ultimately show thesis using r that by blast
qed

lemma retry_passes_gone:
  assumes "store_ok s" and "dm_get s k = None" and "wire_of_key s w k"
  shows "\<exists>s' sent. retry_passes p None lss s = Inr (s', sent) \<and> dm_get s' k = None \<and>
    length sent = length lss \<and> (\<forall>i < length lss. sends_of w (sent ! i) = [])"
  using assms
proof (induction lss arbitrary: s)
  case (Cons ls lss)
  obtain r j where r: "retry_pass p None (\<lambda>i. Inr (ls i)) s = Inr r" "store_ok (pass_store r)"
      "dm_get (pass_store r) = retry_spec (dm_get s)" "wire_of_key (pass_store r) w k"
    and none: "sends_of w (pass_tasks r) = []"
    using retry_passes_Cons [OF Cons.prems(1,3), of p ls] Cons.prems(2) by auto
  have "dm_get (pass_store r) k = None" using r(3) Cons.prems(2) by (simp add: retry_spec_def)
  with Cons.IH [OF r(2) _ r(4)]
  obtain s' sent where "retry_passes p None lss (pass_store r) = Inr (s', sent)" "dm_get s' k = None"
      "length sent = length lss" "\<forall>i < length lss. sends_of w (sent ! i) = []"
    by auto
  with r(1) none show ?case
    by (intro exI [of _ s'] exI [of _ "pass_tasks r # sent"]) (simp add: All_less_Suc2)
qed simp

lemma retry_passes_sent:
  assumes "store_ok s" and "dm_get s k = Some t" and "wire_of_key s w k"
  shows "\<exists>s' sent. retry_passes p None lss s = Inr (s', sent) \<and> length sent = length lss \<and>
    dm_get s' k = (if length lss \<le> unat (max_retries t) - unat (retry_count t)
       then Some (t\<lparr>retry_count := retry_count t + of_nat (length lss)\<rparr>) else None) \<and>
    (\<forall>i < length lss. \<exists>j. sends_of w (sent ! i) =
       (if i \<le> unat (max_retries t) - unat (retry_count t) then tasks_for w ''not_applicable'' True ((lss ! i) j) else []))"
  using assms
proof (induction lss arbitrary: s t)
  case Nil
  then show ?case by simp
next
  case (Cons ls lss)
  obtain r j where r: "retry_pass p None (\<lambda>i. Inr (ls i)) s = Inr r" "store_ok (pass_store r)"
      "dm_get (pass_store r) = retry_spec (dm_get s)" "wire_of_key (pass_store r) w k"
    and here: "sends_of w (pass_tasks r) = tasks_for w ''not_applicable'' True (ls j)"
    using retry_passes_Cons [OF Cons.prems(1,3), of p ls] Cons.prems(2) by auto
  show ?case
  proof (cases "max_retries t \<le> retry_count t")
    case True
    then have "dm_get (pass_store r) k = None" using r(3) Cons.prems(2) by (simp add: retry_spec_def)
    from retry_passes_gone [OF r(2) this r(4), of p lss]
    obtain s' sent where "retry_passes p None lss (pass_store r) = Inr (s', sent)" "dm_get s' k = None"
        "length sent = length lss" "\<forall>i < length lss. sends_of w (sent ! i) = []" by auto
    moreover have "unat (max_retries t) - unat (retry_count t) = 0"
      using True by (simp add: word_le_nat_alt)
    ultimately show ?thesis
      using r(1) here by (intro exI [of _ s'] exI [of _ "pass_tasks r # sent"]) (auto simp: All_less_Suc2)
  next
    case False
    then have lt: "retry_count t < max_retries t" by simp
    let ?t = "t\<lparr>retry_count := retry_count t + 1\<rparr>"
    have "dm_get (pass_store r) k = Some ?t"
      using False r(3) Cons.prems(2) by (simp add: retry_spec_def)
    from Cons.IH [OF r(2) this r(4)]
    obtain s' sent where run: "retry_passes p None lss (pass_store r) = Inr (s', sent)" "length sent = length lss"
      and get: "dm_get s' k = (if length lss \<le> unat (max_retries ?t) - unat (retry_count ?t)
         then Some (?t\<lparr>retry_count := retry_count ?t + of_nat (length lss)\<rparr>) else None)"
      and later: "\<forall>i < length lss. \<exists>j. sends_of w (sent ! i) =
       (if i \<le> unat (max_retries ?t) - unat (retry_count ?t) then tasks_for w ''not_applicable'' True ((lss ! i) j) else [])"
      by auto
    have diff: "unat (max_retries t) - unat (retry_count t)
        = Suc (unat (max_retries ?t) - unat (retry_count ?t))"
      using lt unat_succ_below(1) [OF lt] by (simp add: word_less_nat_alt)
    have "retry_passes p None (ls # lss) s = Inr (s', pass_tasks r # sent)"
      using r(1) run(1) by simp
    moreover have "dm_get s' k = (if length (ls # lss) \<le> unat (max_retries t) - unat (retry_count t)
         then Some (t\<lparr>retry_count := retry_count t + of_nat (length (ls # lss))\<rparr>) else None)"
      unfolding get diff by (simp add: add.assoc)
    moreover have "\<forall>i < length (ls # lss). \<exists>j. sends_of w ((pass_tasks r # sent) ! i) =
       (if i \<le> unat (max_retries t) - unat (retry_count t)
        then tasks_for w ''not_applicable'' True (((ls # lss) ! i) j) else [])"
      unfolding diff length_Cons All_less_Suc2 nth_Cons_0 nth_Cons_Suc Suc_le_mono
      using here by (intro conjI later) auto
    ultimately show ?thesis using run(2) by (intro exI [of _ s'] exI [of _ "pass_tasks r # sent"]) simp
  qed
qed

end
