(* ===== verification/Application.thy ===== *)
theory Application
  imports Txn_Sender
begin

text \<open>
  \<open>application/transaction.rs\<close>: deduplication in front of the sender and the bundle call. The
  application holds its collaborators as trait objects, so its operations take them as functions;
  the trait \<open>TxnSender\<close> is the locale \<open>txn_sender\<close>, which extends the store's contract and is
  interpreted on the sender of \<open>Txn_Sender\<close>. The trait \<open>AtlasTransaction\<close>, through which the server
  calls the application, is the locale \<open>atlas_transaction\<close>.
\<close>

record ('s, 'w) app_outcome =
  app_store :: 's
  app_metrics :: "metric list"
  app_spawned :: "'w option"
  app_result :: "panic + (atlas_txn_sender_error + string)"

text \<open>\<open>AtlasTransactionApp::send_transaction\<close>: \<open>has\<close> and \<open>submit\<close> are the store's and the sender's methods.\<close>

definition app_send_transaction ::
  "('s \<Rightarrow> string \<Rightarrow> bool) \<Rightarrow> (transaction_data \<Rightarrow> 's \<Rightarrow> 's \<times> (panic + 'w)) \<Rightarrow>
   transaction_data \<Rightarrow> request_metadata option \<Rightarrow> 's \<Rightarrow> ('s, 'w) app_outcome" where
  "app_send_transaction has submit transaction metadata s =
     (case index (signatures (versioned_transaction transaction)) 0 of
        Inl e \<Rightarrow> \<lparr>app_store = s, app_metrics = [], app_spawned = None, app_result = Inl e\<rparr>
      | Inr sg \<Rightarrow>
          (let signature = sig_text sg;
               key = [(''api_key'', api_key_or_none metadata)];
               ms = [Count ''send_transaction'' key]
           in if has s signature
              then \<lparr>app_store = s, app_metrics = ms @ [Count ''duplicate_transaction'' key],
                    app_spawned = None, app_result = Inr (Inr signature)\<rparr>
              else (case submit transaction s of
                      (s', Inl e) \<Rightarrow>
                        \<lparr>app_store = s', app_metrics = ms, app_spawned = None, app_result = Inl e\<rparr>
                    | (s', Inr w) \<Rightarrow>
                        \<lparr>app_store = s', app_metrics = ms, app_spawned = Some w,
                         app_result = Inr (Inr signature)\<rparr>)))"

record 'b app_bundle_outcome =
  bundle_app_metrics :: "metric list"
  bundle_sender_effects :: "'b option"
  app_bundle_result :: "panic + (atlas_txn_sender_error + bundle_response)"

text \<open>
  \<open>AtlasTransactionApp::send_transaction_bundle\<close>. The arguments of the first log line are computed
  when lines of its level are on, and index the signatures of every transaction. \<open>None\<close> when the
  sender does not return; \<open>elapsed\<close> is what the clock measures.
\<close>

definition app_send_transaction_bundle ::
  "bool \<Rightarrow>
   (transaction_data list \<Rightarrow> transaction_binary_encoding \<Rightarrow> string \<Rightarrow>
      ('b \<times> (panic + (string + (string list \<times> string list)))) option) \<Rightarrow>
   duration \<Rightarrow> transaction_data list \<Rightarrow> request_metadata option \<Rightarrow> transaction_binary_encoding \<Rightarrow>
   'b app_bundle_outcome option" where
  "app_send_transaction_bundle info_enabled submit_bundle elapsed transactions metadata enc =
     (case (if info_enabled
            then try_map (\<lambda>t. index (signatures (versioned_transaction t)) 0) transactions
            else Inr []) of
        Inl e \<Rightarrow> Some \<lparr>bundle_app_metrics = [], bundle_sender_effects = None, app_bundle_result = Inl e\<rparr>
      | Inr _ \<Rightarrow>
          (let key = [(''api_key'', api_key_or_none metadata)];
               ms = [Count ''send_transaction_bundle'' key]
           in map_option (\<lambda>(eff, r).
                (case r of
                   Inl e \<Rightarrow>
                     \<lparr>bundle_app_metrics = ms, bundle_sender_effects = Some eff, app_bundle_result = Inl e\<rparr>
                 | Inr (Inl err) \<Rightarrow>
                     \<lparr>bundle_app_metrics = ms, bundle_sender_effects = Some eff,
                      app_bundle_result = Inr (Inl (Custom err))\<rparr>
                 | Inr (Inr (sigs, errs)) \<Rightarrow>
                     \<lparr>bundle_app_metrics = ms @ [Timing ''send_transaction_bundle_time'' elapsed key],
                      bundle_sender_effects = Some eff,
                      app_bundle_result =
                        Inr (Inr \<lparr>response_signatures = sigs, response_errors = errs\<rparr>)\<rparr>))
                (submit_bundle transactions enc (api_key_or_none metadata))))"

section \<open>The contract of the sender\<close>

text \<open>Submitting a transaction files it in the store, whatever else becomes of it.\<close>

locale txn_sender = transaction_store has add remove find_tx ok
  for has :: "'s \<Rightarrow> string \<Rightarrow> bool"
    and add :: "transaction_data \<Rightarrow> 's \<Rightarrow> 's"
    and remove :: "string \<Rightarrow> 's \<Rightarrow> transaction_data option \<times> 's"
    and find_tx :: "'s \<Rightarrow> string \<Rightarrow> transaction_data option"
    and ok :: "'s \<Rightarrow> bool" +
  fixes submit :: "transaction_data \<Rightarrow> 's \<Rightarrow> 's \<times> (panic + 'w)"
  assumes submit_stores: "fst (submit t s) = add t s"
begin

lemma app_first:
  assumes "ok s" and "get_signature t = Some sg" and "\<not> has s sg"
  shows "find_tx (app_store (app_send_transaction has submit t m s)) sg' =
      (if sg' = sg then Some t else find_tx s sg')"
    and "app_spawned (app_send_transaction has submit t m s) =
      (case snd (submit t s) of Inl e \<Rightarrow> None | Inr w \<Rightarrow> Some w)"
    and "app_result (app_send_transaction has submit t m s) =
      (case snd (submit t s) of Inl e \<Rightarrow> Inl e | Inr w \<Rightarrow> Inr (Inr sg))"
proof -
  obtain sg1 sgs where sigs: "signatures (versioned_transaction t) = sg1 # sgs" "sg = sig_text sg1"
    using assms(2) by (auto simp: get_signature_def split: list.splits)
  obtain s' r where sub: "submit t s = (s', r)" by (cases "submit t s")
  then have s': "s' = add t s" using submit_stores [of t s] by simp
  have "app_store (app_send_transaction has submit t m s) = s'"
    using assms(3) sigs sub by (simp add: app_send_transaction_def Let_def split: sum.split)
  then show "find_tx (app_store (app_send_transaction has submit t m s)) sg' =
      (if sg' = sg then Some t else find_tx s sg')"
    using assms find_add [OF assms(1), of t sg'] s' by auto
  show "app_spawned (app_send_transaction has submit t m s) =
      (case snd (submit t s) of Inl e \<Rightarrow> None | Inr w \<Rightarrow> Some w)"
    and "app_result (app_send_transaction has submit t m s) =
      (case snd (submit t s) of Inl e \<Rightarrow> Inl e | Inr w \<Rightarrow> Inr (Inr sg))"
    using assms(3) sigs sub by (simp_all add: app_send_transaction_def Let_def split: sum.split)
qed

lemma app_duplicate:
  assumes "get_signature t = Some sg" and "has s sg"
  shows "app_send_transaction has submit t m s =
    \<lparr>app_store = s, app_metrics = [Count ''send_transaction'' [(''api_key'', api_key_or_none m)],
       Count ''duplicate_transaction'' [(''api_key'', api_key_or_none m)]],
     app_spawned = None, app_result = Inr (Inr sg)\<rparr>"
proof -
  obtain sg1 sgs where "signatures (versioned_transaction t) = sg1 # sgs" "sg = sig_text sg1"
    using assms(1) by (auto simp: get_signature_def split: list.splits)
  then show ?thesis using assms(2) by (simp add: app_send_transaction_def Let_def)
qed

lemma app_unsigned:
  "get_signature t = None \<Longrightarrow> app_send_transaction has submit t m s =
     \<lparr>app_store = s, app_metrics = [], app_spawned = None, app_result = Inl Index_out_of_range\<rparr>"
  by (auto simp: app_send_transaction_def get_signature_def split: list.splits)

lemma app_cases:
  obtains (unsigned) "get_signature t = None"
  | (duplicate) sg where "get_signature t = Some sg" and "has s sg"
  | (first) sg where "get_signature t = Some sg" and "\<not> has s sg"
  by (cases "get_signature t") auto

lemma app_keeps_ok:
  assumes "ok s" and "retry_count t \<le> max_retries t"
  shows "ok (app_store (app_send_transaction has submit t m s))"
proof (cases rule: app_cases [where t = t and s = s])
  case (first sg)
  obtain sg1 sgs where sigs: "signatures (versioned_transaction t) = sg1 # sgs" "sg = sig_text sg1"
    using first(1) by (auto simp: get_signature_def split: list.splits)
  then have "app_store (app_send_transaction has submit t m s) = add t s"
    using first(2) submit_stores [of t s]
    by (cases "submit t s") (simp add: app_send_transaction_def Let_def split: sum.split)
  then show ?thesis using assms by (simp add: ok_add)
qed (use assms in \<open>simp_all add: app_unsigned app_duplicate\<close>)

lemma app_result_signature:
  "app_result (app_send_transaction has submit t m s) = Inr (Inr sg) \<Longrightarrow> get_signature t = Some sg"
  by (auto simp: app_send_transaction_def get_signature_def index_def Let_def hd_conv_nth
      split: if_splits list.splits prod.splits sum.splits)

lemma app_never_fails: "app_result (app_send_transaction has submit t m s) \<noteq> Inr (Inl e)"
  by (auto simp: app_send_transaction_def Let_def split: prod.splits sum.splits)

text \<open>Sending the same signature again submits nothing, also when the first submission panicked.\<close>

lemma app_twice:
  assumes "ok s" and "get_signature t = Some sg" and "\<not> has s sg" and "get_signature u = Some sg"
  shows "let s' = app_store (app_send_transaction has submit t m s) in
    app_store (app_send_transaction has submit u m' s') = s' \<and>
    app_spawned (app_send_transaction has submit u m' s') = None \<and>
    app_result (app_send_transaction has submit u m' s') = Inr (Inr sg)"
proof -
  let ?s = "app_store (app_send_transaction has submit t m s)"
  have "has ?s sg" using app_first(1) [OF assms(1-3), of m sg] by (simp add: has_find)
  from app_duplicate [OF assms(4) this] show ?thesis by (simp add: Let_def)
qed

end

lemma fst_track_transaction: "fst (track_transaction lib t s) = add_transaction t s"
  by (auto simp: track_transaction_def Let_def add_transaction_def split: option.split)

lemma fst_send_transaction: "fst (send_transaction lib leaders t s) = add_transaction t s"
  using fst_track_transaction [of lib t s] by (cases "track_transaction lib t s") (simp add: send_transaction_def)

interpretation sender: txn_sender has_signature add_transaction remove_transaction dm_get store_ok
    "send_transaction lib leaders" for lib leaders
  by unfold_locales (rule fst_send_transaction)

section \<open>The contract of the application\<close>

text \<open>What the server relies on: the state stays well formed and a returned text is the signature.\<close>

locale atlas_transaction =
  fixes app_send :: "transaction_data \<Rightarrow> request_metadata option \<Rightarrow> 's \<Rightarrow> ('s, 'w) app_outcome"
    and app_ok :: "'s \<Rightarrow> bool"
  assumes send_keeps: "app_ok s \<Longrightarrow> retry_count t \<le> max_retries t \<Longrightarrow> app_ok (app_store (app_send t m s))"
    and send_result: "app_result (app_send t m s) = Inr (Inr sg) \<Longrightarrow> get_signature t = Some sg"

interpretation application: atlas_transaction
    "app_send_transaction has_signature (send_transaction lib leaders)" store_ok for lib leaders
  by unfold_locales (auto intro: sender.app_keeps_ok dest: sender.app_result_signature)

section \<open>Properties\<close>

definition demo_application_data :: "string list \<Rightarrow> transaction_data" where
  "demo_application_data sgs =
     \<lparr>wire_transaction = [4], versioned_transaction = (demo_txn 1)\<lparr>signatures := map Signature sgs\<rparr>,
      sent_at = 0, retry_count = 0, max_retries = 5, request_metadata = None\<rparr>"

lemma demo_application_data_simps [simp]:
  "get_signature (demo_application_data (sg # sgs)) = Some sg"
  "get_signature (demo_application_data []) = None"
  "signatures (versioned_transaction (demo_application_data sgs)) = map Signature sgs"
  by (simp_all add: get_signature_def demo_application_data_def)

text \<open>
  A signed transaction whose signature is not queued is filed under it, once, with the record the
  server made, and its signature is the answer if the leaders and the priority were computed; a panic
  there still leaves it filed.
\<close>

theorem app_files_new:
  assumes "store_ok s" and "get_signature t = Some sg" and "\<not> has_signature s sg"
  shows "dm_get (app_store (app_send_transaction has_signature (send_transaction lib leaders) t m s))
      = (dm_get s)(sg \<mapsto> t) \<and>
    app_result (app_send_transaction has_signature (send_transaction lib leaders) t m s) =
      (case compute_priority_details lib (versioned_transaction t) of
         Inl e \<Rightarrow> Inl e
       | Inr d \<Rightarrow> (case leaders of Inl e \<Rightarrow> Inl e | Inr ls \<Rightarrow> Inr (Inr sg)))"
proof
  show "dm_get (app_store (app_send_transaction has_signature (send_transaction lib leaders) t m s))
      = (dm_get s)(sg \<mapsto> t)"
    using sender.app_first(1) [OF assms] by (auto simp: fun_eq_iff)
  show "app_result (app_send_transaction has_signature (send_transaction lib leaders) t m s) =
      (case compute_priority_details lib (versioned_transaction t) of
         Inl e \<Rightarrow> Inl e
       | Inr d \<Rightarrow> (case leaders of Inl e \<Rightarrow> Inl e | Inr ls \<Rightarrow> Inr (Inr sg)))"
    unfolding sender.app_first(3) [OF assms]
    using assms(2) by (simp add: send_transaction_def track_transaction_def Let_def split: sum.split)
qed

theorem app_files_new_witness:
  "dm_get (app_store (app_send_transaction has_signature (send_transaction demo_lib (Inl Arith_overflow))
      (demo_application_data [''x'']) None new_store)) ''x'' = Some (demo_application_data [''x'']) \<and>
   app_result (app_send_transaction has_signature (send_transaction demo_lib (Inl Arith_overflow))
      (demo_application_data [''x'']) None new_store) = Inl Arith_overflow"
proof -
  have "\<not> has_signature new_store ''x''"
    by (simp add: has_signature_def dm_contains_key_def new_store_def)
  moreover have "\<exists>d. compute_priority_details demo_lib (versioned_transaction (demo_application_data [''x''])) = Inr d"
    by (simp add: compute_priority_details_def demo_lib_def demo_txn_def demo_application_data_def
        program_of_def limit_after_def)
  ultimately show ?thesis
    using app_files_new [OF store_ok_new, of "demo_application_data [''x'']" "''x''" demo_lib
        "Inl Arith_overflow" None]
    by auto
qed

text \<open>
  C10: A second request with a signature that was filed answers with the signature, spawns nothing and
  changes nothing, even if the first submission panicked; the two requests may differ in everything
  else.
\<close>

theorem app_ignores_duplicate:
  assumes "store_ok s" and "get_signature t = Some sg" and "\<not> has_signature s sg" and "get_signature u = Some sg"
    and "s' = app_store (app_send_transaction has_signature (send_transaction lib leaders) t m s)"
  shows "app_store (app_send_transaction has_signature (send_transaction lib' leaders') u m' s') = s' \<and>
    app_spawned (app_send_transaction has_signature (send_transaction lib' leaders') u m' s') = None \<and>
    app_result (app_send_transaction has_signature (send_transaction lib' leaders') u m' s') = Inr (Inr sg)"
proof -
  have "has_signature s' sg"
    using sender.app_first(1) [OF assms(1-3), of lib leaders m sg] assms(5) by (simp add: ts.has_find)
  from sender.app_duplicate [OF assms(4) this] show ?thesis by simp
qed

theorem app_ignores_duplicate_witness:
  "app_spawned (app_send_transaction has_signature (send_transaction demo_lib (Inr [demo_contact ''A'']))
      (demo_application_data [''x'', ''y'']) None
      (app_store (app_send_transaction has_signature (send_transaction demo_lib (Inl Arith_overflow))
        (demo_application_data [''x'']) None new_store))) = None"
proof -
  have "\<not> has_signature new_store ''x''"
    by (simp add: has_signature_def dm_contains_key_def new_store_def)
  from app_ignores_duplicate [OF store_ok_new _ this, of "demo_application_data [''x'']"
      "demo_application_data [''x'', ''y'']" _ demo_lib "Inl Arith_overflow" None demo_lib
      "Inr [demo_contact ''A'']" None]
  show ?thesis by simp
qed

text \<open>
  A transaction without signatures makes the request panic before anything happens, and, when the
  log level is on, one such member makes a whole bundle panic before any of it is submitted.
\<close>

theorem unsigned_panics:
  assumes "signatures (versioned_transaction t) = []" and "t \<in> set ts"
  shows "app_send_transaction has_signature (send_transaction lib leaders) t m s =
      \<lparr>app_store = s, app_metrics = [], app_spawned = None, app_result = Inl Index_out_of_range\<rparr> \<and>
    app_send_transaction_bundle True submit_bundle elapsed ts m enc =
      Some \<lparr>bundle_app_metrics = [], bundle_sender_effects = None, app_bundle_result = Inl Index_out_of_range\<rparr>"
proof
  show "app_send_transaction has_signature (send_transaction lib leaders) t m s =
      \<lparr>app_store = s, app_metrics = [], app_spawned = None, app_result = Inl Index_out_of_range\<rparr>"
    using assms(1) by (intro sender.app_unsigned) (simp add: get_signature_def)
  let ?f = "\<lambda>t. index (signatures (versioned_transaction t)) 0"
  have "try_map ?f ts = Inl Index_out_of_range"
    using assms(2,1)
  proof (induction ts)
    case (Cons u ts)
    then show ?case by (cases "signatures (versioned_transaction u)") auto
  qed simp
  then show "app_send_transaction_bundle True submit_bundle elapsed ts m enc =
      Some \<lparr>bundle_app_metrics = [], bundle_sender_effects = None, app_bundle_result = Inl Index_out_of_range\<rparr>"
    by (simp add: app_send_transaction_bundle_def)
qed

theorem unsigned_panics_witness:
  "app_bundle_result (the (app_send_transaction_bundle True (\<lambda>ts enc key. Some ((), Inr (Inr ([], [])))) 3
      [demo_application_data [''x''], demo_application_data []] None Base58)) = Inl Index_out_of_range"
  using unsigned_panics [of "demo_application_data []"
      "[demo_application_data [''x''], demo_application_data []]" demo_lib "Inr []" None new_store
      "\<lambda>ts enc key. Some ((), Inr (Inr ([], [])))" 3 Base58]
  by simp

end
