(* ===== verification/Rpc_Server.thy ===== *)
theory Rpc_Server
  imports Application
begin

text \<open>
  \<open>server/rpc_server.rs\<close>: the JSON-RPC methods. Parameters are validated, the text is decoded into a
  transaction and its record, and the application is called; every failure before that is an
  \<open>INVALID_PARAMS\<close> error. How the libraries print an error object and an encoding and which binary
  encoding a requested encoding means are the fields of \<open>server_lib\<close>; \<open>encodings_ok\<close> states what the
  documentation says of the last.
\<close>

record server_lib =
  show_error_object :: "error_object \<Rightarrow> string"
  into_binary_encoding :: "ui_transaction_encoding \<Rightarrow> transaction_binary_encoding option"
  show_encoding :: "ui_transaction_encoding \<Rightarrow> string"

definition encodings_ok :: "server_lib \<Rightarrow> bool" where
  "encodings_ok L \<longleftrightarrow>
     into_binary_encoding L Ui_Binary = Some Base58 \<and> into_binary_encoding L Ui_Base58 = Some Base58 \<and>
     into_binary_encoding L Ui_Base64 = Some Base64 \<and>
     into_binary_encoding L Ui_Json = None \<and> into_binary_encoding L Ui_JsonParsed = None"

definition health :: string where
  "health = ''ok''"

definition validate_send_transaction_params :: "rpc_send_transaction_config \<Rightarrow> error_object + unit" where
  "validate_send_transaction_params params =
     (if \<not> skip_preflight params
      then Inl (invalid_request ''running preflight check is not supported'') else Inr ())"

text \<open>The lines both handlers begin with.\<close>

definition request_encoding ::
  "server_lib \<Rightarrow> rpc_send_transaction_config \<Rightarrow> error_object + transaction_binary_encoding" where
  "request_encoding L params =
     and_then (validate_send_transaction_params params) (\<lambda>_.
       let enc = unwrap_or Ui_Base58 (encoding params) in
       case into_binary_encoding L enc of
         None \<Rightarrow> Inl (invalid_request (''unsupported encoding: '' @ show_encoding L enc @
                        ''. Supported encodings: base58, base64''))
       | Some binary_encoding \<Rightarrow> Inr binary_encoding)"

definition create_transaction_data ::
  "server_lib \<Rightarrow> versioned_transaction codec \<Rightarrow> usize \<Rightarrow> instant \<Rightarrow> rpc_send_transaction_config \<Rightarrow>
   request_metadata option \<Rightarrow> transaction_binary_encoding \<Rightarrow> string \<Rightarrow> error_object + transaction_data" where
  "create_transaction_data L c max_txn_send_retries now params metadata enc tx_raw =
     (case decode_and_deserialize c tx_raw enc of
        Inl e \<Rightarrow> Inl (invalid_request (show_error_object L e))
      | Inr (wire, tx) \<Rightarrow>
          Inr \<lparr>wire_transaction = wire, versioned_transaction = tx, sent_at = now, retry_count = 0,
               max_retries = min max_txn_send_retries
                 (unwrap_or max_txn_send_retries (rpc_max_retries params)),
               request_metadata = metadata\<rparr>)"

text \<open>
  \<open>send_transaction\<close>: \<open>app_send\<close> is the application's method; the new state, what was spawned, and the
  answer, or the panic the request dies of.
\<close>

definition server_send_transaction ::
  "server_lib \<Rightarrow> versioned_transaction codec \<Rightarrow> usize \<Rightarrow> instant \<Rightarrow>
   (transaction_data \<Rightarrow> request_metadata option \<Rightarrow> 's \<Rightarrow> ('s, 'w) app_outcome) \<Rightarrow>
   string \<Rightarrow> rpc_send_transaction_config \<Rightarrow> request_metadata option \<Rightarrow> 's \<Rightarrow>
   's \<times> 'w option \<times> (panic + (error_object + string))" where
  "server_send_transaction L c max_txn_send_retries now app_send txn params metadata s =
     (case and_then (request_encoding L params) (\<lambda>enc.
             create_transaction_data L c max_txn_send_retries now params metadata enc txn) of
        Inl e \<Rightarrow> (s, None, Inr (Inl e))
      | Inr transaction \<Rightarrow>
          (let r = app_send transaction metadata s in
           (app_store r, app_spawned r, map_sum id (map_err error_into_object) (app_result r))))"

text \<open>
  \<open>send_transaction_bundle\<close>: \<open>now i\<close> is the clock when the \<open>i\<close>-th text is decoded, \<open>app_bundle\<close> the
  application's method.
\<close>

fun decode_bundle ::
  "(nat \<Rightarrow> string \<Rightarrow> error_object + transaction_data) \<Rightarrow> nat \<Rightarrow> string list \<Rightarrow>
   error_object + transaction_data list" where
  "decode_bundle create i [] = Inr []"
| "decode_bundle create i (txn # txns) =
     and_then (create i txn) (\<lambda>t.
       and_then (decode_bundle create (Suc i) txns) (\<lambda>ts. Inr (t # ts)))"

definition server_send_transaction_bundle ::
  "server_lib \<Rightarrow> versioned_transaction codec \<Rightarrow> usize \<Rightarrow> (nat \<Rightarrow> instant) \<Rightarrow>
   (transaction_data list \<Rightarrow> request_metadata option \<Rightarrow> transaction_binary_encoding \<Rightarrow>
      'b app_bundle_outcome option) \<Rightarrow>
   string list \<Rightarrow> rpc_send_transaction_config \<Rightarrow> request_metadata option \<Rightarrow>
   ('b option \<times> (panic + (error_object + bundle_response))) option" where
  "server_send_transaction_bundle L c max_txn_send_retries now app_bundle txns params metadata =
     (case and_then (request_encoding L params) (\<lambda>enc.
             and_then (decode_bundle
                 (\<lambda>i. create_transaction_data L c max_txn_send_retries (now i) params metadata enc) 0 txns)
               (\<lambda>ts. Inr (enc, ts))) of
        Inl e \<Rightarrow> Some (None, Inr (Inl e))
      | Inr (enc, ts) \<Rightarrow>
          map_option (\<lambda>r. (bundle_sender_effects r,
              map_sum id (map_err (\<lambda>e. error_into_object (Custom (display_error e)))) (app_bundle_result r)))
            (app_bundle ts metadata enc))"

section \<open>Facts\<close>

lemma request_encoding_default:
  "encodings_ok L \<Longrightarrow> skip_preflight params \<Longrightarrow> encoding params = None \<Longrightarrow>
     request_encoding L params = Inr Base58"
  by (simp add: request_encoding_def validate_send_transaction_params_def encodings_ok_def Let_def)

lemma request_encoding_Inl:
  "request_encoding L params = Inl e \<Longrightarrow> code e = INVALID_PARAMS_CODE"
  by (auto simp: request_encoding_def validate_send_transaction_params_def invalid_request_def Let_def
      split: if_splits option.splits)

lemma create_transaction_data_Inr:
  "create_transaction_data L c mx now params metadata enc txn = Inr t \<longleftrightarrow>
     (\<exists>wire tx. decode_and_deserialize c txn enc = Inr (wire, tx) \<and>
        t = \<lparr>wire_transaction = wire, versioned_transaction = tx, sent_at = now, retry_count = 0,
             max_retries = min mx (unwrap_or mx (rpc_max_retries params)), request_metadata = metadata\<rparr>)"
  by (auto simp: create_transaction_data_def split: sum.splits)

lemma create_transaction_data_Inl:
  "create_transaction_data L c mx now params metadata enc txn = Inl e \<Longrightarrow> code e = INVALID_PARAMS_CODE"
  by (auto simp: create_transaction_data_def invalid_request_def split: sum.splits)

lemma created_bounded:
  "create_transaction_data L c mx now params metadata enc txn = Inr t \<Longrightarrow>
     retry_count t = 0 \<and> max_retries t \<le> mx \<and> retry_count t \<le> max_retries t"
  by (auto simp: create_transaction_data_Inr)

lemma decode_bundle_Inr:
  "decode_bundle create i txns = Inr ts \<longleftrightarrow>
     length ts = length txns \<and> (\<forall>j < length txns. create (i + j) (txns ! j) = Inr (ts ! j))"
proof (induction txns arbitrary: i ts)
  case (Cons txn txns)
  show ?case
  proof
    assume "decode_bundle create i (txn # txns) = Inr ts"
    then obtain t ts' where t: "ts = t # ts'" "create i txn = Inr t"
        "decode_bundle create (Suc i) txns = Inr ts'"
      by (auto simp: and_then_eq_Inr)
    with Cons.IH show "length ts = length (txn # txns) \<and>
        (\<forall>j < length (txn # txns). create (i + j) ((txn # txns) ! j) = Inr (ts ! j))"
      by (auto simp: nth_Cons split: nat.split)
  next
    assume r: "length ts = length (txn # txns) \<and>
        (\<forall>j < length (txn # txns). create (i + j) ((txn # txns) ! j) = Inr (ts ! j))"
    then obtain t ts' where ts: "ts = t # ts'" by (cases ts) auto
    have "create i txn = Inr t" using r ts by force
    moreover have "create (Suc i + j) (txns ! j) = Inr (ts' ! j)" if "j < length txns" for j
      using r ts that by (auto dest: spec [of _ "Suc j"])
    ultimately show "decode_bundle create i (txn # txns) = Inr ts"
      using Cons.IH [of "Suc i" ts'] r ts by simp
  qed
qed auto

lemma decode_bundle_Inl:
  "decode_bundle create i txns = Inl e \<Longrightarrow> \<exists>j < length txns. create (i + j) (txns ! j) = Inl e"
proof (induction txns arbitrary: i)
  case (Cons txn txns)
  show ?case
  proof (cases "create i txn")
    case (Inl d)
    with Cons.prems show ?thesis by force
  next
    case (Inr t)
    with Cons.prems have "decode_bundle create (Suc i) txns = Inl e" by (auto simp: and_then_eq_Inl)
    from Cons.IH [OF this] obtain j where "j < length txns" "create (Suc i + j) (txns ! j) = Inl e" by blast
    then show ?thesis by (intro exI [of _ "Suc j"]) simp
  qed
qed simp

section \<open>What the server gains from the application's contract\<close>

context atlas_transaction
begin

lemma server_keeps_ok:
  assumes "app_ok s"
  shows "app_ok (fst (server_send_transaction L c mx now app_send txn params m s))"
proof (cases "and_then (request_encoding L params) (\<lambda>enc. create_transaction_data L c mx now params m enc txn)")
  case (Inr t)
  then have "retry_count t \<le> max_retries t" by (auto simp: and_then_eq_Inr dest: created_bounded)
  with Inr assms show ?thesis by (simp add: server_send_transaction_def Let_def send_keeps)
qed (simp add: server_send_transaction_def assms)

lemma server_answer:
  assumes "server_send_transaction L c mx now app_send txn params m s = (s', w, Inr (Inr sg))"
  obtains enc wire tx sg1 sgs where "request_encoding L params = Inr enc"
    and "decode_and_deserialize c txn enc = Inr (wire, tx)" and "signatures tx = sg1 # sgs"
    and "sg = sig_text sg1"
proof -
  obtain enc t where enc: "request_encoding L params = Inr enc"
    and t: "create_transaction_data L c mx now params m enc txn = Inr t"
    and res: "app_result (app_send t m s) = Inr (Inr sg)"
    using assms
    by (auto simp: server_send_transaction_def Let_def and_then_eq_Inr and_then_eq_Inl map_sum_def id_def
        split: sum.splits elim: map_err.elims)
  from send_result [OF res] t enc that show thesis
    by (auto simp: create_transaction_data_Inr get_signature_def split: list.splits)
qed

end

section \<open>The assembled methods\<close>

text \<open>The methods over the application and the sender of this program.\<close>

definition rpc_send ::
  "server_lib \<Rightarrow> versioned_transaction codec \<Rightarrow> usize \<Rightarrow> instant \<Rightarrow> budget_lib \<Rightarrow>
   panic + contact_info list \<Rightarrow> string \<Rightarrow> rpc_send_transaction_config \<Rightarrow> request_metadata option \<Rightarrow>
   tx_store \<Rightarrow> tx_store \<times> (confirm_task option \<times> send_task list) option \<times> (panic + (error_object + string))" where
  "rpc_send L c mx now lib leaders =
     server_send_transaction L c mx now (app_send_transaction has_signature (send_transaction lib leaders))"

text \<open>The bundle method of the sender never returns its own error.\<close>

definition rpc_send_bundle where
  "rpc_send_bundle L c mx now info_enabled elapsed caches node =
     server_send_transaction_bundle L c mx now
       (app_send_transaction_bundle info_enabled
         (\<lambda>ts enc key. map_option (\<lambda>(eff, r). (eff, map_sum id Inr r))
            (send_transaction_bundle c caches node ts enc key)) elapsed)"

lemma rpc_send_created:
  assumes "request_encoding L params = Inr enc"
    and "create_transaction_data L c mx now params m enc txn = Inr t"
  shows "rpc_send L c mx now lib leaders txn params m s =
    (let r = app_send_transaction has_signature (send_transaction lib leaders) t m s in
     (app_store r, app_spawned r, map_sum id (map_err error_into_object) (app_result r)))"
  using assms by (simp add: rpc_send_def server_send_transaction_def)

section \<open>Properties\<close>

definition demo_server :: server_lib where
  "demo_server = \<lparr>show_error_object = message,
     into_binary_encoding = (\<lambda>e. case e of Ui_Binary \<Rightarrow> Some Base58 | Ui_Base58 \<Rightarrow> Some Base58
       | Ui_Base64 \<Rightarrow> Some Base64 | Ui_Json \<Rightarrow> None | Ui_JsonParsed \<Rightarrow> None),
     show_encoding = (\<lambda>e. ''encoding'')\<rparr>"

lemma demo_server_ok: "encodings_ok demo_server"
  by (simp add: encodings_ok_def demo_server_def)

definition demo_params :: "ui_transaction_encoding option \<Rightarrow> usize option \<Rightarrow> rpc_send_transaction_config" where
  "demo_params e r = \<lparr>skip_preflight = True, preflight_commitment = None, encoding = e,
     rpc_max_retries = r, min_context_slot = None\<rparr>"

definition server_codec :: "versioned_transaction codec" where
  "server_codec = \<lparr>bs58_encode = raw_encode, bs58_decode = raw_decode,
     base64_encode = raw_encode, base64_decode = raw_decode,
     bincode_serialize = (\<lambda>n t. if t = demo_txn 1 \<and> 0 < n then Inr [7] else Inl ''unsupported''),
     bincode_deserialize = (\<lambda>n b. if b = [7] then Inr (demo_txn 1) else Inl ''bad bytes''),
     PACKET_DATA_SIZE = 1232\<rparr>"

lemma server_codec_ok: "codec_ok server_codec"
  by (simp add: codec_ok_def server_codec_def bincode_ok_def raw_text_ok MAX_BASE58_SIZE_def
      MAX_BASE64_SIZE_def)

lemma server_codec_wire:
  "encode_and_serialize server_codec (demo_txn 1) enc = Inr (raw_encode [7])"
  by (cases enc) (simp_all add: encode_and_serialize_def serialize_wire_def server_codec_def)

lemma server_codec_bad:
  "decode_and_deserialize server_codec (raw_encode [8]) Base58 = Inl (invalid_request ''failed to deserialize: bad bytes'')"
  by (simp add: decode_and_deserialize_def MAX_BASE58_SIZE_def server_codec_def)
    (simp add: raw_encode_def)

text \<open>
  C13: \<open>sendTransaction\<close> answers with an error object exactly when preflight was not skipped, the
  encoding is neither base58 nor base64, or the text does not decode; every such error has the code of
  invalid parameters, and then the queue is unchanged and nothing was spawned.
\<close>

theorem server_errors:
  assumes "encodings_ok L" and "rpc_send L c mx now lib leaders txn params m s = (s', w, r)"
  shows "((\<exists>e. r = Inr (Inl e)) \<longleftrightarrow>
      \<not> skip_preflight params \<or>
      (\<forall>enc. into_binary_encoding L (unwrap_or Ui_Base58 (encoding params)) = Some enc \<longrightarrow>
         (\<exists>e. decode_and_deserialize c txn enc = Inl e))) \<and>
    (\<forall>e. r = Inr (Inl e) \<longrightarrow> code e = INVALID_PARAMS_CODE \<and> s' = s \<and> w = None)"
proof (cases "and_then (request_encoding L params) (\<lambda>enc. create_transaction_data L c mx now params m enc txn)")
  case (Inl e)
  then have "code e = INVALID_PARAMS_CODE"
    by (auto simp: and_then_eq_Inl dest: request_encoding_Inl create_transaction_data_Inl)
  moreover have "s' = s \<and> w = None \<and> r = Inr (Inl e)"
    using assms(2) Inl by (simp add: rpc_send_def server_send_transaction_def)
  moreover have "\<not> skip_preflight params \<or>
      (\<forall>enc. into_binary_encoding L (unwrap_or Ui_Base58 (encoding params)) = Some enc \<longrightarrow>
         (\<exists>e. decode_and_deserialize c txn enc = Inl e))"
    using Inl by (auto simp: request_encoding_def validate_send_transaction_params_def
        create_transaction_data_def Let_def split: if_splits option.splits sum.splits)
  ultimately show ?thesis by auto
next
  case (Inr t)
  then obtain enc where enc: "request_encoding L params = Inr enc"
    and t: "create_transaction_data L c mx now params m enc txn = Inr t"
    by (auto simp: and_then_eq_Inr)
  have "r = map_sum id (map_err error_into_object)
      (app_result (app_send_transaction has_signature (send_transaction lib leaders) t m s))"
    using assms(2) by (simp add: rpc_send_created [OF enc t] Let_def)
  then have "\<not> (\<exists>e. r = Inr (Inl e))"
    using sender.app_never_fails [of lib leaders t m s]
    by (auto simp: map_sum_def id_def split: sum.splits elim: map_err.elims)
  moreover have "skip_preflight params"
      "into_binary_encoding L (unwrap_or Ui_Base58 (encoding params)) = Some enc"
    using enc by (auto simp: request_encoding_def validate_send_transaction_params_def Let_def
        split: if_splits option.splits)
  moreover have "\<exists>p. decode_and_deserialize c txn enc = Inr p"
    using t by (auto simp: create_transaction_data_Inr)
  ultimately show ?thesis by auto
qed

theorem server_errors_witness:
  "\<exists>s' w e. rpc_send demo_server server_codec 5 0 demo_lib (Inr []) (raw_encode [8])
      (demo_params None None) None new_store = (s', w, Inr (Inl e)) \<and>
    code e = INVALID_PARAMS_CODE \<and> s' = new_store \<and> w = None"
proof -
  obtain s' w r where run: "rpc_send demo_server server_codec 5 0 demo_lib (Inr []) (raw_encode [8])
      (demo_params None None) None new_store = (s', w, r)"
    by (metis prod_cases3)
  from server_errors [OF demo_server_ok run] run show ?thesis
    by (auto simp: demo_server_def demo_params_def server_codec_bad)
qed

text \<open>
  C9: A transaction encoded as a client encodes it and sent with preflight skipped is filed under its
  first signature with retry count 0 and a bound that is the smaller of the client's and the server's;
  the answer is that signature.
\<close>

theorem server_end_to_end:
  assumes "codec_ok c" and "encodings_ok L" and "store_ok s"
    and "skip_preflight params" and "into_binary_encoding L (unwrap_or Ui_Base58 (encoding params)) = Some enc"
    and "encode_and_serialize c tx enc = Inr txn" and "signatures tx = sg # sgs"
    and "\<not> has_signature s (sig_text sg)"
    and "compute_priority_details lib tx = Inr d" and "leaders = Inr ls"
  shows "\<exists>wire s' w. rpc_send L c mx now lib leaders txn params m s = (s', w, Inr (Inr (sig_text sg))) \<and>
    dm_get s' = (dm_get s)(sig_text sg \<mapsto>
      \<lparr>wire_transaction = wire, versioned_transaction = tx, sent_at = now, retry_count = 0,
       max_retries = min mx (unwrap_or mx (rpc_max_retries params)), request_metadata = m\<rparr>)"
proof -
  obtain wire where "decode_and_deserialize c txn enc = Inr (wire, tx)"
    using decode_encode [OF assms(1,6)] by blast
  let ?t = "\<lparr>wire_transaction = wire, versioned_transaction = tx, sent_at = now, retry_count = 0,
      max_retries = min mx (unwrap_or mx (rpc_max_retries params)), request_metadata = m\<rparr>"
  have enc: "request_encoding L params = Inr enc"
    using assms(4,5) by (simp add: request_encoding_def validate_send_transaction_params_def Let_def)
  have t: "create_transaction_data L c mx now params m enc txn = Inr ?t"
    using \<open>decode_and_deserialize c txn enc = Inr (wire, tx)\<close> by (simp add: create_transaction_data_Inr)
  have sig: "get_signature ?t = Some (sig_text sg)" using assms(7) by (simp add: get_signature_def)
  let ?r = "app_send_transaction has_signature (send_transaction lib leaders) ?t m s"
  have "dm_get (app_store ?r) = (dm_get s)(sig_text sg \<mapsto> ?t)"
    using sender.app_first(1) [OF assms(3) sig assms(8)] by (auto simp: fun_eq_iff)
  moreover have "app_result ?r = Inr (Inr (sig_text sg))"
    unfolding sender.app_first(3) [OF assms(3) sig assms(8)]
    using assms(9,10) sig by (simp add: send_transaction_def track_transaction_def Let_def)
  ultimately show ?thesis by (auto simp: rpc_send_created [OF enc t] Let_def)
qed

theorem server_end_to_end_witness:
  "\<exists>wire s' w. rpc_send demo_server server_codec 5 0 demo_lib (Inr [demo_contact ''A'']) (raw_encode [7])
      (demo_params (Some Ui_Base64) (Some 3)) None new_store = (s', w, Inr (Inr ''sig'')) \<and>
    dm_get s' ''sig'' = Some \<lparr>wire_transaction = wire, versioned_transaction = demo_txn 1, sent_at = 0,
      retry_count = 0, max_retries = min 5 3, request_metadata = None\<rparr>"
proof -
  have fresh: "\<not> has_signature new_store (sig_text (Signature ''sig''))"
    by (simp add: has_signature_def dm_contains_key_def new_store_def)
  obtain d where d: "compute_priority_details demo_lib (demo_txn 1) = Inr d"
    by (simp add: compute_priority_details_def demo_lib_def demo_txn_def program_of_def limit_after_def)
  let ?params = "demo_params (Some Ui_Base64) (Some 3)"
  have params: "skip_preflight ?params"
    "into_binary_encoding demo_server (unwrap_or Ui_Base58 (encoding ?params)) = Some Base64"
    by (simp_all add: demo_params_def demo_server_def)
  have "signatures (demo_txn 1) = [Signature ''sig'']" by (simp add: demo_txn_def)
  from server_end_to_end [OF server_codec_ok demo_server_ok store_ok_new params server_codec_wire this fresh d refl,
      of 5 0 "[demo_contact ''A'']" None]
  obtain wire s' w where "rpc_send demo_server server_codec 5 0 demo_lib (Inr [demo_contact ''A'']) (raw_encode [7])
        ?params None new_store = (s', w, Inr (Inr (sig_text (Signature ''sig''))))"
    and "dm_get s' = (dm_get new_store)(sig_text (Signature ''sig'') \<mapsto>
      \<lparr>wire_transaction = wire, versioned_transaction = demo_txn 1, sent_at = 0, retry_count = 0,
       max_retries = min 5 (unwrap_or 5 (rpc_max_retries ?params)), request_metadata = None\<rparr>)"
    by blast
  then show ?thesis by (simp add: demo_params_def)
qed

text \<open>
  A bundle is decoded as a whole before any of it is sent: one member that does not decode makes
  the request fail with invalid parameters and nothing reaches the RPC node; otherwise the sender gets
  one record for each text, in order.
\<close>

theorem bundle_decoded_first:
  assumes "request_encoding L params = Inr enc"
  shows "(\<forall>j e. j < length txns \<longrightarrow> decode_and_deserialize c (txns ! j) enc = Inl e \<longrightarrow>
      (\<exists>e'. server_send_transaction_bundle L c mx now app_bundle txns params m = Some (None, Inr (Inl e')) \<and>
        code e' = INVALID_PARAMS_CODE)) \<and>
    ((\<forall>j < length txns. \<exists>p. decode_and_deserialize c (txns ! j) enc = Inr p) \<longrightarrow>
      (\<exists>ts. length ts = length txns \<and>
        (\<forall>j < length txns. create_transaction_data L c mx (now j) params m enc (txns ! j) = Inr (ts ! j)) \<and>
        server_send_transaction_bundle L c mx now app_bundle txns params m =
          map_option (\<lambda>r. (bundle_sender_effects r,
            map_sum id (map_err (\<lambda>e. error_into_object (Custom (display_error e)))) (app_bundle_result r)))
          (app_bundle ts m enc)))"
proof -
  let ?create = "\<lambda>i. create_transaction_data L c mx (now i) params m enc"
  show ?thesis
  proof (cases "decode_bundle ?create 0 txns")
    case (Inl e)
    then obtain j where j: "j < length txns" "?create j (txns ! j) = Inl e"
      using decode_bundle_Inl [OF Inl] by auto
    then have "code e = INVALID_PARAMS_CODE" by (auto dest: create_transaction_data_Inl)
    moreover have "server_send_transaction_bundle L c mx now app_bundle txns params m = Some (None, Inr (Inl e))"
      using assms Inl by (simp add: server_send_transaction_bundle_def)
    moreover have "\<not> (\<exists>p. decode_and_deserialize c (txns ! j) enc = Inr p)"
      using j(2) by (auto simp: create_transaction_data_def split: sum.splits)
    ultimately show ?thesis using j(1) by blast
  next
    case (Inr ts)
    then have ts: "length ts = length txns" "\<forall>j < length txns. ?create j (txns ! j) = Inr (ts ! j)"
      by (simp_all add: decode_bundle_Inr)
    then have "\<forall>j < length txns. \<forall>e. decode_and_deserialize c (txns ! j) enc \<noteq> Inl e"
      by (metis create_transaction_data_Inr Inl_Inr_False)
    moreover have "server_send_transaction_bundle L c mx now app_bundle txns params m =
          map_option (\<lambda>r. (bundle_sender_effects r,
            map_sum id (map_err (\<lambda>e. error_into_object (Custom (display_error e)))) (app_bundle_result r)))
          (app_bundle ts m enc)"
      using assms Inr by (simp add: server_send_transaction_bundle_def)
    ultimately show ?thesis using ts by blast
  qed
qed

theorem bundle_decoded_first_witness:
  "\<exists>e. server_send_transaction_bundle demo_server server_codec 5 (\<lambda>_. 0)
      (\<lambda>ts m enc. None :: unit app_bundle_outcome option) [raw_encode [7], raw_encode [8]]
      (demo_params None None) None = Some (None, Inr (Inl e)) \<and> code e = INVALID_PARAMS_CODE"
proof -
  have "request_encoding demo_server (demo_params None None) = Inr Base58"
    using demo_server_ok by (rule request_encoding_default) (simp_all add: demo_params_def)
  from bundle_decoded_first [OF this, of "[raw_encode [7], raw_encode [8]]" server_codec 5 "\<lambda>_. 0"
      "\<lambda>ts m enc. None :: unit app_bundle_outcome option" None]
  show ?thesis by (auto simp: server_codec_bad dest: spec [of _ 1])
qed

section \<open>Dispatch\<close>

text \<open>
  The trait \<open>AtlasTxnSender\<close>: a call names its method and carries its parameters; \<open>None\<close> is a bundle
  whose confirmation never ends.
\<close>

datatype rpc_request =
    Health_call
  | Transaction_call string rpc_send_transaction_config "request_metadata option"
  | Bundle_call "string list" rpc_send_transaction_config "request_metadata option"

fun method_name :: "rpc_request \<Rightarrow> string" where
  "method_name Health_call = ''health''"
| "method_name (Transaction_call txn params m) = ''sendTransaction''"
| "method_name (Bundle_call txns params m) = ''sendTransactionBundle''"

datatype rpc_answer = Text_answer string | Bundle_answer bundle_response

record server_world =
  at_time :: "nat \<Rightarrow> instant"
  now_leaders :: "panic + contact_info list"
  info_logged :: bool
  bundle_time :: duration
  known_hashes :: "nat \<Rightarrow> (hash, u64) dashmap"
  rpc_nodes :: "nat \<Rightarrow> rpc_node"

fun dispatch ::
  "server_lib \<Rightarrow> versioned_transaction codec \<Rightarrow> usize \<Rightarrow> budget_lib \<Rightarrow> server_world \<Rightarrow> rpc_request \<Rightarrow> tx_store \<Rightarrow>
   (tx_store \<times> (panic + (error_object + rpc_answer))) option" where
  "dispatch L c mx lib W Health_call s = Some (s, Inr (Inr (Text_answer health)))"
| "dispatch L c mx lib W (Transaction_call txn params m) s =
     (case rpc_send L c mx (at_time W 0) lib (now_leaders W) txn params m s of
        (s', spawned, r) \<Rightarrow> Some (s', map_sum id (map_sum id Text_answer) r))"
| "dispatch L c mx lib W (Bundle_call txns params m) s =
     map_option (\<lambda>(eff, r). (s, map_sum id (map_sum id Bundle_answer) r))
       (rpc_send_bundle L c mx (at_time W) (info_logged W) (bundle_time W) (known_hashes W) (rpc_nodes W) txns params m)"

text \<open>
  C28: No request takes a queued transaction out of the queue or alters its record: whatever is called
  with whatever parameters, the queue stays well formed, keeps every entry, and gains at most one,
  and that only from \<open>sendTransaction\<close>.
\<close>

theorem requests_only_add:
  assumes "store_ok s" and "dispatch L c mx lib W req s = Some (s', r)"
  shows "store_ok s' \<and> (\<forall>k t. dm_get s k = Some t \<longrightarrow> dm_get s' k = Some t) \<and> length s' \<le> Suc (length s) \<and>
    (s' \<noteq> s \<longrightarrow> method_name req = ''sendTransaction'')"
proof (cases req)
  case Health_call
  then show ?thesis using assms by simp
next
  case (Bundle_call txns params m)
  then have "s' = s" using assms(2) by auto
  then show ?thesis using assms(1) by simp
next
  case (Transaction_call txn params m)
  then obtain spawned res where run: "rpc_send L c mx (at_time W 0) lib (now_leaders W) txn params m s = (s', spawned, res)"
    using assms(2) by (auto split: prod.splits)
  show ?thesis
  proof (cases "and_then (request_encoding L params) (\<lambda>enc.
      create_transaction_data L c mx (at_time W 0) params m enc txn)")
    case (Inl e)
    then have "s' = s" using run by (simp add: rpc_send_def server_send_transaction_def)
    then show ?thesis using assms(1) Transaction_call by simp
  next
    case (Inr t)
    then have bound: "retry_count t \<le> max_retries t" by (auto simp: and_then_eq_Inr dest: created_bounded)
    let ?app = "app_send_transaction has_signature (send_transaction lib (now_leaders W)) t m s"
    have s': "s' = app_store ?app" using run Inr by (simp add: rpc_send_def server_send_transaction_def Let_def)
    have "s' = s \<or> s' = add_transaction t s"
    proof (cases rule: sender.app_cases [where t = t and s = s])
      case (first sg)
      with s' fst_send_transaction [of lib "now_leaders W" t s] show ?thesis
        by (auto simp: app_send_transaction_def get_signature_def Let_def split: list.splits prod.splits sum.splits)
    qed (use s' in \<open>simp_all add: sender.app_unsigned sender.app_duplicate\<close>)
    then show ?thesis
      using assms(1) bound Transaction_call ts.add_keeps_first [OF assms(1)]
      by (auto simp: store_ok_add length_add_transaction split: option.split)
  qed
qed

theorem requests_only_add_witness:
  "\<exists>s' r. dispatch demo_server server_codec 5 demo_lib \<lparr>at_time = (\<lambda>_. 0), now_leaders = Inr [], info_logged = True,
      bundle_time = 0, known_hashes = (\<lambda>_. []), rpc_nodes = (\<lambda>_. demo_node (\<lambda>_. Inr ''sig''))\<rparr>
      (Transaction_call (raw_encode [7]) (demo_params None None) None) new_store = Some (s', r) \<and> store_ok s' \<and> length s' \<le> 1"
proof -
  let ?W = "\<lparr>at_time = (\<lambda>_. 0), now_leaders = Inr [], info_logged = True, bundle_time = 0, known_hashes = (\<lambda>_. []),
    rpc_nodes = (\<lambda>_. demo_node (\<lambda>_. Inr ''sig''))\<rparr>"
  have "\<exists>s' r. dispatch demo_server server_codec 5 demo_lib ?W
      (Transaction_call (raw_encode [7]) (demo_params None None) None) new_store = Some (s', r)"
    by (simp add: split_beta)
  then obtain s' r where run: "dispatch demo_server server_codec 5 demo_lib ?W
      (Transaction_call (raw_encode [7]) (demo_params None None) None) new_store = Some (s', r)"
    by blast
  from requests_only_add [OF store_ok_new run] run show ?thesis by (auto simp: new_store_def)
qed

end
