(* ===== verification/Sender_Properties.thy ===== *)
theory Sender_Properties
  imports Txn_Sender
begin

text \<open>
  What the sender of \<open>Txn_Sender\<close> guarantees: the tags of its metrics, the tasks it spawns for a
  transaction, the retry loop against its specification on maps, load shedding, tracking and the
  bundle path.
\<close>

section \<open>Metrics and sends\<close>

lemma sorted_halves:
  fixes c :: int
  assumes "sorted bins"
  shows "bins = filter (\<lambda>b. b \<le> c) bins @ filter (\<lambda>b. c < b) bins"
  using assms
proof (induction bins)
  case (Cons b bins)
  show ?case
  proof (cases "b \<le> c")
    case True
    with Cons show ?thesis by simp
  next
    case False
    with Cons.prems have "filter (\<lambda>b. b \<le> c) bins = []" "filter (\<lambda>b. c < b) bins = bins"
      by (auto simp: filter_empty_conv filter_id_conv)
    with False show ?thesis by simp
  qed
qed simp

lemma sorted_last_Max: "sorted xs \<Longrightarrow> xs \<noteq> [] \<Longrightarrow> List.last xs = Max (set xs)"
  by (induction xs) (auto simp: Max_insert2 max_def split: if_splits)

lemma sorted_hd_Min: "sorted xs \<Longrightarrow> xs \<noteq> [] \<Longrightarrow> hd xs = Min (set xs)"
  by (cases xs) (auto simp: Min_insert2)

text \<open>
  For sorted bins the tag of a counter names the largest bin at or below it and the smallest bin
  above it, open ends being \<open>-inf\<close> and \<open>inf\<close>.
\<close>

theorem bin_counter_tag:
  assumes "sorted bins"
  shows "bin_counter_to_tag (Some c) bins =
    (if \<exists>b \<in> set bins. b \<le> c then show_int (Max {b \<in> set bins. b \<le> c}) else ''-inf'') @ ''_'' @
    (if \<exists>b \<in> set bins. c < b then show_int (Min {b \<in> set bins. c < b}) else ''inf'')"
proof -
  let ?lo = "filter (\<lambda>b. b \<le> c) bins" and ?hi = "filter (\<lambda>b. c < b) bins"
  let ?e = "if ?hi = [] then ''inf'' else show_int (hd ?hi)"
  have "rev bins = rev ?hi @ rev ?lo" using sorted_halves [OF assms, of c] by (metis rev_append)
  moreover have "find_bin c (rev ?hi @ rev ?lo) ''-inf'' ''inf'' = find_bin c (rev ?lo) ''-inf'' ?e"
    by (subst find_bin_append) (auto simp: last_rev rev_is_Nil_conv)
  moreover have "find_bin c (rev ?lo) ''-inf'' ?e =
      (if ?lo = [] then ''-inf'' else show_int (List.last ?lo), ?e)"
  proof (cases "rev ?lo")
    case Nil
    then show ?thesis by simp
  next
    case (Cons x xs)
    then have lo: "?lo = rev xs @ [x]" by (metis rev.simps(2) rev_rev_ident)
    then have "x \<in> set ?lo" by simp
    then have "x \<le> c" by simp
    with lo show ?thesis by simp
  qed
  moreover have "List.last ?lo = Max {b \<in> set bins. b \<le> c}" if "?lo \<noteq> []"
    using sorted_last_Max [OF _ that] assms by (simp add: sorted_filter [of id, simplified])
  moreover have "hd ?hi = Min {b \<in> set bins. c < b}" if "?hi \<noteq> []"
    using sorted_hd_Min [OF _ that] assms by (simp add: sorted_filter [of id, simplified])
  moreover have "?lo = [] \<longleftrightarrow> \<not> (\<exists>b \<in> set bins. b \<le> c)" "?hi = [] \<longleftrightarrow> \<not> (\<exists>b \<in> set bins. c < b)"
    by (simp_all add: filter_empty_conv)
  ultimately show ?thesis by (simp add: bin_counter_to_tag_def)
qed

theorem bin_counter_tag_witness:
  "bin_counter_to_tag (Some 7) RETRY_COUNT_BINS =
     show_int (Max {b \<in> {0, 1, 2, 5, 10, 25}. b \<le> 7}) @ ''_'' @ show_int (Min {b \<in> {0, 1, 2, 5, 10, 25}. 7 < b})"
  using bin_counter_tag [of RETRY_COUNT_BINS 7] by (simp add: RETRY_COUNT_BINS_def)

text \<open>The metric of an attempt that did not get through.\<close>

definition failure_metric :: "send_task \<Rightarrow> (nat \<Rightarrow> send_outcome) \<Rightarrow> nat \<Rightarrow> metric" where
  "failure_metric task outcome i =
     (if outcome i = Timed_out then Count ''transaction_send_timeout'' []
      else Count ''transaction_send_error''
             [(''retry'', show_bool (task_retry task)), (''last_attempt'', show_bool (i = 9))])"

lemma send_attempts_failures:
  "\<forall>i \<in> set is. outcome i = Timed_out \<or> outcome i = Send_error \<Longrightarrow>
     send_attempts task outcome (is @ js) =
       (map (failure_metric task outcome) is @ fst (send_attempts task outcome js),
        snd (send_attempts task outcome js))"
  by (induction "is") (auto simp: failure_metric_def SEND_TXN_RETRIES_def)

text \<open>
  A spawned send tries its leader until the data went through, at most ten times, a timeout
  counting as a failed attempt like an error; it reports each failure, the tenth error as the last
  attempt, and one reception at most.
\<close>

theorem send_task_attempts:
  assumes "n \<le> 10" and "\<forall>i < n. outcome i = Timed_out \<or> outcome i = Send_error"
    and "n < 10 \<longrightarrow> outcome n = Sent d"
  shows "run_send_task task outcome =
    (map (failure_metric task outcome) [0..<n] @
       (if n < 10 then [Timing ''transaction_received_by_leader'' d
          [(''leader_num'', show_nat (task_leader_num task)), (''api_key'', task_api_key task),
           (''retry'', show_bool (task_retry task))]] else []),
     n < 10)"
proof -
  have "[0..<SEND_TXN_RETRIES] = [0..<n] @ [n..<10]"
    using upt_add_eq_append [of 0 n "10 - n"] assms(1) by (simp add: SEND_TXN_RETRIES_def del: upt_Suc)
  moreover have "[n..<10] = n # [Suc n..<10]" if "n < 10"
    using that by (simp add: upt_conv_Cons del: upt_Suc)
  ultimately show ?thesis
    using assms send_attempts_failures [of "[0..<n]" outcome task "[n..<10]"]
    by (cases "n < 10") (simp_all add: run_send_task_def del: upt_Suc)
qed

theorem send_task_attempts_witness:
  "run_send_task \<lparr>task_leader = demo_contact ''A'', task_leader_num = 1, task_wire = [9],
       task_api_key = ''k'', task_retry = False\<rparr> (\<lambda>i. if i = 0 then Timed_out else Sent 4) =
     ([Count ''transaction_send_timeout'' [], Timing ''transaction_received_by_leader'' 4
         [(''leader_num'', show_nat 1), (''api_key'', ''k''), (''retry'', ''false'')]], True)"
  using send_task_attempts [of 1 "\<lambda>i. if i = 0 then Timed_out else Sent 4" 4]
  by (simp add: failure_metric_def show_bool_def)

text \<open>How many attempts a task makes on a connection.\<close>

fun attempts_made :: "(nat \<Rightarrow> send_outcome) \<Rightarrow> nat list \<Rightarrow> nat" where
  "attempts_made outcome [] = 0"
| "attempts_made outcome (i # is) =
     (case outcome i of Sent _ \<Rightarrow> 1 | _ \<Rightarrow> Suc (attempts_made outcome is))"

lemma attempts_made_le: "attempts_made outcome is \<le> length is"
  by (induction "is") (auto split: send_outcome.split)

lemma send_limit_500 [simp]: "send_limit task = 500"
  by (simp add: send_limit_def MAX_TIMEOUT_SEND_DATA_def MAX_TIMEOUT_SEND_DATA_BATCH_def)

lemma time_spent_le: "time_spent task net n \<le> 500 * n"
  by (induction n) (auto simp: time_spent_def)

lemma timed_outcome_Sent:
  assumes "timed_outcome task start net i = Sent d"
  shows "snd (net i)" and "d = start + time_spent task net (Suc i)" and "fst (net i) \<le> 500"
  using assms by (auto simp: timed_outcome_def time_spent_def split: prod.splits if_splits)

lemma send_attempts_reports:
  "Timing k d tags \<in> set (fst (send_attempts task outcome is)) \<Longrightarrow> \<exists>i \<in> set is. outcome i = Sent d"
  by (induction "is") (auto split: send_outcome.splits prod.splits)

text \<open>
  C29: A send task is over within five seconds whatever the connection does: at most ten attempts of at
  most half a second each. A reception it reports really happened in an attempt that answered in time,
  and the reported time is at most five seconds more than the clock showed at the start.
\<close>

theorem send_task_time:
  "time_spent task net (attempts_made (timed_outcome task start net) [0..<SEND_TXN_RETRIES]) \<le> 5000 \<and>
   (\<forall>k d tags. Timing k d tags \<in> set (fst (run_on_connection task start net)) \<longrightarrow>
      (\<exists>i < 10. snd (net i) \<and> fst (net i) \<le> 500 \<and> d = start + time_spent task net (Suc i) \<and> d \<le> start + 5000)) \<and>
   (snd (run_on_connection task start net) \<longleftrightarrow> (\<exists>i < 10. snd (net i) \<and> fst (net i) \<le> 500))"
proof (intro conjI allI impI)
  let ?o = "timed_outcome task start net"
  have "attempts_made ?o [0..<SEND_TXN_RETRIES] \<le> 10"
    using attempts_made_le [of ?o "[0..<SEND_TXN_RETRIES]"] by (simp add: SEND_TXN_RETRIES_def)
  with time_spent_le [of task net "attempts_made ?o [0..<SEND_TXN_RETRIES]"]
  show "time_spent task net (attempts_made ?o [0..<SEND_TXN_RETRIES]) \<le> 5000" by linarith
  show "\<exists>i < 10. snd (net i) \<and> fst (net i) \<le> 500 \<and> d = start + time_spent task net (Suc i) \<and> d \<le> start + 5000"
    if "Timing k d tags \<in> set (fst (run_on_connection task start net))" for k d tags
  proof -
    from that obtain i where i: "i < 10" "?o i = Sent d"
      by (auto simp: run_on_connection_def run_send_task_def SEND_TXN_RETRIES_def dest: send_attempts_reports)
    from time_spent_le have "time_spent task net (Suc i) \<le> 500 * Suc i" .
    also have "500 * Suc i \<le> 5000" using i(1) by simp
    finally show ?thesis using timed_outcome_Sent [OF i(2)] i(1) by auto
  qed
  have "(\<exists>d. ?o i = Sent d) \<longleftrightarrow> snd (net i) \<and> fst (net i) \<le> 500" for i
    by (auto simp: timed_outcome_def split: prod.splits)
  then show "snd (run_on_connection task start net) \<longleftrightarrow> (\<exists>i < 10. snd (net i) \<and> fst (net i) \<le> 500)"
    by (auto simp: run_on_connection_def run_send_task_def send_attempts_received SEND_TXN_RETRIES_def)
qed

definition slow_start :: "nat \<Rightarrow> duration \<times> bool" where
  "slow_start i = (if i < 2 then (900, True) else (20, True))"

definition slow_task :: send_task where
  "slow_task = \<lparr>task_leader = demo_contact ''A'', task_leader_num = 0, task_wire = [9], task_api_key = ''k'',
     task_retry = True\<rparr>"

theorem send_task_time_witness:
  "snd (run_on_connection slow_task 0 slow_start) \<and>
   time_spent slow_task slow_start (attempts_made (timed_outcome slow_task 0 slow_start) [0..<SEND_TXN_RETRIES]) \<le> 5000"
proof -
  have "\<exists>i < 10. snd (slow_start i) \<and> fst (slow_start i) \<le> 500"
    by (rule exI [of _ 2]) (simp add: slow_start_def)
  with send_task_time [of slow_task slow_start 0] show ?thesis by blast
qed

text \<open>
  A transaction is first sent to at most \<open>num_leaders\<close> leaders, each at most once, only to leaders
  with a QUIC address, numbered from 0 without gaps, every task carrying the wire image and the API
  key of the request.
\<close>

theorem first_sends_bounded:
  assumes "send_transaction lib (get_leaders p trk) t s = (s', Inr (confirm, tasks))"
  shows "length tasks \<le> unat (num_leaders trk) \<and>
    distinct (map (\<lambda>task. contact_pubkey (task_leader task)) tasks) \<and>
    map task_leader_num tasks = [0..<length tasks] \<and>
    (\<forall>task \<in> set tasks. tpu_quic (task_leader task) \<noteq> None \<and> task_wire task = wire_transaction t \<and>
       task_api_key task = api_key_or_none (request_metadata t) \<and> \<not> task_retry task)"
proof -
  obtain ls where ls: "get_leaders p trk = Inr ls"
    and tasks: "tasks = spawn_sends (wire_transaction t) (api_key_or_none (request_metadata t)) False 0 ls"
    using assms by (auto simp: send_transaction_def and_then_eq_Inr split: prod.splits)
  have leaders: "map task_leader tasks = filter (\<lambda>l. tpu_quic l \<noteq> None) ls"
    unfolding tasks by (rule spawn_sends_leaders)
  have "length tasks = length (filter (\<lambda>l. tpu_quic l \<noteq> None) ls)"
    using arg_cong [OF leaders, of length] by simp
  then have "map task_leader_num tasks = [0..<length tasks]"
    unfolding tasks spawn_sends_nums by simp
  moreover have "tpu_quic (task_leader task) \<noteq> None" if "task \<in> set tasks" for task
    using that arg_cong [OF leaders, of set] by auto
  ultimately show ?thesis
    using lt.spawned_bound [OF ls] by (auto simp: tasks dest: spawn_sends_wire)
qed

definition demo_data :: "string \<Rightarrow> usize \<Rightarrow> usize \<Rightarrow> transaction_data" where
  "demo_data sg n mx =
     \<lparr>wire_transaction = [1, 2], versioned_transaction = (demo_txn 1)\<lparr>signatures := [Signature sg]\<rparr>,
      sent_at = 5, retry_count = n, max_retries = mx, request_metadata = None\<rparr>"

lemma demo_data_signature [simp]: "get_signature (demo_data sg n mx) = Some sg"
  by (simp add: get_signature_def demo_data_def)

lemma demo_data_details:
  "compute_priority_details demo_lib (versioned_transaction (demo_data sg n mx)) =
     Inr \<lparr>fee = 2100000, cu_limit = 90, priority = 7\<rparr>"
  by (simp add: compute_priority_details_def details_of_def demo_lib_def demo_txn_def demo_data_def
      program_of_def limit_after_def)

theorem first_sends_bounded_witness:
  "\<exists>s' confirm tasks. send_transaction demo_lib (get_leaders Dev (demo_tracker\<lparr>num_leaders := 1\<rparr>))
       (demo_data ''x'' 0 5) new_store = (s', Inr (confirm, tasks)) \<and> tasks \<noteq> [] \<and> length tasks \<le> 1"
proof -
  let ?t = "demo_tracker\<lparr>num_leaders := 1\<rparr>"
  have "get_leaders Dev ?t = Inr [demo_contact ''A'']"
    by (simp add: get_leaders_def demo_tracker_def NUM_LEADERS_PER_SLOT_def mul_w_def add_w_def
        slot_range_def upt_rec dm_get_def im_insert_def Let_def)
  then obtain s' confirm tasks where
    run: "send_transaction demo_lib (get_leaders Dev ?t) (demo_data ''x'' 0 5) new_store
        = (s', Inr (confirm, tasks))" and "tasks \<noteq> []"
    by (simp add: send_transaction_def track_transaction_def demo_data_details Let_def demo_contact_def)
  with first_sends_bounded [OF run] show ?thesis by auto
qed

section \<open>The retry loop\<close>

definition demo_store :: tx_store where
  "demo_store = [(''a'', demo_data ''a'' 0 2), (''b'', demo_data ''b'' 2 2), (''c'', demo_data ''c'' 1 2)]"

lemma demo_store_ok: "store_ok demo_store"
  by (simp add: demo_store_def store_ok_entries entry_ok_def dm_ok_def) (simp add: demo_data_def)

text \<open>
  C7: Without a queue bound, one pass of the retry loop refines the specification on maps: it spawns for
  every queued transaction one send for each leader with a QUIC address that its call of \<open>get_leaders\<close>
  answered, and no other, removes the transactions that were at their bound, adds one to the retry count
  of the others, keeps the store invariant and panics in neither build profile.
\<close>

theorem retry_pass_refines:
  assumes "store_ok s" and "\<forall>i. leaders_at i = Inr (ls i)"
  shows "\<exists>r. retry_pass p None leaders_at s = Inr r \<and> store_ok (pass_store r) \<and>
    dm_get (pass_store r) = retry_spec (dm_get s) \<and>
    pass_tasks r = concat (map (\<lambda>(i, k, t). tasks_for (wire_transaction t) ''not_applicable'' True (ls i)) (enumerate 0 s))"
  using retry_pass_plain [OF assms, of p] unfolding pass_sends_def by metis

definition one_leader :: "nat \<Rightarrow> contact_info list" where
  "one_leader i = [demo_contact ''A'']"

lemma one_leader_task:
  "tasks_for w key retry (one_leader i) = [\<lparr>task_leader = demo_contact ''A'', task_leader_num = 0, task_wire = w,
     task_api_key = key, task_retry = retry\<rparr>]"
  by (simp add: tasks_for_def one_leader_def demo_contact_def)

theorem retry_pass_refines_witness:
  "\<exists>r. retry_pass Dev None (\<lambda>i. Inr (one_leader i)) demo_store = Inr r \<and> store_ok (pass_store r) \<and>
     dm_get (pass_store r) ''b'' = None \<and>
     dm_get (pass_store r) ''c'' = Some (demo_data ''c'' 2 2) \<and>
     map task_wire (pass_tasks r) = [[1, 2], [1, 2], [1, 2]]"
proof -
  have answers: "\<forall>i. Inr (one_leader i) = (Inr (one_leader i) :: panic + contact_info list)" by simp
  obtain r where r: "retry_pass Dev None (\<lambda>i. Inr (one_leader i)) demo_store = Inr r" "store_ok (pass_store r)"
      "dm_get (pass_store r) = retry_spec (dm_get demo_store)"
      "pass_tasks r = concat (map (\<lambda>(i, k, t). tasks_for (wire_transaction t) ''not_applicable'' True (one_leader i))
         (enumerate 0 demo_store))"
    using retry_pass_refines [OF demo_store_ok answers, of Dev] by (elim exE conjE) (rule that; assumption)
  have "dm_get (pass_store r) ''b'' = None" "dm_get (pass_store r) ''c'' = Some (demo_data ''c'' 2 2)"
    unfolding r(3)
    by (simp_all add: retry_spec_def demo_store_def dm_get_def demo_data_def word_le_nat_alt)
  moreover have "map task_wire (pass_tasks r) = [[1, 2], [1, 2], [1, 2]]"
    unfolding r(4) one_leader_task by (simp add: demo_store_def) (simp add: demo_data_def)
  ultimately show ?thesis using r(1,2) by (intro exI [of _ r] conjI)
qed

text \<open>
  C8: A transaction that enters the queue with retry count 0 and never lands is sent by exactly
  \<open>max_retries + 1\<close> passes of the retry loop: each of the first \<open>max_retries + 1\<close> spawns a send of its
  bytes to every leader with a QUIC address of one answer of \<open>get_leaders\<close>, no later pass spawns any.
  Before that it is still queued with its count equal to the number of passes, afterwards it is gone:
  even a bound of 0 gives one retry.
\<close>

theorem retried_max_plus_one:
  assumes "store_ok s" and "dm_get s k = Some t" and "retry_count t = 0"
    and "wire_of_key s (wire_transaction t) k"
  shows "\<exists>s' sent. retry_passes p None lss s = Inr (s', sent) \<and> length sent = length lss \<and>
    (\<forall>i < length lss. \<exists>j. filter (\<lambda>task. task_wire task = wire_transaction t) (sent ! i) =
       (if i \<le> unat (max_retries t) then tasks_for (wire_transaction t) ''not_applicable'' True ((lss ! i) j) else [])) \<and>
    dm_get s' k = (if length lss \<le> unat (max_retries t)
       then Some (t\<lparr>retry_count := of_nat (length lss)\<rparr>) else None)"
proof -
  from retry_passes_sent [OF assms(1,2,4), of p lss] obtain s' sent where
    "retry_passes p None lss s = Inr (s', sent)" "length sent = length lss"
    "dm_get s' k = (if length lss \<le> unat (max_retries t) - unat (retry_count t)
       then Some (t\<lparr>retry_count := retry_count t + of_nat (length lss)\<rparr>) else None)"
    "\<forall>i < length lss. \<exists>j. filter (\<lambda>task. task_wire task = wire_transaction t) (sent ! i) =
       (if i \<le> unat (max_retries t) - unat (retry_count t)
        then tasks_for (wire_transaction t) ''not_applicable'' True ((lss ! i) j) else [])"
    by (elim exE conjE) (rule that; assumption)
  with assms(3) show ?thesis by (intro exI [of _ s'] exI [of _ sent] conjI) simp_all
qed

theorem retried_max_plus_one_witness:
  "\<exists>s' sent. retry_passes Release None (replicate 9 one_leader) [(''a'', demo_data ''a'' 0 2)] = Inr (s', sent) \<and>
     map task_leader (filter (\<lambda>task. task_wire task = [1, 2]) (sent ! 2)) = [demo_contact ''A''] \<and>
     filter (\<lambda>task. task_wire task = [1, 2]) (sent ! 3) = [] \<and>
     dm_get s' ''a'' = None"
proof -
  let ?s = "[(''a'', demo_data ''a'' 0 2)]"
  have data: "wire_transaction (demo_data ''a'' 0 2) = [1, 2]" "unat (max_retries (demo_data ''a'' 0 2)) = 2"
    "retry_count (demo_data ''a'' 0 2) = 0"
    by (simp_all add: demo_data_def)
  have "store_ok ?s"
    by (simp add: store_ok_entries entry_ok_def dm_ok_def) (simp add: demo_data_def)
  moreover have "wire_of_key ?s (wire_transaction (demo_data ''a'' 0 2)) ''a''"
    by (simp add: wire_of_key_def)
  moreover have "dm_get ?s ''a'' = Some (demo_data ''a'' 0 2)" by (simp add: dm_get_def)
  ultimately have "\<exists>s' sent. retry_passes Release None (replicate 9 one_leader) ?s = Inr (s', sent) \<and>
    length sent = length (replicate 9 one_leader) \<and>
    (\<forall>i < length (replicate 9 one_leader). \<exists>j. filter (\<lambda>task. task_wire task = wire_transaction (demo_data ''a'' 0 2)) (sent ! i) =
       (if i \<le> unat (max_retries (demo_data ''a'' 0 2))
        then tasks_for (wire_transaction (demo_data ''a'' 0 2)) ''not_applicable'' True ((replicate 9 one_leader ! i) j)
        else [])) \<and>
    dm_get s' ''a'' = (if length (replicate 9 one_leader) \<le> unat (max_retries (demo_data ''a'' 0 2))
       then Some ((demo_data ''a'' 0 2)\<lparr>retry_count := of_nat (length (replicate 9 one_leader))\<rparr>) else None)"
    by (intro retried_max_plus_one) (simp_all add: data)
  then obtain s' sent where run: "retry_passes Release None (replicate 9 one_leader) ?s = Inr (s', sent)"
    and sends: "\<forall>i < 9. \<exists>j. filter (\<lambda>task. task_wire task = [1, 2]) (sent ! i) =
       (if i \<le> 2 then tasks_for [1, 2] ''not_applicable'' True ((replicate 9 one_leader ! i) j) else [])"
    and gone: "dm_get s' ''a'' = None"
    unfolding data length_replicate by (elim exE conjE) (rule that; simp)
  from spec [OF sends, of 2] have "map task_leader (filter (\<lambda>task. task_wire task = [1, 2]) (sent ! 2)) = [demo_contact ''A'']"
    by (auto simp: one_leader_task)
  moreover from spec [OF sends, of 3] have "filter (\<lambda>task. task_wire task = [1, 2]) (sent ! 3) = []" by simp
  ultimately show ?thesis using run gone by (intro exI [of _ s'] exI [of _ sent] conjI)
qed

text \<open>
  C30: When the snapshot is as long as the queue length read before, shedding a queue above its bound
  leaves exactly \<open>max_size + 1\<close> entries, none of which was retried more often than a removed one,
  while the gauge reports \<open>queue_length - max_size\<close> dropped records, one more than were dropped.
\<close>

theorem shedding_keeps_one_more:
  assumes "dm_ok s" and "unat mx < length s" and "length s < 2 ^ 64"
  shows "\<exists>victims. shed_victims p (Some mx) (length s) s = Inr victims \<and>
    length (fold dm_remove victims s) = unat mx + 1 \<and>
    (\<forall>k t k' t'. dm_get s k = Some t \<longrightarrow> k \<notin> set victims \<longrightarrow> dm_get s k' = Some t' \<longrightarrow> k' \<in> set victims \<longrightarrow>
       retry_count t \<le> retry_count t') \<and>
    Gauge ''transactions_retry_queue_dropped'' (length victims + 1) \<in> set (queue_metrics (Some mx) (length s))"
proof -
  let ?f = "\<lambda>(_ :: string, t). retry_count t" and ?n = "Suc (unat mx)"
  let ?l = "sort_key ?f s"
  let ?v = "map fst (drop ?n ?l)"
  have shed: "shed_victims p (Some mx) (length s) s = Inr ?v"
    using shed_victims_panic [of mx p "length s" s] assms(2,3) by simp
  have perm: "mset ?l = mset s" by simp
  have kept: "mset (fold dm_remove ?v s) = mset (take ?n ?l)"
    by (rule kept_after_shedding [OF assms(1) perm])
  have "length (fold dm_remove ?v s) = ?n"
    using arg_cong [OF kept, of size] assms(2) by simp
  moreover have "retry_count t \<le> retry_count t'"
    if t: "dm_get s k = Some t" "k \<notin> set ?v" and t': "dm_get s k' = Some t'" "k' \<in> set ?v" for k t k' t'
  proof -
    have "(k, t) \<in> set s" "(k', t') \<in> set s" using t t' assms(1) by (simp_all add: dm_get_in_set)
    have "(k, t) \<in> set (fold dm_remove ?v s)"
      using t(2) \<open>(k, t) \<in> set s\<close> by (simp only: fold_dm_remove) auto
    then have in_take: "(k, t) \<in> set (take ?n ?l)" using kept by (metis mset_eq_setD)
    obtain t2 where t2: "(k', t2) \<in> set (drop ?n ?l)" using t'(2) by auto
    then have "(k', t2) \<in> set s" by (metis in_set_dropD set_sort)
    with t'(1) assms(1) have "t2 = t'" by (metis dm_get_in_set option.inject)
    with sorted_split [OF in_take t2] show ?thesis by simp
  qed
  moreover have "Gauge ''transactions_retry_queue_dropped'' (length ?v + 1) \<in> set (queue_metrics (Some mx) (length s))"
    using assms(2) by (simp add: queue_metrics_def)
  ultimately show ?thesis
    using shed by (intro exI [of _ ?v] conjI allI impI) (assumption | simp)+
qed

theorem shedding_keeps_one_more_witness:
  "\<exists>victims. shed_victims Dev (Some 1) 3 demo_store = Inr victims \<and>
     length (fold dm_remove victims demo_store) = 2 \<and>
     Gauge ''transactions_retry_queue_dropped'' (length victims + 1) \<in> set (queue_metrics (Some 1) 3)"
proof -
  have len: "length demo_store = 3" by (simp add: demo_store_def)
  have "dm_ok demo_store" using demo_store_ok by (rule store_ok_dm)
  then obtain victims where "shed_victims Dev (Some 1) (length demo_store) demo_store = Inr victims"
      "length (fold dm_remove victims demo_store) = unat (1 :: usize) + 1"
      "Gauge ''transactions_retry_queue_dropped'' (length victims + 1)
        \<in> set (queue_metrics (Some 1) (length demo_store))"
    using shedding_keeps_one_more [of demo_store 1 Dev] len by auto
  then show ?thesis unfolding len by (intro exI [of _ victims]) simp
qed

text \<open>
  If the queue length was read above the bound but the snapshot collected afterwards has shrunk
  to the bound or below (confirmations remove entries concurrently), the slice is out of range and
  the task that runs the retry loop panics; a snapshot that is still longer never makes it panic.
\<close>

theorem shedding_race_panics:
  assumes "unat mx < queue_length" and "unat mx < 2 ^ 64 - 1"
  shows "shed_victims p (Some mx) queue_length entries = Inl e \<longleftrightarrow>
    length entries \<le> unat mx \<and> e = Slice_out_of_range"
  using shed_victims_panic [OF assms(2), of p queue_length entries] assms(1) by auto

theorem shedding_race_panics_witness:
  "shed_victims Release (Some 3) 4 demo_store = Inl Slice_out_of_range"
  using shedding_race_panics [of 3 4 Release demo_store Slice_out_of_range]
  by (simp add: demo_store_def)

section \<open>Tracking\<close>

text \<open>
  Tracking an unknown transaction stores it before its priority is computed: when that
  computation panics the entry stays in the retry queue and no task waits for its confirmation;
  when it succeeds the task carries the signature and the details.
\<close>

theorem track_stores_before_priority:
  assumes "store_ok s" and "get_signature t = Some sg" and "\<not> has_signature s sg"
  shows "\<exists>s'. track_transaction lib t s = (s', case compute_priority_details lib (versioned_transaction t) of
      Inl e \<Rightarrow> Inl e
    | Inr d \<Rightarrow> Inr (Some \<lparr>confirm_signature = sg, confirm_details = d,
        confirm_api_key = api_key_or_none (request_metadata t), confirm_sent_at = sent_at t\<rparr>)) \<and>
    dm_get s' = (dm_get s)(sg \<mapsto> t)"
proof -
  have "dm_get (add_transaction t s) = (dm_get s)(sg \<mapsto> t)"
    using assms ts.find_add [OF assms(1), of t] by (auto simp: fun_eq_iff)
  then show ?thesis
    using assms(2) by (auto simp: track_transaction_def Let_def split: sum.split)
qed

definition bad_program :: transaction_data where
  "bad_program = (demo_data ''x'' 0 5)\<lparr>versioned_transaction := (demo_txn 9)\<rparr>"

theorem track_stores_before_priority_witness:
  "\<exists>s'. track_transaction demo_lib bad_program new_store =
      (s', Inl (Expect_failed ''program id index is sanitized'')) \<and>
    dm_get s' ''sig'' = Some bad_program"
proof -
  have "get_signature bad_program = Some ''sig''"
    by (simp add: get_signature_def bad_program_def demo_txn_def)
  moreover have "\<not> has_signature new_store ''sig''"
    by (simp add: has_signature_def dm_contains_key_def new_store_def)
  moreover have "compute_priority_details demo_lib (versioned_transaction bad_program) =
      Inl (Expect_failed ''program id index is sanitized'')"
    by (simp add: compute_priority_details_def bad_program_def demo_lib_def demo_txn_def
        program_of_def limit_after_def)
  ultimately show ?thesis
    using track_stores_before_priority [OF store_ok_new, of bad_program "''sig''" demo_lib] by auto
qed

text \<open>
  The confirmation task ends the tracking: it removes its signature and no other, keeps the store
  invariant, and counts the transaction as landed exactly if a confirmation time was found.
\<close>

theorem tracking_ends:
  assumes "store_ok s" and "finish_tracking task confirmed_at now s = (ms, s')"
  shows "store_ok s' \<and> \<not> has_signature s' (confirm_signature task) \<and>
    (\<forall>k. k \<noteq> confirm_signature task \<longrightarrow> dm_get s' k = dm_get s k) \<and>
    (confirmed_at \<noteq> None \<longleftrightarrow> (\<exists>tags. Count ''transactions_landed'' tags \<in> set ms)) \<and>
    (confirmed_at = None \<longleftrightarrow> (\<exists>tags. Count ''transactions_not_landed'' tags \<in> set ms))"
proof -
  have s': "s' = snd (remove_transaction (confirm_signature task) s)"
    using assms(2) by (simp add: finish_tracking_def Let_def split: prod.splits)
  then have "store_ok s'" "\<not> has_signature s' (confirm_signature task)"
      "\<forall>k. k \<noteq> confirm_signature task \<longrightarrow> dm_get s' k = dm_get s k"
    using assms(1) by (auto simp: ts.has_find ts.find_remove store_inv)
  then show ?thesis
    using assms(2) by (cases confirmed_at) (auto simp: finish_tracking_def Let_def split: prod.splits)
qed

theorem tracking_ends_witness:
  "\<exists>ms s'. finish_tracking \<lparr>confirm_signature = ''b'', confirm_details = \<lparr>fee = 1, cu_limit = 2, priority = 3\<rparr>,
      confirm_api_key = ''k'', confirm_sent_at = 4\<rparr> (Some 77) 9 demo_store = (ms, s') \<and>
    \<not> has_signature s' ''b'' \<and> dm_get s' ''a'' = Some (demo_data ''a'' 0 2) \<and>
    (\<exists>tags. Count ''transactions_landed'' tags \<in> set ms)"
proof -
  let ?task = "\<lparr>confirm_signature = ''b'', confirm_details = \<lparr>fee = 1, cu_limit = 2, priority = 3\<rparr>,
      confirm_api_key = ''k'', confirm_sent_at = 4\<rparr>"
  obtain ms s' where run: "finish_tracking ?task (Some 77) 9 demo_store = (ms, s')"
    by (cases "finish_tracking ?task (Some 77) 9 demo_store")
  have "dm_get demo_store ''a'' = Some (demo_data ''a'' 0 2)" by (simp add: demo_store_def dm_get_def)
  with tracking_ends [OF demo_store_ok run] run show ?thesis by auto
qed

section \<open>Bundles\<close>

text \<open>What becomes of one transaction of a bundle: the text reported for it.\<close>

definition bundle_outcome ::
  "versioned_transaction codec \<Rightarrow> (hash, u64) dashmap \<Rightarrow> rpc_node \<Rightarrow> transaction_binary_encoding \<Rightarrow>
   versioned_transaction \<Rightarrow> string + string" where
  "bundle_outcome c cache n enc tx =
     (if \<not> dm_contains_key cache (recent_blockhash tx)
      then Inl (''Transaction has expired blockhash: '' @ hash_text (recent_blockhash tx))
      else case send_and_encode_transaction c n tx enc None of
             Some (calls, Inr encoded) \<Rightarrow> Inr encoded
           | _ \<Rightarrow> Inl (''Error processing transaction '' @ debug_text (sig_text (hd (signatures tx)))))"

definition bundle_outcomes where
  "bundle_outcomes c caches node enc i ts =
     map (\<lambda>(j, t). bundle_outcome c (caches j) (node j) enc (versioned_transaction t)) (enumerate i ts)"

lemma bundle_outcomes_simps [simp]:
  "bundle_outcomes c caches node enc i [] = []"
  "bundle_outcomes c caches node enc i (t # ts) =
     bundle_outcome c (caches i) (node i) enc (versioned_transaction t) # bundle_outcomes c caches node enc (Suc i) ts"
  "length (bundle_outcomes c caches node enc i ts) = length ts"
  by (simp_all add: bundle_outcomes_def)

lemma bundle_outcomes_member:
  "r \<in> set (bundle_outcomes c caches node enc i ts) \<Longrightarrow>
     \<exists>j. \<exists>t \<in> set ts. r = bundle_outcome c (caches j) (node j) enc (versioned_transaction t)"
  by (induction ts arbitrary: i) fastforce+

lemma in_projr: "s \<in> set (map projr (filter (\<lambda>r. \<not> isl r) rs)) \<Longrightarrow> Inr s \<in> set rs"
proof (induction rs)
  case (Cons r rs)
  then show ?case by (cases r) auto
qed simp

lemma outcome_decodes:
  assumes "codec_ok c" and "Inr s \<in> set (bundle_outcomes c caches node enc i ts)"
  shows "\<exists>t \<in> set ts. \<exists>b. decode_and_deserialize c s enc = Inr (b, versioned_transaction t)"
proof -
  obtain j t where t: "t \<in> set ts" and "bundle_outcome c (caches j) (node j) enc (versioned_transaction t) = Inr s"
    using bundle_outcomes_member [OF assms(2)] by metis
  then obtain calls where "send_and_encode_transaction c (node j) (versioned_transaction t) enc None = Some (calls, Inr s)"
    by (auto simp: bundle_outcome_def split: if_splits option.splits sum.splits)
  then have "encode_and_serialize c (versioned_transaction t) enc = Inr s" by (rule send_and_encode_Inr)
  from decode_encode [OF assms(1) this] t show ?thesis by blast
qed

text \<open>A bundle whose transactions are signed, sent through nodes whose clocks advance.\<close>

definition bundle_ready :: "(nat \<Rightarrow> rpc_node) \<Rightarrow> transaction_data list \<Rightarrow> bool" where
  "bundle_ready node ts \<longleftrightarrow> (\<forall>i. sleeps_at_least 100 (confirm_elapsed (node i))) \<and>
     (\<forall>t \<in> set ts. signatures (versioned_transaction t) \<noteq> [])"

lemma index_first: "xs \<noteq> [] \<Longrightarrow> index xs 0 = Inr (hd xs)"
  by (cases xs) auto

lemma bundle_loop_outcomes:
  assumes "bundle_ready node ts"
  shows "\<exists>eff'. bundle_loop c caches node enc key i ts eff sigs errs = Some (eff',
    Inr (sigs @ map projr (filter (\<lambda>r. \<not> isl r) (bundle_outcomes c caches node enc i ts)),
         errs @ map projl (filter isl (bundle_outcomes c caches node enc i ts))))"
  using assms
proof (induction ts arbitrary: i eff sigs errs)
  case (Cons t ts)
  have ready: "bundle_ready node ts" and clock: "sleeps_at_least 100 (confirm_elapsed (node i))"
    and first: "index (signatures (versioned_transaction t)) 0
        = Inr (hd (signatures (versioned_transaction t)))"
    using Cons.prems by (auto simp: bundle_ready_def index_first)
  note IH = Cons.IH [OF ready]
  obtain calls r where run: "send_and_encode_transaction c (node i) (versioned_transaction t) enc None = Some (calls, r)"
    using send_and_encode_returns [OF clock, of c "versioned_transaction t" enc None] by blast
  show ?case
  proof (cases "dm_contains_key (caches i) (recent_blockhash (versioned_transaction t))")
    case False
    with IH [of "Suc i" eff sigs "errs @ [''Transaction has expired blockhash: '' @
        hash_text (recent_blockhash (versioned_transaction t))]"]
    show ?thesis by (simp add: bundle_outcome_def Let_def)
  next
    case True
    show ?thesis
    proof (cases r)
      case (Inl e)
      with IH [of "Suc i" "eff\<lparr>bundle_calls := bundle_calls eff @ calls\<rparr>" sigs
          "errs @ [''Error processing transaction '' @
             debug_text (sig_text (hd (signatures (versioned_transaction t))))]"] True run first
      show ?thesis by (simp add: bundle_outcome_def Let_def)
    next
      case (Inr encoded)
      with IH [of "Suc i" "eff\<lparr>bundle_calls := bundle_calls eff @ calls,
          bundle_metrics := bundle_metrics eff @ [Count ''send_transaction_in_bundle'' [(''api_key'', key)]]\<rparr>"
          "sigs @ [encoded]" errs] True run first
      show ?thesis by (simp add: bundle_outcome_def Let_def)
    qed
  qed
qed simp

text \<open>Only a member whose check found its blockhash in the cache is submitted.\<close>

definition member_checked ::
  "(nat \<Rightarrow> (hash, u64) dashmap) \<Rightarrow> nat \<Rightarrow> transaction_data list \<Rightarrow> versioned_transaction \<Rightarrow> bool" where
  "member_checked caches i ts tx \<longleftrightarrow>
     (\<exists>j < length ts. versioned_transaction (ts ! j) = tx \<and> dm_contains_key (caches (i + j)) (recent_blockhash tx))"

lemma member_checked_Cons:
  "member_checked caches i (t # ts) tx \<longleftrightarrow>
     versioned_transaction t = tx \<and> dm_contains_key (caches i) (recent_blockhash tx) \<or> member_checked caches (Suc i) ts tx"
  by (auto simp: member_checked_def Ex_less_Suc2)

lemma bundle_loop_calls:
  "bundle_loop c caches node enc key i ts eff sigs errs = Some (eff', r) \<Longrightarrow>
     Send_transaction tx opts \<in> set (bundle_calls eff') \<Longrightarrow>
     Send_transaction tx opts \<in> set (bundle_calls eff) \<or> member_checked caches i ts tx"
proof (induction ts arbitrary: i eff sigs errs)
  case (Cons t ts)
  let ?tx = "versioned_transaction t"
  show ?case
  proof (cases "dm_contains_key (caches i) (recent_blockhash ?tx) \<and> signatures ?tx \<noteq> []")
    case False
    show ?thesis
    proof (cases "dm_contains_key (caches i) (recent_blockhash ?tx)")
      case True
      with False Cons.prems show ?thesis by (simp add: Let_def)
    next
      case unknown: False
      obtain errs2 where "bundle_loop c caches node enc key (Suc i) ts eff sigs errs2 = Some (eff', r)"
        using unknown Cons.prems(1) by (simp add: Let_def)
      from Cons.IH [OF this Cons.prems(2)] show ?thesis by (auto simp: member_checked_Cons)
    qed
  next
    case True
    with Cons.prems(1) obtain calls res where
      run: "send_and_encode_transaction c (node i) ?tx enc None = Some (calls, res)"
      by (auto simp: Let_def index_first split: Option.bind_splits)
    have calls: "Send_transaction u opts \<in> set calls \<Longrightarrow> u = ?tx" for u opts
      using send_and_encode_sends_t [OF run] by blast
    obtain eff2 sigs2 errs2 where
      rest: "bundle_loop c caches node enc key (Suc i) ts eff2 sigs2 errs2 = Some (eff', r)"
      and eff2: "bundle_calls eff2 = bundle_calls eff @ calls"
      using Cons.prems(1) run True by (cases res) (auto simp: Let_def index_first)
    from Cons.IH [OF rest Cons.prems(2)] eff2 calls True show ?thesis by (auto simp: member_checked_Cons)
  qed
qed simp

text \<open>
  C23: A bundle of signed transactions always returns (the clock advancing), and what it returns is
  the outcome of each transaction on its own, in order: the encoded transactions of those that landed
  and the error texts of the others, one of the two for every transaction; a failure never stops the
  later ones.
\<close>

theorem bundle_each_on_its_own:
  assumes "bundle_ready node ts"
  shows "\<exists>eff sigs errs. send_transaction_bundle c caches node ts enc key = Some (eff, Inr (sigs, errs)) \<and>
    sigs = map projr (filter (\<lambda>r. \<not> isl r) (bundle_outcomes c caches node enc 0 ts)) \<and>
    errs = map projl (filter isl (bundle_outcomes c caches node enc 0 ts)) \<and>
    length sigs + length errs = length ts"
proof -
  have "length (filter (\<lambda>r. \<not> isl r) rs) + length (filter isl rs) = length rs"
    for rs :: "(string + string) list"
    using sum_length_filter_compl [of isl rs] by simp
  then show ?thesis
    using bundle_loop_outcomes [OF assms, of c caches enc key 0 "\<lparr>bundle_calls = [], bundle_metrics = []\<rparr>"
        "[]" "[]"]
    by (fastforce simp: send_transaction_bundle_def)
qed

definition wire_codec :: "versioned_transaction codec" where
  "wire_codec = \<lparr>bs58_encode = raw_encode, bs58_decode = raw_decode,
     base64_encode = raw_encode, base64_decode = raw_decode,
     bincode_serialize = (\<lambda>n t. if t = demo_txn 1 \<and> 0 < n then Inr [7] else Inl ''unsupported''),
     bincode_deserialize = (\<lambda>n b. Inr (demo_txn 1)), PACKET_DATA_SIZE = 1232\<rparr>"

lemma wire_codec_ok: "codec_ok wire_codec"
  by (simp add: codec_ok_def wire_codec_def bincode_ok_def raw_text_ok MAX_BASE58_SIZE_def
      MAX_BASE64_SIZE_def)

definition bundle_member :: transaction_data where
  "bundle_member = (demo_data ''sig'' 0 5)\<lparr>versioned_transaction := demo_txn 1\<rparr>"

lemma bundle_member_ready: "bundle_ready (\<lambda>_. demo_node (\<lambda>_. Inr ''sig'')) [bundle_member, bundle_member]"
  by (simp add: bundle_ready_def bundle_member_def demo_node_def sleeps_at_least_def demo_txn_def)

theorem bundle_each_on_its_own_witness:
  "\<exists>eff sigs errs. send_transaction_bundle wire_codec (\<lambda>_. []) (\<lambda>_. demo_node (\<lambda>_. Inr ''sig''))
      [bundle_member, bundle_member] Base58 ''k'' = Some (eff, Inr (sigs, errs)) \<and>
    errs = [''Transaction has expired blockhash: bh'', ''Transaction has expired blockhash: bh''] \<and>
    length sigs + length errs = 2"
  using bundle_each_on_its_own [OF bundle_member_ready, of wire_codec "\<lambda>_. []" Base58 "''k''"]
  by (fastforce simp: bundle_outcome_def dm_contains_key_def bundle_member_def demo_txn_def)

definition known_blockhash :: "(hash, u64) dashmap" where
  "known_blockhash = [(Hash ''bh'', 3)]"

lemma member_submission:
  "send_and_encode_transaction wire_codec (demo_node (\<lambda>_. Inr ''sig'')) (demo_txn 1) Base58 None =
     Some ([Send_transaction (demo_txn 1) (submit_options default_send_config), Get_signature_status, Sleep 100,
            Get_signature_status, Sleep 100, Get_signature_status],
           Inr (raw_encode [7]))"
  by (simp add: send_and_encode_transaction_def serialize_wire_def wire_codec_def demo_node_def
      confirm_loop.simps default_send_config_def DEFAULT_CONFIRMATION_TIMEOUT_MS_def
      DEFAULT_RETRY_COUNT_def upt_rec confirmation_result_def)

definition member_effects :: bundle_effects where
  "member_effects = \<lparr>bundle_calls = [Send_transaction (demo_txn 1) (submit_options default_send_config),
     Get_signature_status, Sleep 100, Get_signature_status, Sleep 100, Get_signature_status], bundle_metrics = [Count ''send_transaction_in_bundle'' [(''api_key'', ''k'')]]\<rparr>"

lemma demo_txn_fields [simp]:
  "signatures (demo_txn n) = [Signature ''sig'']" "recent_blockhash (demo_txn n) = Hash ''bh''"
  by (simp_all add: demo_txn_def)

lemma member_run:
  "send_transaction_bundle wire_codec (\<lambda>_. known_blockhash) (\<lambda>_. demo_node (\<lambda>_. Inr ''sig''))
     [bundle_member] Base58 ''k'' = Some (member_effects, Inr ([raw_encode [7]], []))"
  by (simp add: send_transaction_bundle_def bundle_member_def member_submission known_blockhash_def
      dm_contains_key_def dm_get_def Let_def member_effects_def)

text \<open>
  Only transactions of the bundle whose blockhash was in the cache at their check are ever submitted to
  the RPC node, whatever becomes of the bundle.
\<close>

theorem bundle_submits_fresh:
  assumes "send_transaction_bundle c caches node ts enc key = Some (eff, r)"
    and "Send_transaction tx opts \<in> set (bundle_calls eff)"
  shows "\<exists>j < length ts. versioned_transaction (ts ! j) = tx \<and> dm_contains_key (caches j) (recent_blockhash tx)"
  using bundle_loop_calls [OF assms(1) [unfolded send_transaction_bundle_def] assms(2)]
  by (simp add: member_checked_def)

theorem bundle_submits_fresh_witness:
  "\<exists>eff r tx opts. send_transaction_bundle wire_codec (\<lambda>_. known_blockhash) (\<lambda>_. demo_node (\<lambda>_. Inr ''sig''))
      [bundle_member] Base58 ''k'' = Some (eff, r) \<and>
    Send_transaction tx opts \<in> set (bundle_calls eff) \<and> dm_contains_key known_blockhash (recent_blockhash tx)"
proof -
  have call: "Send_transaction (demo_txn 1) (submit_options default_send_config) \<in> set (bundle_calls member_effects)"
    by (simp add: member_effects_def)
  from bundle_submits_fresh [OF member_run call] member_run call show ?thesis by blast
qed

text \<open>
  Every text a bundle returns among its signatures is a transaction of the bundle in the wire
  encoding of the request: it decodes to that transaction, and is no signature.
\<close>

theorem bundle_signatures_decode:
  assumes "codec_ok c" and "bundle_ready node ts"
    and "send_transaction_bundle c caches node ts enc key = Some (eff, Inr (sigs, errs))" and "s \<in> set sigs"
  shows "\<exists>t \<in> set ts. \<exists>b. decode_and_deserialize c s enc = Inr (b, versioned_transaction t)"
proof -
  have "sigs = map projr (filter (\<lambda>r. \<not> isl r) (bundle_outcomes c caches node enc 0 ts))"
    using bundle_loop_outcomes [OF assms(2), of c caches enc key 0 "\<lparr>bundle_calls = [], bundle_metrics = []\<rparr>"
        "[]" "[]"] assms(3)
    by (auto simp: send_transaction_bundle_def)
  with assms(4) have "Inr s \<in> set (bundle_outcomes c caches node enc 0 ts)" by (simp add: in_projr)
  with assms(1) show ?thesis by (rule outcome_decodes)
qed

theorem bundle_signatures_decode_witness:
  "\<exists>eff s. send_transaction_bundle wire_codec (\<lambda>_. known_blockhash) (\<lambda>_. demo_node (\<lambda>_. Inr ''sig''))
      [bundle_member] Base58 ''k'' = Some (eff, Inr ([s], [])) \<and>
    (\<exists>b. decode_and_deserialize wire_codec s Base58 = Inr (b, demo_txn 1)) \<and>
    s \<noteq> sig_text (hd (signatures (demo_txn 1)))"
proof -
  have ready: "bundle_ready (\<lambda>_. demo_node (\<lambda>_. Inr ''sig'')) [bundle_member]"
    using bundle_member_ready by (simp add: bundle_ready_def)
  from bundle_signatures_decode [OF wire_codec_ok ready member_run, of "raw_encode [7]"] member_run
  show ?thesis by (intro exI [of _ member_effects] exI [of _ "raw_encode [7]"])
      (simp add: bundle_member_def, simp add: raw_encode_def)
qed

end
