(* ===== verification/System.thy ===== *)
theory System
  imports Rpc_Server Sender_Properties
begin

text \<open>
  The service as a whole: request handlers, confirmation tasks and the retry task run concurrently on
  the one retry queue. A step is one access to the shared map: the check for a duplicate, the second
  check inside \<open>add_transaction\<close> and the insertion are three steps, as are the reading of the queue
  length and of each entry of the snapshot; the map may be iterated in any order. Requests that fail or
  are duplicates leave the state alone and have no step.
\<close>

record system_config =
  sys_profile :: profile
  sys_server :: server_lib
  sys_codec :: "versioned_transaction codec"
  sys_budget :: budget_lib
  sys_max_retries :: usize
  sys_queue_bound :: "usize option"
  sys_leaders :: "(panic + contact_info list) set"

text \<open>
  A \<open>sendTransaction\<close> handler has found its signature unknown; has then, inside \<open>add_transaction\<close>,
  found the key missing; has left the store and not yet started the confirmation task; has started it
  and not yet sent the transaction.
\<close>

datatype handler =
    Checked transaction_data
  | Storing transaction_data
  | Filed transaction_data
  | Tracked transaction_data

text \<open>
  The turn of the retry loop: asleep; the length has been read; the snapshot is being collected, with
  the keys present at its start and the entries seen; victims are being removed, each from the store
  and once more from the map, which is the same map; entries are being visited, with the keys present
  at the start, those visited, those found at their bound and the wires to send; the wires are being
  sent; the entries at their bound are being removed.
\<close>

datatype retry_phase =
    Sleeping
  | Length_read nat
  | Collecting nat "string list" "(string \<times> transaction_data) list"
  | Shedding "string list"
  | Scanning "string list" "string list" "string list" "u8 list list"
  | Sending "u8 list list" "string list"
  | Removing_reached "string list"
  | Dead panic

text \<open>
  The last five fields are a record of the past: the signatures whose handler panicked between filing
  and spawning, the transactions that passed the duplicate check, the keys and wires the retry loop
  has visited, latest first, every send task spawned so far, and what the confirmation tasks were told.
\<close>

record world =
  queue :: tx_store
  handlers :: "handler list"
  confirmers :: "confirm_task list"
  phase :: retry_phase
  abandoned :: "string list"
  accepted :: "transaction_data list"
  visits :: "(string \<times> u8 list) list"
  sends :: "send_task list"
  answers :: "(string \<times> i64 option) list"

definition initial_world :: world where
  "initial_world = \<lparr>queue = new_store, handlers = [], confirmers = [], phase = Sleeping,
     abandoned = [], accepted = [], visits = [], sends = [], answers = []\<rparr>"

definition confirm_task_for :: "transaction_data \<Rightarrow> string \<Rightarrow> priority_details \<Rightarrow> confirm_task" where
  "confirm_task_for t sg d =
     \<lparr>confirm_signature = sg, confirm_details = d, confirm_api_key = api_key_or_none (request_metadata t),
      confirm_sent_at = sent_at t\<rparr>"

text \<open>The queue is longer than its bound: the test of the load shedding.\<close>

definition over_limit :: "usize option \<Rightarrow> nat \<Rightarrow> bool" where
  "over_limit bound n = (case bound of None \<Rightarrow> False | Some mx \<Rightarrow> unat mx < n)"

inductive system_step :: "system_config \<Rightarrow> world \<Rightarrow> world \<Rightarrow> bool" for cfg where
  request: "request_encoding (sys_server cfg) params = Inr enc \<Longrightarrow>
    create_transaction_data (sys_server cfg) (sys_codec cfg) (sys_max_retries cfg) now params m enc txn = Inr t \<Longrightarrow>
    index (signatures (versioned_transaction t)) 0 = Inr sg \<Longrightarrow> \<not> has_signature (queue w) (sig_text sg) \<Longrightarrow>
    system_step cfg w (w\<lparr>handlers := Checked t # handlers w, accepted := t # accepted w\<rparr>)"
| known: "Checked t \<in> set (handlers w) \<Longrightarrow> get_signature t = Some sg \<Longrightarrow> dm_contains_key (queue w) sg \<Longrightarrow>
    system_step cfg w (w\<lparr>handlers := Filed t # remove1 (Checked t) (handlers w)\<rparr>)"
| unknown: "Checked t \<in> set (handlers w) \<Longrightarrow> get_signature t = Some sg \<Longrightarrow> \<not> dm_contains_key (queue w) sg \<Longrightarrow>
    system_step cfg w (w\<lparr>handlers := Storing t # remove1 (Checked t) (handlers w)\<rparr>)"
| store: "Storing t \<in> set (handlers w) \<Longrightarrow> get_signature t = Some sg \<Longrightarrow>
    system_step cfg w (w\<lparr>queue := dm_insert sg t (queue w),
      handlers := Filed t # remove1 (Storing t) (handlers w)\<rparr>)"
| spawn: "Filed t \<in> set (handlers w) \<Longrightarrow> get_signature t = Some sg \<Longrightarrow>
    compute_priority_details (sys_budget cfg) (versioned_transaction t) = Inr d \<Longrightarrow>
    system_step cfg w (w\<lparr>handlers := Tracked t # remove1 (Filed t) (handlers w),
      confirmers := confirm_task_for t sg d # confirmers w\<rparr>)"
| abandon: "Filed t \<in> set (handlers w) \<Longrightarrow> get_signature t = Some sg \<Longrightarrow>
    compute_priority_details (sys_budget cfg) (versioned_transaction t) = Inl e \<Longrightarrow>
    system_step cfg w (w\<lparr>handlers := remove1 (Filed t) (handlers w), abandoned := sg # abandoned w\<rparr>)"
| first_sends: "Tracked t \<in> set (handlers w) \<Longrightarrow> Inr ls \<in> sys_leaders cfg \<Longrightarrow>
    system_step cfg w (w\<lparr>handlers := remove1 (Tracked t) (handlers w),
      sends := sends w @ spawn_sends (wire_transaction t) (api_key_or_none (request_metadata t)) False 0 ls\<rparr>)"
| first_sends_panic: "Tracked t \<in> set (handlers w) \<Longrightarrow> Inl e \<in> sys_leaders cfg \<Longrightarrow>
    system_step cfg w (w\<lparr>handlers := remove1 (Tracked t) (handlers w)\<rparr>)"
| confirm: "task \<in> set (confirmers w) \<Longrightarrow> finish_tracking task confirmed_at now (queue w) = (ms, q) \<Longrightarrow>
    system_step cfg w (w\<lparr>queue := q, confirmers := remove1 task (confirmers w),
      answers := (confirm_signature task, confirmed_at) # answers w\<rparr>)"
| read_length: "phase w = Sleeping \<Longrightarrow>
    system_step cfg w (w\<lparr>phase := Length_read (length (queue w))\<rparr>)"
| keep_all: "phase w = Length_read n \<Longrightarrow> \<not> over_limit (sys_queue_bound cfg) n \<Longrightarrow>
    system_step cfg w (w\<lparr>phase := Shedding []\<rparr>)"
| collect: "phase w = Length_read n \<Longrightarrow> over_limit (sys_queue_bound cfg) n \<Longrightarrow>
    system_step cfg w (w\<lparr>phase := Collecting n (map fst (queue w)) []\<rparr>)"
| collect_one: "phase w = Collecting n todo seen \<Longrightarrow> k \<notin> set (map fst seen) \<Longrightarrow> dm_get (queue w) k = Some t \<Longrightarrow>
    system_step cfg w (w\<lparr>phase := Collecting n todo (seen @ [(k, t)])\<rparr>)"
| shed: "phase w = Collecting n todo seen \<Longrightarrow>
    \<forall>k \<in> set todo. k \<in> set (map fst seen) \<or> dm_get (queue w) k = None \<Longrightarrow>
    shed_victims (sys_profile cfg) (sys_queue_bound cfg) n seen = Inr victims \<Longrightarrow>
    system_step cfg w (w\<lparr>phase := Shedding (concat (map (\<lambda>k. [k, k]) victims))\<rparr>)"
| shed_panic: "phase w = Collecting n todo seen \<Longrightarrow>
    \<forall>k \<in> set todo. k \<in> set (map fst seen) \<or> dm_get (queue w) k = None \<Longrightarrow>
    shed_victims (sys_profile cfg) (sys_queue_bound cfg) n seen = Inl e \<Longrightarrow>
    system_step cfg w (w\<lparr>phase := Dead e\<rparr>)"
| shed_one: "phase w = Shedding (k # ks) \<Longrightarrow>
    system_step cfg w (w\<lparr>queue := dm_remove k (queue w), phase := Shedding ks\<rparr>)"
| scan: "phase w = Shedding [] \<Longrightarrow>
    system_step cfg w (w\<lparr>phase := Scanning (map fst (queue w)) [] [] []\<rparr>)"
| visit: "phase w = Scanning todo visited reached wires \<Longrightarrow> k \<notin> set visited \<Longrightarrow> dm_get (queue w) k = Some t \<Longrightarrow>
    retry_entry (sys_profile cfg) t = Inr (t', r) \<Longrightarrow>
    system_step cfg w (w\<lparr>queue := dm_insert k t' (queue w),
      phase := Scanning todo (k # visited) (reached @ r) (wires @ [wire_transaction t]),
      visits := (k, wire_transaction t) # visits w\<rparr>)"
| visit_panic: "phase w = Scanning todo visited reached wires \<Longrightarrow> k \<notin> set visited \<Longrightarrow> dm_get (queue w) k = Some t \<Longrightarrow>
    retry_entry (sys_profile cfg) t = Inl e \<Longrightarrow> system_step cfg w (w\<lparr>phase := Dead e\<rparr>)"
| scanned: "phase w = Scanning todo visited reached wires \<Longrightarrow>
    \<forall>k \<in> set todo. k \<in> set visited \<or> dm_get (queue w) k = None \<Longrightarrow>
    system_step cfg w (w\<lparr>phase := Sending wires reached\<rparr>)"
| send_wire: "phase w = Sending (wire # wires) reached \<Longrightarrow> Inr ls \<in> sys_leaders cfg \<Longrightarrow>
    system_step cfg w (w\<lparr>phase := Sending wires reached,
      sends := sends w @ spawn_sends wire ''not_applicable'' True 0 ls\<rparr>)"
| send_panic: "phase w = Sending (wire # wires) reached \<Longrightarrow> Inl e \<in> sys_leaders cfg \<Longrightarrow>
    system_step cfg w (w\<lparr>phase := Dead e\<rparr>)"
| sent: "phase w = Sending [] reached \<Longrightarrow> system_step cfg w (w\<lparr>phase := Removing_reached reached\<rparr>)"
| remove_one: "phase w = Removing_reached (k # ks) \<Longrightarrow>
    system_step cfg w (w\<lparr>queue := snd (remove_transaction k (queue w)), phase := Removing_reached ks\<rparr>)"
| pass_done: "phase w = Removing_reached [] \<Longrightarrow> system_step cfg w (w\<lparr>phase := Sleeping\<rparr>)"
| reorder: "mset q = mset (queue w) \<Longrightarrow> system_step cfg w (w\<lparr>queue := q\<rparr>)"

inductive_cases system_stepE: "system_step cfg w w'"

text \<open>Nothing restarts the retry task.\<close>

lemma dead_stays: "system_step cfg w w' \<Longrightarrow> phase w = Dead e \<Longrightarrow> phase w' = Dead e"
  by (erule system_stepE) simp_all

lemma dead_for_good: "(system_step cfg)\<^sup>*\<^sup>* w w' \<Longrightarrow> phase w = Dead e \<Longrightarrow> phase w' = Dead e"
  by (induction rule: rtranclp_induct) (auto dest: dead_stays)

definition reachable :: "system_config \<Rightarrow> world \<Rightarrow> bool" where
  "reachable cfg w = (system_step cfg)\<^sup>*\<^sup>* initial_world w"

section \<open>The invariant\<close>

fun handled :: "handler \<Rightarrow> transaction_data" where
  "handled (Checked t) = t"
| "handled (Storing t) = t"
| "handled (Filed t) = t"
| "handled (Tracked t) = t"

text \<open>
  Who will take the entry of a signature out of the queue: a confirmation task that waits for it, or a
  handler that has filed it and is about to start one. The signatures whose handler panicked in
  between are left over; only the retry loop still removes their entries.
\<close>

definition tended :: "world \<Rightarrow> string \<Rightarrow> bool" where
  "tended w k \<longleftrightarrow>
     (\<exists>task \<in> set (confirmers w). confirm_signature task = k) \<or>
     (\<exists>t. Filed t \<in> set (handlers w) \<and> get_signature t = Some k)"

definition accounted :: "world \<Rightarrow> string \<Rightarrow> bool" where
  "accounted w k \<longleftrightarrow> tended w k \<or> k \<in> set (abandoned w)"

lemma accounted_mono:
  "accounted w k \<Longrightarrow> set (confirmers w) \<subseteq> set (confirmers w') \<Longrightarrow> set (abandoned w) \<subseteq> set (abandoned w') \<Longrightarrow>
     (\<And>u. Filed u \<in> set (handlers w) \<Longrightarrow> get_signature u = Some k \<Longrightarrow> Filed u \<in> set (handlers w')) \<Longrightarrow>
     accounted w' k"
  unfolding accounted_def tended_def by blast

definition within :: "usize \<Rightarrow> transaction_data \<Rightarrow> bool" where
  "within mx t \<longleftrightarrow> get_signature t \<noteq> None \<and> retry_count t \<le> max_retries t \<and> max_retries t \<le> mx"

definition death_ok :: "system_config \<Rightarrow> world \<Rightarrow> bool" where
  "death_ok cfg w \<longleftrightarrow> (\<forall>e. phase w = Dead e \<longrightarrow>
     Inl e \<in> sys_leaders cfg \<or> (\<exists>n entries. shed_victims (sys_profile cfg) (sys_queue_bound cfg) n entries = Inl e))"

definition world_ok :: "system_config \<Rightarrow> world \<Rightarrow> bool" where
  "world_ok cfg w \<longleftrightarrow> store_ok (queue w) \<and>
     every_entry (dm_get (queue w)) (\<lambda>k t. within (sys_max_retries cfg) t \<and> accounted w k) \<and>
     (\<forall>h \<in> set (handlers w). within (sys_max_retries cfg) (handled h)) \<and> death_ok cfg w"

lemma world_ok_initial: "world_ok cfg initial_world"
  by (simp add: world_ok_def initial_world_def store_ok_new death_ok_def every_entry_def)
    (simp add: new_store_def)

text \<open>A step that keeps or shrinks the queue and loses no tender keeps the invariant.\<close>

lemma world_ok_shrink:
  assumes "world_ok cfg w" and "store_ok (queue w')" and "death_ok cfg w'"
    and "\<And>k t. dm_get (queue w') k = Some t \<Longrightarrow> dm_get (queue w) k = Some t"
    and "\<And>k t. dm_get (queue w') k = Some t \<Longrightarrow> accounted w k \<Longrightarrow> accounted w' k"
    and "\<And>h. h \<in> set (handlers w') \<Longrightarrow> within (sys_max_retries cfg) (handled h)"
  shows "world_ok cfg w'"
  using assms unfolding world_ok_def every_entry_def by blast

lemma set_remove1_other: "x \<in> set xs \<Longrightarrow> x \<noteq> y \<Longrightarrow> x \<in> set (remove1 y xs)"
  by (simp add: in_set_remove1)

lemma within_bump: "within mx t \<Longrightarrow> within mx (bump t)"
  using entry_ok_bump [of "the (get_signature t)" t] by (auto simp: within_def entry_ok_def)

lemma finish_tracking_store: "finish_tracking task c now s = (ms, q) \<Longrightarrow> q = dm_remove (confirm_signature task) s"
  by (auto simp: finish_tracking_def remove_transaction_def Let_def)

lemma dm_remove_Some: "dm_ok s \<Longrightarrow> dm_get (dm_remove k s) k' = Some t \<Longrightarrow> k' \<noteq> k \<and> dm_get s k' = Some t"
  by (simp add: dash split: if_splits)

lemma within_created:
  assumes "create_transaction_data L c mx now params m enc txn = Inr t"
    and "index (signatures (versioned_transaction t)) 0 = Inr sg"
  shows "within mx t"
  using created_bounded [OF assms(1)] assms(2)
  by (cases "signatures (versioned_transaction t)") (auto simp: within_def get_signature_def)

text \<open>A handler moves on: its successor tends what it tended.\<close>

lemma world_ok_moved:
  assumes "world_ok cfg w" and "h \<in> set (handlers w)" and "handled h' = handled h"
    and "\<forall>t. h \<noteq> Filed t"
  shows "world_ok cfg (w\<lparr>handlers := h' # remove1 h (handlers w)\<rparr>)"
  using assms
  by (intro world_ok_shrink [OF assms(1)])
    (auto simp: world_ok_def death_ok_def accounted_def tended_def dest: notin_set_remove1 intro: set_remove1_other)

lemma world_ok_store:
  assumes "world_ok cfg w" and h: "Storing t \<in> set (handlers w)" and sg: "get_signature t = Some sg"
  shows "world_ok cfg (w\<lparr>queue := dm_insert sg t (queue w),
    handlers := Filed t # remove1 (Storing t) (handlers w)\<rparr>)"
proof -
  let ?w = "w\<lparr>queue := dm_insert sg t (queue w), handlers := Filed t # remove1 (Storing t) (handlers w)\<rparr>"
  have ok: "store_ok (queue w)" and t: "within (sys_max_retries cfg) t"
    using assms by (force simp: world_ok_def)+
  have accounted: "accounted w k \<Longrightarrow> accounted ?w k" for k
    by (auto simp: accounted_def tended_def intro: set_remove1_other)
  have "within (sys_max_retries cfg) u \<and> accounted ?w k"
    if "dm_get (dm_insert sg t (queue w)) k = Some u" for k u
  proof (cases "k = sg")
    case True
    with that t sg ok show ?thesis by (auto simp: dash store_ok_dm accounted_def tended_def)
  next
    case False
    then have "dm_get (queue w) k = Some u" using that ok by (simp add: dash store_ok_dm)
    with assms(1) accounted show ?thesis by (auto simp: world_ok_def every_entry_def)
  qed
  moreover have "store_ok (dm_insert sg t (queue w))"
    using ok t sg by (intro store_ok_insert) (auto simp: within_def)
  ultimately show ?thesis
    using assms(1) t by (auto simp: world_ok_def every_entry_def death_ok_def dest: notin_set_remove1)
qed

lemma world_ok_visit:
  assumes "world_ok cfg w" and get: "dm_get (queue w) k = Some t"
    and "retry_entry (sys_profile cfg) t = Inr (t', r)"
  shows "world_ok cfg (w\<lparr>queue := dm_insert k t' (queue w),
    phase := Scanning todo visited reached wires, visits := vs\<rparr>)"
proof -
  have ok: "store_ok (queue w)" and t: "within (sys_max_retries cfg) t" and "accounted w k"
    using assms(1) get by (auto simp: world_ok_def every_entry_def)
  have entry: "entry_ok k t" using store_okD [OF ok get] .
  then have t': "t' = bump t" using assms(3) by (simp add: retry_entry_ok)
  have "store_ok (dm_insert k t' (queue w))"
    using entry_ok_bump [OF entry] ok unfolding t' by (intro store_ok_insert) (auto simp: entry_ok_def)
  moreover have "within (sys_max_retries cfg) t'" unfolding t' using t by (rule within_bump)
  moreover have "dm_get (dm_insert k t' (queue w)) = (dm_get (queue w))(k \<mapsto> t')"
    using ok by (simp add: dash store_ok_dm)
  ultimately show ?thesis
    using assms(1) \<open>accounted w k\<close>
    by (auto simp: world_ok_def every_entry_def death_ok_def accounted_def tended_def)
qed

lemma world_ok_remove:
  assumes "world_ok cfg w" and "death_ok cfg (w\<lparr>phase := ph\<rparr>)"
  shows "world_ok cfg (w\<lparr>queue := dm_remove k (queue w), phase := ph\<rparr>)"
proof (rule world_ok_shrink [OF assms(1)])
  have ok: "store_ok (queue w)" using assms(1) by (simp add: world_ok_def)
  then show "store_ok (queue (w\<lparr>queue := dm_remove k (queue w), phase := ph\<rparr>))"
    by (simp add: store_ok_dm_remove)
  show "dm_get (queue w) k' = Some t"
    if "dm_get (queue (w\<lparr>queue := dm_remove k (queue w), phase := ph\<rparr>)) k' = Some t" for k' t
    using that ok dm_remove_Some [of "queue w"] by (simp add: store_ok_dm)
qed (use assms in \<open>auto simp: accounted_def tended_def death_ok_def world_ok_def\<close>)

lemma world_ok_phase:
  "world_ok cfg w \<Longrightarrow> death_ok cfg (w\<lparr>phase := ph\<rparr>) \<Longrightarrow> world_ok cfg (w\<lparr>phase := ph\<rparr>)"
  by (simp add: world_ok_def accounted_def tended_def every_entry_def)

lemma world_ok_confirm:
  assumes "world_ok cfg w" and "finish_tracking task c now (queue w) = (ms, q)"
  shows "world_ok cfg (w\<lparr>queue := q, confirmers := remove1 task (confirmers w), answers := as\<rparr>)"
proof (rule world_ok_shrink [OF assms(1)])
  have ok: "store_ok (queue w)" using assms(1) by (simp add: world_ok_def)
  note q = finish_tracking_store [OF assms(2)]
  have kept: "k \<noteq> confirm_signature task \<and> dm_get (queue w) k = Some t" if "dm_get q k = Some t" for k t
    using dm_remove_Some [of "queue w"] that ok unfolding q by (simp add: store_ok_dm)
  show "store_ok (queue (w\<lparr>queue := q, confirmers := remove1 task (confirmers w), answers := as\<rparr>))"
    using ok by (simp add: q store_ok_dm_remove)
  show "dm_get (queue w) k = Some t"
    if "dm_get (queue (w\<lparr>queue := q, confirmers := remove1 task (confirmers w), answers := as\<rparr>)) k = Some t" for k t
    using that kept by simp
  show "accounted (w\<lparr>queue := q, confirmers := remove1 task (confirmers w), answers := as\<rparr>) k"
    if "dm_get (queue (w\<lparr>queue := q, confirmers := remove1 task (confirmers w), answers := as\<rparr>)) k = Some t"
      and "accounted w k" for k t
    using that kept by (fastforce simp: accounted_def tended_def intro: set_remove1_other)
qed (use assms in \<open>auto simp: death_ok_def world_ok_def\<close>)

lemma world_ok_reorder:
  assumes "world_ok cfg w" and "mset q = mset (queue w)"
  shows "world_ok cfg (w\<lparr>queue := q\<rparr>)"
proof -
  have ok: "store_ok (queue w)" using assms(1) by (simp add: world_ok_def)
  have "dm_get q = dm_get (queue w)" using dm_perm_get [OF assms(2) [symmetric]] ok by (simp add: store_ok_dm)
  moreover have "store_ok q" using store_ok_perm [OF ok] assms(2) by simp
  ultimately show ?thesis using assms(1) by (simp add: world_ok_def accounted_def tended_def every_entry_def death_ok_def)
qed

text \<open>A handler leaves \<open>Filed\<close> when somebody else tends its entry.\<close>

lemma world_ok_handler_done:
  assumes "world_ok cfg w" and "Filed t \<in> set (handlers w)" and "get_signature t = Some sg"
    and "w' = w\<lparr>handlers := hs @ remove1 (Filed t) (handlers w), confirmers := cs, abandoned := ks\<rparr>"
    and "set hs \<subseteq> {Tracked t}"
    and "set (confirmers w) \<subseteq> set cs" and "set (abandoned w) \<subseteq> set ks"
    and "sg \<in> confirm_signature ` set cs \<or> sg \<in> set ks"
  shows "world_ok cfg w'"
proof (rule world_ok_shrink [OF assms(1)])
  show "accounted w' k" if "accounted w k" for k
  proof (cases "sg = k")
    case True
    with assms(4,8) show ?thesis by (auto simp: accounted_def tended_def)
  next
    case False
    then have "Filed u \<in> set (remove1 (Filed t) (handlers w))"
      if "Filed u \<in> set (handlers w)" "get_signature u = Some k" for u
      using that assms(3) by (intro set_remove1_other) auto
    then show ?thesis
      using assms(6,7) by (intro accounted_mono [OF that]) (auto simp: assms(4))
  qed
  show "store_ok (queue w')" "death_ok cfg w'"
    using assms(1) unfolding assms(4) by (simp_all add: world_ok_def death_ok_def)
  show "within (sys_max_retries cfg) (handled h)" if "h \<in> set (handlers w')" for h
  proof -
    have "\<forall>h \<in> set (handlers w). within (sys_max_retries cfg) (handled h)"
      using assms(1) by (simp add: world_ok_def)
    moreover from that assms(5) have "h = Tracked t \<or> h \<in> set (handlers w)"
      unfolding assms(4) by (auto dest: notin_set_remove1)
    ultimately show ?thesis using assms(2) by auto
  qed
qed (simp_all add: assms(4))

text \<open>The retry task panics in the visits never: entries are filed under a signature and below their bound.\<close>

lemma visit_never_panics:
  "world_ok cfg w \<Longrightarrow> dm_get (queue w) k = Some t \<Longrightarrow> retry_entry p t \<noteq> Inl e"
  using store_okD [of "queue w" k t] by (auto simp: world_ok_def retry_entry_ok)

text \<open>What the step does not look at may change with it.\<close>

lemma world_ok_ghost:
  "world_ok cfg w \<Longrightarrow> queue w' = queue w \<Longrightarrow> confirmers w' = confirmers w \<Longrightarrow> phase w' = phase w \<Longrightarrow>
     abandoned w' = abandoned w \<Longrightarrow> set (handlers w') \<subseteq> set (handlers w) \<Longrightarrow>
     (\<And>t. Filed t \<in> set (handlers w) \<Longrightarrow> Filed t \<in> set (handlers w')) \<Longrightarrow> world_ok cfg w'"
  by (rule world_ok_shrink, assumption) (auto simp: world_ok_def death_ok_def elim: accounted_mono)

lemma world_ok_step:
  assumes "system_step cfg w w'" and ok: "world_ok cfg w"
  shows "world_ok cfg w'"
  using assms(1)
proof cases
  case (request params enc now m txn t sg)
  then show ?thesis
    using ok within_created [of _ _ _ now params m enc txn t sg]
    by (auto simp: world_ok_def accounted_def tended_def every_entry_def death_ok_def)
next
  case (known t sg)
  show ?thesis
    unfolding known(1) using ok known(2)
    by (intro world_ok_shrink [OF ok])
      (auto simp: world_ok_def death_ok_def accounted_def tended_def dest: notin_set_remove1 intro: set_remove1_other)
next
  case (unknown t sg)
  then show ?thesis using world_ok_moved [OF ok, of "Checked t" "Storing t"] by simp
next
  case (store t sg)
  then show ?thesis using world_ok_store [OF ok] by simp
next
  case (spawn t sg d)
  show ?thesis
    by (rule world_ok_handler_done [OF ok spawn(2,3), where cs = "confirm_task_for t sg d # confirmers w"
          and ks = "abandoned w" and hs = "[Tracked t]"])
      (auto simp: spawn(1) confirm_task_for_def)
next
  case (abandon t sg e)
  show ?thesis
    by (rule world_ok_handler_done [OF ok abandon(2,3), where cs = "confirmers w" and ks = "sg # abandoned w"
          and hs = "[]"])
      (auto simp: abandon(1))
next
  case (first_sends t ls)
  then show ?thesis by (intro world_ok_ghost [OF ok]) (auto dest: notin_set_remove1 intro: set_remove1_other)
next
  case (first_sends_panic t e)
  then show ?thesis by (intro world_ok_ghost [OF ok]) (auto dest: notin_set_remove1 intro: set_remove1_other)
next
  case (confirm task confirmed_at now ms q)
  then show ?thesis using world_ok_confirm [OF ok] by simp
next
  case (shed_panic n todo seen e)
  then show ?thesis using world_ok_phase [OF ok, of "Dead e"] by (auto simp: death_ok_def)
next
  case (shed_one k ks)
  then show ?thesis using world_ok_remove [OF ok, of "Shedding ks" k] by (simp add: death_ok_def)
next
  case (visit todo visited reached wires k t t' r)
  then show ?thesis using world_ok_visit [OF ok visit(4,5)] by simp
next
  case (visit_panic todo visited reached wires k t e)
  then show ?thesis using visit_never_panics [OF ok] by blast
next
  case (send_wire wire wires reached ls)
  then show ?thesis using ok by (simp add: world_ok_def accounted_def tended_def every_entry_def death_ok_def)
next
  case (send_panic wire wires reached e)
  then show ?thesis using world_ok_phase [OF ok, of "Dead e"] by (simp add: death_ok_def)
next
  case (remove_one k ks)
  then show ?thesis using world_ok_remove [OF ok, of "Removing_reached ks" k]
    by (simp add: death_ok_def remove_transaction_def)
next
  case (reorder q)
  then show ?thesis using world_ok_reorder [OF ok] by simp
qed (use ok in \<open>simp_all add: world_ok_phase death_ok_def\<close>)

lemma reachable_ok: "reachable cfg w \<Longrightarrow> world_ok cfg w"
  unfolding reachable_def
  by (induction rule: rtranclp_induct) (auto intro: world_ok_initial world_ok_step)

abbreviation system_run :: "system_config \<Rightarrow> world \<Rightarrow> world \<Rightarrow> bool" where
  "system_run cfg \<equiv> (system_step cfg)\<^sup>*\<^sup>*"

lemma run_step: "system_run cfg w u \<Longrightarrow> system_step cfg u v \<Longrightarrow> system_run cfg w v"
  by (rule rtranclp.rtrancl_into_rtrancl)

lemma run_first: "system_step cfg w u \<Longrightarrow> system_run cfg u v \<Longrightarrow> system_run cfg w v"
  by (rule converse_rtranclp_into_rtranclp)

end
