(* ===== verification/System_Runs.thy ===== *)
theory System_Runs
  imports System
begin

text \<open>
  Runs of the service: the sequential definitions of a pass of the retry loop and of a whole request
  are runs of the step relation, and the properties of reachable states with the runs that witness
  them.
\<close>

section \<open>The sequential operations are runs\<close>

lemma run_shedding:
  "phase w = Shedding ks \<Longrightarrow>
     system_run cfg w (w\<lparr>queue := fold dm_remove ks (queue w), phase := Shedding []\<rparr>)"
proof (induction ks arbitrary: w)
  case Nil
  then have "w\<lparr>queue := queue w, phase := Shedding []\<rparr> = w" by (cases w) simp
  then show ?case by simp
next
  case (Cons k ks)
  let ?u = "w\<lparr>queue := dm_remove k (queue w), phase := Shedding ks\<rparr>"
  have "system_step cfg w ?u" using Cons.prems by (rule shed_one)
  moreover have "system_run cfg ?u (w\<lparr>queue := fold dm_remove (k # ks) (queue w), phase := Shedding []\<rparr>)"
    using Cons.IH [of ?u] by simp
  ultimately show ?case by (rule run_first)
qed

lemma run_removing:
  "phase w = Removing_reached ks \<Longrightarrow>
     system_run cfg w (w\<lparr>queue := fold dm_remove ks (queue w), phase := Removing_reached []\<rparr>)"
proof (induction ks arbitrary: w)
  case Nil
  then have "w\<lparr>queue := queue w, phase := Removing_reached []\<rparr> = w" by (cases w) simp
  then show ?case by simp
next
  case (Cons k ks)
  let ?u = "w\<lparr>queue := dm_remove k (queue w), phase := Removing_reached ks\<rparr>"
  have "system_step cfg w ?u" using remove_one [OF Cons.prems] by (simp add: remove_transaction_def)
  moreover have "system_run cfg ?u (w\<lparr>queue := fold dm_remove (k # ks) (queue w), phase := Removing_reached []\<rparr>)"
    using Cons.IH [of ?u] by simp
  ultimately show ?case by (rule run_first)
qed

lemma dm_insert_middle:
  "k \<notin> fst ` set pre \<Longrightarrow> dm_insert k v (pre @ (k, u) # rest) = pre @ (k, v) # rest"
  by (induction pre) (auto simp: dm_insert_def)

lemma dm_get_middle: "k \<notin> fst ` set pre \<Longrightarrow> dm_get (pre @ (k, u) # rest) k = Some u"
  by (induction pre) (auto simp: dm_get_def)

lemma run_collecting:
  assumes "queue w = pre @ rest" and "distinct (map fst (pre @ rest))" and "phase w = Collecting n todo pre"
  shows "system_run cfg w (w\<lparr>phase := Collecting n todo (pre @ rest)\<rparr>)"
  using assms
proof (induction rest arbitrary: w pre)
  case Nil
  then have "w\<lparr>phase := Collecting n todo (pre @ [])\<rparr> = w" by (cases w) simp
  then show ?case by simp
next
  case (Cons e rest)
  obtain k t where e: "e = (k, t)" by (cases e)
  let ?u = "w\<lparr>phase := Collecting n todo (pre @ [(k, t)])\<rparr>"
  have k: "k \<notin> fst ` set pre" using Cons.prems(2) by (auto simp: e image_iff)
  have "system_step cfg w ?u"
    using Cons.prems(1,3) k by (intro collect_one) (simp_all add: e dm_get_middle)
  moreover have "system_run cfg ?u (?u\<lparr>phase := Collecting n todo ((pre @ [(k, t)]) @ rest)\<rparr>)"
    using Cons.prems by (intro Cons.IH) (simp_all add: e)
  ultimately show ?case by (auto simp: e intro: run_first)
qed

lemma run_visits:
  assumes "queue w = pre @ rest" and "distinct (map fst (pre @ rest))"
    and "phase w = Scanning todo visited reached before"
    and "set visited = fst ` set pre" and "retry_scan (sys_profile cfg) rest = Inr (rest', wires, found)"
  shows "\<exists>visited' vs. set visited' = fst ` set (pre @ rest) \<and> rev (map snd vs) = wires \<and>
    system_run cfg w (w\<lparr>queue := pre @ rest', phase := Scanning todo visited' (reached @ found) (before @ wires),
      visits := vs @ visits w\<rparr>)"
  using assms
proof (induction rest arbitrary: w pre visited reached before rest' wires found)
  case Nil
  then have same: "w\<lparr>queue := pre, phase := Scanning todo visited reached before\<rparr> = w" by (cases w) simp
  have "system_run cfg w (w\<lparr>queue := pre, phase := Scanning todo visited reached before\<rparr>)"
    unfolding same by (rule rtranclp.rtrancl_refl)
  with Nil show ?case by (intro exI [of _ visited] exI [of _ "[]"]) simp
next
  case (Cons e rest)
  obtain k t where e: "e = (k, t)" by (cases e)
  from Cons.prems(5) obtain t' r rest1 wires1 found1
    where entry: "retry_entry (sys_profile cfg) t = Inr (t', r)"
      and scan: "retry_scan (sys_profile cfg) rest = Inr (rest1, wires1, found1)"
      and out: "rest' = (k, t') # rest1" "wires = wire_transaction t # wires1" "found = r @ found1"
    by (auto simp: e and_then_eq_Inr)
  have k: "k \<notin> fst ` set pre" using Cons.prems(2) by (auto simp: e image_iff)
  let ?wire = "wire_transaction t"
  let ?u = "w\<lparr>queue := dm_insert k t' (queue w),
    phase := Scanning todo (k # visited) (reached @ r) (before @ [?wire]), visits := (k, ?wire) # visits w\<rparr>"
  have "system_step cfg w ?u"
    using Cons.prems(1,3,4) k entry by (intro visit) (simp_all add: e dm_get_middle)
  moreover have "\<exists>visited' vs. set visited' = fst ` set ((pre @ [(k, t')]) @ rest) \<and> rev (map snd vs) = wires1 \<and>
      system_run cfg ?u (?u\<lparr>queue := (pre @ [(k, t')]) @ rest1,
        phase := Scanning todo visited' ((reached @ r) @ found1) ((before @ [?wire]) @ wires1),
        visits := vs @ visits ?u\<rparr>)"
  proof (rule Cons.IH)
    show "queue ?u = (pre @ [(k, t')]) @ rest" using Cons.prems(1) k by (simp add: e dm_insert_middle)
    show "distinct (map fst ((pre @ [(k, t')]) @ rest))" using Cons.prems(2) by (simp add: e)
    show "set (k # visited) = fst ` set (pre @ [(k, t')])" using Cons.prems(4) by simp
  qed (use scan in simp_all)
  then obtain visited' vs where "set visited' = fst ` set (pre @ e # rest)" "rev (map snd vs) = wires1"
    "system_run cfg ?u (w\<lparr>queue := pre @ rest', phase := Scanning todo visited' (reached @ found) (before @ wires),
        visits := (vs @ [(k, ?wire)]) @ visits w\<rparr>)"
    by (auto simp: e out)
  ultimately show ?case
    by (intro exI [of _ visited'] exI [of _ "vs @ [(k, ?wire)]"]) (simp add: out run_first)
qed

lemma run_sends:
  assumes "retry_sends leaders_at i wires = Inr tasks" and "range leaders_at \<subseteq> sys_leaders cfg"
    and "phase w = Sending wires reached"
  shows "system_run cfg w (w\<lparr>phase := Sending [] reached, sends := sends w @ tasks\<rparr>)"
  using assms
proof (induction wires arbitrary: w i tasks)
  case Nil
  then have "w\<lparr>phase := Sending [] reached, sends := sends w @ tasks\<rparr> = w" by (cases w) simp
  then show ?case by simp
next
  case (Cons wire wires)
  then obtain ls tasks' where ls: "leaders_at i = Inr ls"
    and rest: "retry_sends leaders_at (Suc i) wires = Inr tasks'"
    and tasks: "tasks = spawn_sends wire ''not_applicable'' True 0 ls @ tasks'"
    by (auto simp: and_then_eq_Inr)
  have "Inr ls \<in> sys_leaders cfg" using Cons.prems(2) ls by (metis rangeI subsetD)
  then have "system_step cfg w (w\<lparr>phase := Sending wires reached,
      sends := sends w @ spawn_sends wire ''not_applicable'' True 0 ls\<rparr>)"
    using Cons.prems(3) by (intro send_wire)
  from run_first [OF this Cons.IH [OF rest Cons.prems(2)]] show ?case by (simp add: tasks)
qed

lemma fold_remove_twice: "fold dm_remove (concat (map (\<lambda>k. [k, k]) ks)) s = fold dm_remove ks s"
  unfolding fold_dm_remove by (rule filter_cong) auto

text \<open>The steps up to the first removal: the length, the snapshot if the queue is too long, the victims.\<close>

lemma run_shed:
  assumes "phase w = Sleeping" and "distinct (map fst (queue w))"
    and "shed_victims (sys_profile cfg) (sys_queue_bound cfg) (length (queue w)) (queue w) = Inr victims"
  shows "system_run cfg w (w\<lparr>queue := fold dm_remove victims (queue w), phase := Shedding []\<rparr>)"
proof -
  let ?n = "w\<lparr>phase := Length_read (length (queue w))\<rparr>"
  have read: "system_step cfg w ?n" using assms(1) by (rule read_length)
  show ?thesis
  proof (cases "over_limit (sys_queue_bound cfg) (length (queue w))")
    case False
    then have "victims = []"
      using assms(3) by (auto simp: over_limit_def shed_victims_def split: option.splits)
    moreover have "system_step cfg ?n (?n\<lparr>phase := Shedding []\<rparr>)" using False by (intro keep_all) simp_all
    ultimately show ?thesis using read by (auto intro: run_first)
  next
    case True
    let ?c = "\<lambda>seen. w\<lparr>phase := Collecting (length (queue w)) (map fst (queue w)) seen\<rparr>"
    let ?s = "w\<lparr>phase := Shedding (concat (map (\<lambda>k. [k, k]) victims))\<rparr>"
    have "system_step cfg ?n (?c [])" using True collect [of ?n "length (queue w)" cfg] by simp
    moreover have "system_run cfg (?c []) (?c (queue w))"
      using run_collecting [of "?c []" "[]" "queue w"] assms(2) by simp
    moreover have "system_step cfg (?c (queue w)) ?s"
      using shed [of "?c (queue w)" "length (queue w)" "map fst (queue w)" "queue w" cfg victims] assms(3) by simp
    moreover have "system_run cfg ?s (w\<lparr>queue := fold dm_remove victims (queue w), phase := Shedding []\<rparr>)"
      using run_shedding [of ?s "concat (map (\<lambda>k. [k, k]) victims)" cfg] by (simp add: fold_remove_twice)
    ultimately show ?thesis using read by (meson r_into_rtranclp rtranclp_trans)
  qed
qed

lemma run_pass:
  assumes "phase w = Sleeping" and "store_ok (queue w)" and "range leaders_at \<subseteq> sys_leaders cfg"
    and "retry_pass (sys_profile cfg) (sys_queue_bound cfg) leaders_at (queue w) = Inr r"
  shows "\<exists>vs. rev (map snd vs) = pass_wires r \<and>
    system_run cfg w (w\<lparr>queue := pass_store r, visits := vs @ visits w, sends := sends w @ pass_tasks r\<rparr>)"
proof -
  from assms(4) obtain victims s' wires reached tasks where
    shed: "shed_victims (sys_profile cfg) (sys_queue_bound cfg) (length (queue w)) (queue w) = Inr victims"
    and scan: "retry_scan (sys_profile cfg) (fold dm_remove victims (queue w)) = Inr (s', wires, reached)"
    and tasks: "retry_sends leaders_at 0 wires = Inr tasks"
    and r: "pass_store r = fold dm_remove reached s'" "pass_wires r = wires" "pass_tasks r = tasks"
    by (auto simp: retry_pass_def and_then_eq_Inr)
  let ?kept = "fold dm_remove victims (queue w)"
  have dist: "distinct (map fst (queue w))" "distinct (map fst ?kept)"
    using assms(2) by (simp_all add: fold_dm_remove store_ok_entries dm_ok_def distinct_map_filter)
  let ?u = "\<lambda>q ph vs ss. w\<lparr>queue := q, phase := ph, visits := vs, sends := ss\<rparr>"
  let ?a = "?u ?kept (Shedding []) (visits w) (sends w)"
  let ?b = "?u ?kept (Scanning (map fst ?kept) [] [] []) (visits w) (sends w)"
  have "system_run cfg w ?a" using run_shed [OF assms(1) dist(1) shed] by (cases w) simp
  moreover have "system_step cfg ?a ?b" using system_step.scan [of ?a cfg] by (cases w) simp
  ultimately have start: "system_run cfg w ?b" by (rule run_step)
  obtain visited vs where vis: "set visited = fst ` set ?kept" "rev (map snd vs) = wires"
    and visits: "system_run cfg ?b
      (?b\<lparr>queue := s', phase := Scanning (map fst ?kept) visited reached wires, visits := vs @ visits w\<rparr>)"
    using run_visits [of ?b "[]" ?kept "map fst ?kept" "[]" "[]" "[]" cfg s' wires reached] dist(2) scan by auto
  let ?c = "?u s' (Scanning (map fst ?kept) visited reached wires) (vs @ visits w) (sends w)"
  let ?d = "?u s' (Sending wires reached) (vs @ visits w) (sends w)"
  let ?e = "\<lambda>q ph. ?u q ph (vs @ visits w) (sends w @ tasks)"
  from visits have "system_run cfg ?b ?c" by (cases w) simp
  moreover have "system_step cfg ?c ?d" using scanned [of ?c] vis(1) by (cases w) simp
  moreover have "system_run cfg ?d (?e s' (Sending [] reached))"
    using run_sends [OF tasks assms(3), of ?d reached] by (cases w) simp
  moreover have "system_step cfg (?e s' (Sending [] reached)) (?e s' (Removing_reached reached))"
    using sent [of "?e s' (Sending [] reached)" reached cfg] by (cases w) simp
  moreover have "system_run cfg (?e s' (Removing_reached reached)) (?e (pass_store r) (Removing_reached []))"
    using run_removing [of "?e s' (Removing_reached reached)" reached cfg] by (cases w) (simp add: r)
  moreover have "system_step cfg (?e (pass_store r) (Removing_reached [])) (?e (pass_store r) Sleeping)"
    using pass_done [of "?e (pass_store r) (Removing_reached [])" cfg] by (cases w) simp
  ultimately have "system_run cfg w (?e (pass_store r) Sleeping)"
    using start by (meson r_into_rtranclp rtranclp_trans)
  moreover have "?e (pass_store r) Sleeping =
      w\<lparr>queue := pass_store r, visits := vs @ visits w, sends := sends w @ pass_tasks r\<rparr>"
    using assms(1) by (cases w) (simp add: r)
  ultimately show ?thesis using vis(2) r(2) by (intro exI [of _ vs]) simp
qed

lemma run_submission:
  assumes "request_encoding (sys_server cfg) params = Inr enc"
    and "create_transaction_data (sys_server cfg) (sys_codec cfg) (sys_max_retries cfg) now params m enc txn = Inr t"
    and "get_signature t = Some sg" and "\<not> has_signature (queue w) sg"
  shows "system_run cfg w (w\<lparr>queue := add_transaction t (queue w), handlers := Filed t # handlers w,
    accepted := t # accepted w\<rparr>)"
proof -
  let ?c = "w\<lparr>handlers := Checked t # handlers w, accepted := t # accepted w\<rparr>"
  let ?s = "?c\<lparr>handlers := Storing t # handlers w\<rparr>"
  obtain sg1 where "index (signatures (versioned_transaction t)) 0 = Inr sg1" "sg = sig_text sg1"
    using assms(3) by (auto simp: get_signature_def split: list.splits)
  with assms(1,2,4) have "system_step cfg w ?c" by (auto intro: request)
  moreover have new: "\<not> dm_contains_key (queue w) sg" using assms(4) by (simp add: has_signature_def)
  then have "system_step cfg ?c ?s" using unknown [of t ?c sg cfg] assms(3) by simp
  moreover have "system_step cfg ?s (?s\<lparr>queue := dm_insert sg t (queue w), handlers := Filed t # handlers w\<rparr>)"
    using store [of t ?s sg cfg] assms(3) by simp
  ultimately have "system_run cfg w (?s\<lparr>queue := dm_insert sg t (queue w), handlers := Filed t # handlers w\<rparr>)"
    by (meson r_into_rtranclp rtranclp_trans)
  then show ?thesis using assms(3) new by (cases w) (simp add: add_transaction_def)
qed

lemma run_spawn:
  assumes "get_signature t = Some sg" and "handlers w = Filed t # hs"
    and "compute_priority_details (sys_budget cfg) (versioned_transaction t) = Inr d"
  shows "system_run cfg w (w\<lparr>handlers := Tracked t # hs, confirmers := confirm_task_for t sg d # confirmers w\<rparr>)"
  using spawn [of t w sg cfg d] assms by (auto intro: r_into_rtranclp)

lemma run_abandon:
  assumes "get_signature t = Some sg" and "handlers w = Filed t # hs"
    and "compute_priority_details (sys_budget cfg) (versioned_transaction t) = Inl e"
  shows "system_run cfg w (w\<lparr>handlers := hs, abandoned := sg # abandoned w\<rparr>)"
  using abandon [of t w sg cfg e] assms by (auto intro: r_into_rtranclp)

lemma run_first_sends:
  assumes "handlers w = Tracked t # hs" and "leaders \<in> sys_leaders cfg"
  shows "system_run cfg w (w\<lparr>handlers := hs, sends := sends w @ (case leaders of Inl e \<Rightarrow> []
    | Inr ls \<Rightarrow> spawn_sends (wire_transaction t) (api_key_or_none (request_metadata t)) False 0 ls)\<rparr>)"
proof (cases leaders)
  case (Inl e)
  have "w\<lparr>handlers := hs, sends := sends w\<rparr> = w\<lparr>handlers := hs\<rparr>" by (cases w) simp
  with first_sends_panic [of t w e cfg] assms Inl show ?thesis by (auto intro: r_into_rtranclp)
next
  case (Inr ls)
  with first_sends [of t w ls cfg] assms show ?thesis by (auto intro: r_into_rtranclp)
qed

text \<open>The end of a handler that has filed its transaction, as \<open>send_transaction\<close> has it.\<close>

definition spawned_sends :: "('a \<times> send_task list) option \<Rightarrow> send_task list" where
  "spawned_sends spawned = (case spawned of None \<Rightarrow> [] | Some (c, tasks) \<Rightarrow> tasks)"

lemma run_filed:
  assumes "get_signature t = Some sg" and "handlers w = Filed t # hs" and "leaders \<in> sys_leaders cfg"
    and "snd (send_transaction (sys_budget cfg) leaders t s) = r"
  shows "\<exists>w'. system_run cfg w w' \<and> queue w' = queue w \<and> handlers w' = hs \<and> phase w' = phase w \<and>
    sends w' = sends w @ (case r of Inl e \<Rightarrow> [] | Inr (c, tasks) \<Rightarrow> tasks)"
proof (cases "compute_priority_details (sys_budget cfg) (versioned_transaction t)")
  case (Inl e)
  then have "r = Inl e" using assms(1,4) by (auto simp: send_transaction_def track_transaction_def Let_def)
  with run_abandon [OF assms(1,2) Inl] show ?thesis by (intro exI conjI) (assumption | simp)+
next
  case (Inr d)
  let ?u = "w\<lparr>handlers := Tracked t # hs, confirmers := confirm_task_for t sg d # confirmers w\<rparr>"
  let ?new = "case leaders of Inl e \<Rightarrow> []
    | Inr ls \<Rightarrow> spawn_sends (wire_transaction t) (api_key_or_none (request_metadata t)) False 0 ls"
  have "system_run cfg ?u (?u\<lparr>handlers := hs, sends := sends ?u @ ?new\<rparr>)"
    using run_first_sends [of ?u t hs leaders cfg] assms(3) by simp
  with run_spawn [OF assms(1,2) Inr]
  have "system_run cfg w (?u\<lparr>handlers := hs, sends := sends ?u @ ?new\<rparr>)" by (rule rtranclp_trans)
  moreover have "(case r of Inl e \<Rightarrow> [] | Inr (c, tasks) \<Rightarrow> tasks) = ?new"
    using assms(1,4) Inr by (auto simp: send_transaction_def track_transaction_def Let_def split: sum.split)
  ultimately show ?thesis by (intro exI conjI) (assumption | simp)+
qed

lemma run_rpc_send:
  assumes "rpc_send (sys_server cfg) (sys_codec cfg) (sys_max_retries cfg) now (sys_budget cfg) leaders txn params m
      (queue w) = (q, spawned, res)" and "leaders \<in> sys_leaders cfg"
  shows "\<exists>w'. system_run cfg w w' \<and> queue w' = q \<and> handlers w' = handlers w \<and> phase w' = phase w \<and>
    sends w' = sends w @ spawned_sends spawned"
proof (cases "and_then (request_encoding (sys_server cfg) params) (\<lambda>enc.
      create_transaction_data (sys_server cfg) (sys_codec cfg) (sys_max_retries cfg) now params m enc txn)")
  case (Inl e)
  with assms have "q = queue w" "spawned = None" by (simp_all add: rpc_send_def server_send_transaction_def)
  then show ?thesis by (intro exI [of _ w]) (simp add: spawned_sends_def)
next
  case (Inr t)
  then obtain enc where enc: "request_encoding (sys_server cfg) params = Inr enc"
    and t: "create_transaction_data (sys_server cfg) (sys_codec cfg) (sys_max_retries cfg) now params m enc txn = Inr t"
    by (auto simp: and_then_eq_Inr)
  let ?app = "app_send_transaction has_signature (send_transaction (sys_budget cfg) leaders) t m (queue w)"
  have q: "q = app_store ?app" "spawned = app_spawned ?app"
    using assms(1) by (simp_all add: rpc_send_created [OF enc t] Let_def)
  show ?thesis
  proof (cases rule: sender.app_cases [where t = t and s = "queue w"])
    case unsigned
    with q show ?thesis by (intro exI [of _ w]) (simp add: sender.app_unsigned spawned_sends_def)
  next
    case (duplicate sg)
    with q show ?thesis by (intro exI [of _ w]) (simp add: sender.app_duplicate spawned_sends_def)
  next
    case (first sg)
    let ?f = "w\<lparr>queue := add_transaction t (queue w), handlers := Filed t # handlers w, accepted := t # accepted w\<rparr>"
    obtain r where sub: "send_transaction (sys_budget cfg) leaders t (queue w) = (add_transaction t (queue w), r)"
      using fst_send_transaction [of "sys_budget cfg" leaders t "queue w"]
      by (cases "send_transaction (sys_budget cfg) leaders t (queue w)") auto
    have out: "q = add_transaction t (queue w)"
      "spawned_sends spawned = (case r of Inl e \<Rightarrow> [] | Inr (c, tasks) \<Rightarrow> tasks)"
      using q first sub
      by (auto simp: app_send_transaction_def get_signature_def Let_def spawned_sends_def
          split: list.splits sum.splits)
    have "system_run cfg w ?f" by (rule run_submission [OF enc t first])
    moreover have "\<exists>w'. system_run cfg ?f w' \<and> queue w' = queue ?f \<and> handlers w' = handlers w \<and>
        phase w' = phase ?f \<and> sends w' = sends ?f @ (case r of Inl e \<Rightarrow> [] | Inr (c, tasks) \<Rightarrow> tasks)"
      using sub by (intro run_filed [OF first(1) _ assms(2), where s = "queue w"]) simp_all
    ultimately show ?thesis using out by (auto intro: rtranclp_trans)
  qed
qed

section \<open>Properties\<close>

definition demo_config :: "usize option \<Rightarrow> system_config" where
  "demo_config bound = \<lparr>sys_profile = Release, sys_server = demo_server, sys_codec = server_codec,
     sys_budget = demo_lib, sys_max_retries = 5, sys_queue_bound = bound, sys_leaders = {Inr [demo_contact ''A'']}\<rparr>"

definition demo_request :: transaction_data where
  "demo_request = \<lparr>wire_transaction = [7], versioned_transaction = demo_txn 1, sent_at = 0, retry_count = 0,
     max_retries = 5, request_metadata = None\<rparr>"

lemma demo_request_created:
  "request_encoding demo_server (demo_params None None) = Inr Base58"
  "create_transaction_data demo_server server_codec 5 0 (demo_params None None) None Base58 (raw_encode [7]) =
     Inr demo_request"
  "get_signature demo_request = Some ''sig''"
proof -
  show "request_encoding demo_server (demo_params None None) = Inr Base58"
    using demo_server_ok by (rule request_encoding_default) (simp_all add: demo_params_def)
  show "create_transaction_data demo_server server_codec 5 0 (demo_params None None) None Base58 (raw_encode [7]) =
     Inr demo_request"
    by (simp add: create_transaction_data_def decode_and_deserialize_def server_codec_def MAX_BASE58_SIZE_def
        demo_params_def demo_request_def) (simp add: raw_encode_def)
  show "get_signature demo_request = Some ''sig''"
    by (simp add: get_signature_def demo_request_def)
qed

text \<open>One transaction queued, with the task that waits for its confirmation.\<close>

definition demo_details :: priority_details where
  "demo_details = \<lparr>fee = 2100000, cu_limit = 90, priority = 7\<rparr>"

definition demo_sends :: "send_task list" where
  "demo_sends = spawn_sends [7] ''none'' False 0 [demo_contact ''A'']"

definition queued_world :: world where
  "queued_world = \<lparr>queue = [(''sig'', demo_request)], handlers = [],
     confirmers = [confirm_task_for demo_request ''sig'' demo_details], phase = Sleeping, abandoned = [],
     accepted = [demo_request], visits = [], sends = demo_sends, answers = []\<rparr>"

lemma demo_request_details:
  "compute_priority_details demo_lib (versioned_transaction demo_request) = Inr demo_details"
  by (simp add: compute_priority_details_def details_of_def demo_lib_def demo_txn_def demo_request_def
      program_of_def limit_after_def demo_details_def)

lemma queued_world_reachable: "reachable (demo_config bound) queued_world"
proof -
  let ?f = "initial_world\<lparr>queue := [(''sig'', demo_request)], handlers := [Filed demo_request], accepted := [demo_request]\<rparr>"
  let ?t = "?f\<lparr>handlers := [Tracked demo_request], confirmers := [confirm_task_for demo_request ''sig'' demo_details]\<rparr>"
  have "\<not> has_signature (queue initial_world) ''sig''"
    by (simp add: initial_world_def new_store_def has_signature_def dm_contains_key_def)
  then have "system_run (demo_config bound) initial_world
      (initial_world\<lparr>queue := add_transaction demo_request (queue initial_world),
        handlers := Filed demo_request # handlers initial_world, accepted := demo_request # accepted initial_world\<rparr>)"
    using demo_request_created by (intro run_submission) (simp_all add: demo_config_def)
  moreover have "add_transaction demo_request (queue initial_world) = [(''sig'', demo_request)]"
    by (simp add: add_transaction_def demo_request_created initial_world_def new_store_def
        dm_contains_key_def dm_insert_def)
  ultimately have "system_run (demo_config bound) initial_world ?f" by (simp add: initial_world_def)
  moreover have "system_run (demo_config bound) ?f ?t"
    using run_spawn [OF demo_request_created(3), of ?f "[]" "demo_config bound" demo_details]
    by (simp add: demo_config_def demo_request_details initial_world_def)
  moreover have "system_run (demo_config bound) ?t queued_world"
    using run_first_sends [of ?t demo_request "[]" "Inr [demo_contact ''A'']" "demo_config bound"]
    by (simp add: demo_config_def initial_world_def queued_world_def demo_sends_def demo_request_def
        api_key_or_none_def)
  ultimately show ?thesis unfolding reachable_def by (meson rtranclp_trans)
qed

text \<open>A handler that panicked between filing and spawning did so computing the priority of its request.\<close>

definition orphaned :: "system_config \<Rightarrow> world \<Rightarrow> string \<Rightarrow> bool" where
  "orphaned cfg w k \<longleftrightarrow> (\<exists>t \<in> set (accepted w). get_signature t = Some k \<and>
     (\<exists>e. compute_priority_details (sys_budget cfg) (versioned_transaction t) = Inl e))"

definition abandoned_ok :: "system_config \<Rightarrow> world \<Rightarrow> bool" where
  "abandoned_ok cfg w \<longleftrightarrow> handled ` set (handlers w) \<subseteq> set (accepted w) \<and> (\<forall>k \<in> set (abandoned w). orphaned cfg w k)"

lemma abandoned_step:
  assumes "system_step cfg w w'" and "abandoned_ok cfg w"
  shows "abandoned_ok cfg w'"
  using assms(1)
proof cases
  case (request params enc now m txn t sg)
  with assms(2) show ?thesis by (auto simp: abandoned_ok_def orphaned_def)
next
  case (abandon t sg e)
  have "t \<in> set (accepted w)" using assms(2) abandon(2) by (force simp: abandoned_ok_def)
  with assms(2) abandon show ?thesis
    using set_remove1_subset [of "Filed t" "handlers w"] by (fastforce simp: abandoned_ok_def orphaned_def)
next
  case (known t sg)
  with assms(2) set_remove1_subset [of "Checked t" "handlers w"] show ?thesis
    by (fastforce simp: abandoned_ok_def orphaned_def)
next
  case (unknown t sg)
  with assms(2) set_remove1_subset [of "Checked t" "handlers w"] show ?thesis
    by (fastforce simp: abandoned_ok_def orphaned_def)
next
  case (store t sg)
  with assms(2) set_remove1_subset [of "Storing t" "handlers w"] show ?thesis
    by (fastforce simp: abandoned_ok_def orphaned_def)
next
  case (spawn t sg d)
  with assms(2) set_remove1_subset [of "Filed t" "handlers w"] show ?thesis
    by (fastforce simp: abandoned_ok_def orphaned_def)
next
  case (first_sends t ls)
  with assms(2) set_remove1_subset [of "Tracked t" "handlers w"] show ?thesis
    by (fastforce simp: abandoned_ok_def orphaned_def)
next
  case (first_sends_panic t e)
  with assms(2) set_remove1_subset [of "Tracked t" "handlers w"] show ?thesis
    by (fastforce simp: abandoned_ok_def orphaned_def)
qed (use assms(2) in \<open>simp_all add: abandoned_ok_def orphaned_def\<close>)

lemma reachable_abandoned: "reachable cfg w \<Longrightarrow> abandoned_ok cfg w"
  unfolding reachable_def
proof (induction rule: rtranclp_induct)
  case base
  show ?case by (simp add: abandoned_ok_def initial_world_def)
qed (rule abandoned_step)

text \<open>
  C1: In every reachable state of the service, however its tasks interleave, each queued transaction
  is filed once and under its own first signature, its retry count is within its bound and that within
  the server's. Either somebody is there to remove it, a confirmation task waiting for its signature or
  a handler about to start one, or the handler of an accepted request with this signature panicked
  because its priority details cannot be computed: then nobody is left but the retry loop.
\<close>

theorem system_invariant:
  assumes "reachable cfg w"
  shows "distinct (map fst (queue w)) \<and>
    (\<forall>k t. dm_get (queue w) k = Some t \<longrightarrow>
       get_signature t = Some k \<and> retry_count t \<le> max_retries t \<and> max_retries t \<le> sys_max_retries cfg \<and>
       (tended w k \<or> k \<in> set (abandoned w) \<and>
          (\<exists>u \<in> set (accepted w). get_signature u = Some k \<and>
             (\<exists>e. compute_priority_details (sys_budget cfg) (versioned_transaction u) = Inl e))))"
proof -
  have "world_ok cfg w" using assms by (rule reachable_ok)
  moreover have "k \<in> set (abandoned w) \<Longrightarrow> orphaned cfg w k" for k
    using reachable_abandoned [OF assms] by (simp add: abandoned_ok_def)
  ultimately show ?thesis
    unfolding world_ok_def store_ok_def dm_ok_def every_entry_def entry_ok_def within_def accounted_def orphaned_def
    by blast
qed

theorem system_invariant_witness:
  "max_retries demo_request \<le> sys_max_retries (demo_config None) \<and> tended queued_world ''sig''"
  using system_invariant [OF queued_world_reachable, of None]
  by (auto simp: queued_world_def dm_get_def)

text \<open>
  C26: If no call of \<open>get_leaders\<close> panics, the retry task can only die of the slice in the load
  shedding: with no queue bound it never dies, in either build profile.
\<close>

theorem retry_task_death:
  assumes "reachable cfg w" and "\<forall>e. Inl e \<notin> sys_leaders cfg" and "phase w = Dead e"
    and "sys_queue_bound cfg \<noteq> Some (- 1)"
  shows "\<exists>mx. sys_queue_bound cfg = Some mx \<and> e = Slice_out_of_range"
proof -
  from reachable_ok [OF assms(1)] assms(2,3) obtain n entries where
    panic: "shed_victims (sys_profile cfg) (sys_queue_bound cfg) n entries = Inl e"
    by (auto simp: world_ok_def death_ok_def)
  then obtain mx where mx: "sys_queue_bound cfg = Some mx" by (cases "sys_queue_bound cfg") (auto simp: shed_victims_def)
  have "unat mx \<noteq> 2 ^ 64 - 1"
  proof
    assume "unat mx = 2 ^ 64 - 1"
    then have "of_nat (unat mx) = (of_nat (2 ^ 64 - 1) :: usize)" by simp
    then have "mx = - 1" by simp
    with mx assms(4) show False by simp
  qed
  moreover have "unat mx < 2 ^ 64" using unsigned_less [of mx, where 'a = nat] by simp
  ultimately have "unat mx < 2 ^ 64 - 1" by linarith
  from panic mx shed_victims_panic [OF this, of "sys_profile cfg" n entries] show ?thesis
    by (auto split: if_splits)
qed

lemma run_shed_race:
  assumes "phase w = Sleeping" and "sys_queue_bound cfg = Some mx" and "unat mx < 2 ^ 64 - 1"
    and "length (queue w) = unat mx + 1" and "store_ok (queue w)"
    and "task \<in> set (confirmers w)" and "has_signature (queue w) (confirm_signature task)"
  shows "\<exists>w'. system_run cfg w w' \<and> phase w' = Dead Slice_out_of_range"
proof -
  let ?n = "w\<lparr>phase := Length_read (length (queue w))\<rparr>"
  obtain ms q where fin: "finish_tracking task None 0 (queue w) = (ms, q)"
    by (cases "finish_tracking task None 0 (queue w)")
  have q: "q = dm_remove (confirm_signature task) (queue w)" by (rule finish_tracking_store [OF fin])
  obtain e where "e \<in> set (queue w)" "fst e = confirm_signature task"
    using assms(7) by (auto simp: has_signature_def dm_contains_key_iff)
  then have "length q < length (queue w)"
    unfolding q dm_remove_def by (intro length_filter_less) auto
  then have len: "length q \<le> unat mx" using assms(4) by simp
  have "store_ok q" using assms(5) by (simp add: q store_ok_dm_remove)
  then have dist: "distinct (map fst q)" by (simp add: store_ok_entries dm_ok_def)
  let ?c = "w\<lparr>phase := Length_read (unat mx + 1), queue := q, confirmers := remove1 task (confirmers w),
    answers := (confirm_signature task, None) # answers w\<rparr>"
  let ?k = "\<lambda>seen. ?c\<lparr>phase := Collecting (unat mx + 1) (map fst q) seen\<rparr>"
  have "system_step cfg w ?n" using assms(1) by (rule read_length)
  moreover have "system_step cfg ?n ?c" using confirm [of task ?n None 0 ms q cfg] fin assms(4,6) by simp
  moreover have "system_step cfg ?c (?k [])"
    using collect [of ?c "unat mx + 1" cfg] assms(2) by (simp add: over_limit_def)
  moreover have "system_run cfg (?k []) (?k q)"
    using run_collecting [of "?k []" "[]" q "unat mx + 1" "map fst q" cfg] dist by simp
  moreover have "shed_victims (sys_profile cfg) (sys_queue_bound cfg) (unat mx + 1) q = Inl Slice_out_of_range"
    using shed_victims_panic [OF assms(3), of "sys_profile cfg" "unat mx + 1" q] len assms(2) by simp
  then have "system_step cfg (?k q) (?c\<lparr>phase := Dead Slice_out_of_range\<rparr>)"
    using shed_panic [of "?k q" "unat mx + 1" "map fst q" q cfg] by simp
  ultimately have "system_run cfg w (?c\<lparr>phase := Dead Slice_out_of_range\<rparr>)"
    by (meson r_into_rtranclp rtranclp_trans)
  then show ?thesis by (intro exI conjI) (assumption, simp)
qed

text \<open>
  C27: The panic of the load shedding happens: from any reachable state in which the retry task is
  asleep and the queue holds one transaction more than its bound, a confirmation that arrives between
  the reading of the length and the collection of the snapshot kills the retry task, and no later step
  revives it.
\<close>

theorem shed_race_reachable:
  assumes "reachable cfg w" and "phase w = Sleeping" and "sys_queue_bound cfg = Some mx" and "unat mx < 2 ^ 64 - 1"
    and "length (queue w) = unat mx + 1"
    and "task \<in> set (confirmers w)" and "has_signature (queue w) (confirm_signature task)"
  shows "\<exists>w'. reachable cfg w' \<and> system_run cfg w w' \<and>
    (\<forall>w''. system_run cfg w' w'' \<longrightarrow> phase w'' = Dead Slice_out_of_range)"
proof -
  have "store_ok (queue w)" using reachable_ok [OF assms(1)] by (simp add: world_ok_def)
  from run_shed_race [OF assms(2-5) this assms(6,7)]
  obtain w' where "system_run cfg w w'" and "phase w' = Dead Slice_out_of_range" by blast
  with assms(1) dead_for_good [of cfg w' _ Slice_out_of_range] show ?thesis
    unfolding reachable_def by (meson rtranclp_trans)
qed

theorem shed_race_reachable_witness:
  "\<exists>w'. reachable (demo_config (Some 0)) w' \<and> phase w' = Dead Slice_out_of_range"
proof -
  have "\<exists>w'. reachable (demo_config (Some 0)) w' \<and> system_run (demo_config (Some 0)) queued_world w' \<and>
      (\<forall>w''. system_run (demo_config (Some 0)) w' w'' \<longrightarrow> phase w'' = Dead Slice_out_of_range)"
    by (rule shed_race_reachable [OF queued_world_reachable, of _ 0
          "confirm_task_for demo_request ''sig'' demo_details"])
      (simp_all add: queued_world_def demo_config_def confirm_task_for_def has_signature_def
        dm_contains_key_def dm_get_def)
  then show ?thesis by blast
qed

theorem retry_task_death_witness:
  "\<exists>w'. reachable (demo_config (Some 0)) w' \<and> (\<exists>e. phase w' = Dead e \<and> e = Slice_out_of_range)"
proof -
  have "\<exists>w'. system_run (demo_config (Some 0)) queued_world w' \<and> phase w' = Dead Slice_out_of_range"
    by (rule run_shed_race [where mx = 0 and task = "confirm_task_for demo_request ''sig'' demo_details"])
      (simp_all add: queued_world_def demo_config_def confirm_task_for_def has_signature_def
        dm_contains_key_def dm_get_def store_ok_entries entry_ok_def dm_ok_def demo_request_created,
       simp add: demo_request_def)
  then obtain w' e where w': "reachable (demo_config (Some 0)) w'" and "phase w' = Dead e"
    using queued_world_reachable [of "Some 0"] unfolding reachable_def by (meson rtranclp_trans)
  with retry_task_death [OF w' _ this(2)] show ?thesis by (auto simp: demo_config_def)
qed

text \<open>
  C38: The duplicate check is not atomic with the insertion: any request whose transaction has
  computable priority details can be raced by a copy of itself, so that both pass the check, both are
  submitted and two confirmation tasks wait for the one entry.
\<close>

theorem duplicate_race:
  assumes "request_encoding (sys_server cfg) params = Inr enc"
    and "create_transaction_data (sys_server cfg) (sys_codec cfg) (sys_max_retries cfg) now params m enc txn = Inr t"
    and "get_signature t = Some sg"
    and "compute_priority_details (sys_budget cfg) (versioned_transaction t) = Inr d"
  shows "\<exists>w. reachable cfg w \<and> queue w = [(sg, t)] \<and> accepted w = [t, t] \<and>
    handlers w = [Tracked t, Tracked t] \<and> confirmers w = [confirm_task_for t sg d, confirm_task_for t sg d]"
proof -
  obtain sg1 where first: "index (signatures (versioned_transaction t)) 0 = Inr sg1" "sg = sig_text sg1"
    using assms(3) by (auto simp: get_signature_def split: list.splits)
  let ?c = "confirm_task_for t sg d"
  let ?w = "\<lambda>q hs cs as. \<lparr>queue = q, handlers = hs, confirmers = cs, phase = Sleeping, abandoned = [],
    accepted = as, visits = [], sends = [], answers = []\<rparr>"
  have check: "system_step cfg (?w [] hs [] as) (?w [] (Checked t # hs) [] (t # as))" for hs as
    using request [OF assms(1,2) first(1), of "?w [] hs [] as"]
    by (simp add: has_signature_def dm_contains_key_def)
  have "system_run cfg initial_world (?w [] [Checked t] [] [t])"
    using check [of "[]" "[]"] by (simp add: initial_world_def new_store_def r_into_rtranclp)
  moreover have "system_step cfg (?w [] [Checked t] [] [t]) (?w [] [Checked t, Checked t] [] [t, t])" by (rule check)
  moreover have "system_step cfg (?w [] [Checked t, Checked t] [] [t, t]) (?w [] [Storing t, Checked t] [] [t, t])"
    using unknown [of t "?w [] [Checked t, Checked t] [] [t, t]" sg cfg] assms(3) by (simp add: dm_contains_key_def)
  moreover have "system_step cfg (?w [] [Storing t, Checked t] [] [t, t]) (?w [] [Storing t, Storing t] [] [t, t])"
    using unknown [of t "?w [] [Storing t, Checked t] [] [t, t]" sg cfg] assms(3) by (simp add: dm_contains_key_def)
  moreover have "system_step cfg (?w [] [Storing t, Storing t] [] [t, t]) (?w [(sg, t)] [Filed t, Storing t] [] [t, t])"
    using store [of t "?w [] [Storing t, Storing t] [] [t, t]" sg cfg] assms(3) by (simp add: dm_insert_def)
  moreover have "system_step cfg (?w [(sg, t)] [Filed t, Storing t] [] [t, t]) (?w [(sg, t)] [Filed t, Filed t] [] [t, t])"
    using store [of t "?w [(sg, t)] [Filed t, Storing t] [] [t, t]" sg cfg] assms(3) by (simp add: dm_insert_def)
  moreover have "system_run cfg (?w [(sg, t)] [Filed t, Filed t] [] [t, t]) (?w [(sg, t)] [Tracked t, Filed t] [?c] [t, t])"
    using run_spawn [OF assms(3) _ assms(4), of "?w [(sg, t)] [Filed t, Filed t] [] [t, t]" "[Filed t]"] by simp
  moreover have "system_step cfg (?w [(sg, t)] [Tracked t, Filed t] [?c] [t, t])
      (?w [(sg, t)] [Tracked t, Tracked t] [?c, ?c] [t, t])"
    using spawn [of t "?w [(sg, t)] [Tracked t, Filed t] [?c] [t, t]" sg cfg d] assms(3,4) by simp
  ultimately have run: "system_run cfg initial_world (?w [(sg, t)] [Tracked t, Tracked t] [?c, ?c] [t, t])"
    by (meson r_into_rtranclp rtranclp_trans)
  show ?thesis
    unfolding reachable_def by (rule exI, rule conjI, rule run) simp
qed

theorem duplicate_race_witness:
  "\<exists>w. reachable (demo_config None) w \<and> queue w = [(''sig'', demo_request)] \<and> length (confirmers w) = 2"
  using duplicate_race [of "demo_config None" "demo_params None None" Base58 0 None "raw_encode [7]" demo_request
      "''sig''" demo_details]
  by (auto simp: demo_config_def demo_request_created demo_request_details)

text \<open>
  C12: No reachable state strands a queued transaction: by the steps of its own handler and
  confirmation task alone, without the retry loop, it can always leave the queue, unless its handler
  panicked or panics on the way.
\<close>

theorem queued_can_leave:
  assumes "reachable cfg w" and "dm_get (queue w) k = Some t"
  shows "\<exists>w'. system_run cfg w w' \<and> (dm_get (queue w') k = None \<or> k \<in> set (abandoned w')) \<and> phase w' = phase w"
proof -
  have ok: "world_ok cfg w" by (rule reachable_ok [OF assms(1)])
  have leave: "\<exists>w'. system_run cfg u w' \<and> (dm_get (queue w') k = None \<or> k \<in> set (abandoned w')) \<and> phase w' = phase w"
    if "world_ok cfg u" "phase u = phase w" "task \<in> set (confirmers u)" "confirm_signature task = k" for u task
  proof -
    obtain ms q where fin: "finish_tracking task None 0 (queue u) = (ms, q)"
      by (cases "finish_tracking task None 0 (queue u)")
    have "dm_ok (queue u)" using that(1) by (simp add: world_ok_def store_ok_dm)
    then have "dm_get q k = None"
      using finish_tracking_store [OF fin] that(4) by (simp add: dash)
    with confirm [OF that(3) fin, of cfg] that(2) show ?thesis
      by (intro exI [of _ "u\<lparr>queue := q, confirmers := remove1 task (confirmers u),
          answers := (confirm_signature task, None) # answers u\<rparr>"]) auto
  qed
  have "accounted w k" using ok assms(2) by (auto simp: world_ok_def every_entry_def)
  then consider (confirmer) task where "task \<in> set (confirmers w)" "confirm_signature task = k"
    | (handler) u where "Filed u \<in> set (handlers w)" "get_signature u = Some k"
    | (orphan) "k \<in> set (abandoned w)"
    by (auto simp: accounted_def tended_def)
  then show ?thesis
  proof cases
    case confirmer
    then show ?thesis using leave [OF ok] by blast
  next
    case handler
    show ?thesis
    proof (cases "compute_priority_details (sys_budget cfg) (versioned_transaction u)")
      case (Inl e)
      from abandon [OF handler Inl] show ?thesis by (intro exI conjI) (erule r_into_rtranclp, simp_all)
    next
      case (Inr d)
      let ?s = "w\<lparr>handlers := Tracked u # remove1 (Filed u) (handlers w), confirmers := confirm_task_for u k d # confirmers w\<rparr>"
      have step: "system_step cfg w ?s" by (rule spawn [OF handler Inr])
      have "\<exists>w'. system_run cfg ?s w' \<and> (dm_get (queue w') k = None \<or> k \<in> set (abandoned w')) \<and> phase w' = phase w"
        using world_ok_step [OF step ok]
        by (rule leave [where task = "confirm_task_for u k d"]) (simp_all add: confirm_task_for_def)
      with step show ?thesis by (meson converse_rtranclp_into_rtranclp)
    qed
  next
    case orphan
    then show ?thesis by blast
  qed
qed

theorem queued_can_leave_witness:
  "\<exists>w'. system_run (demo_config None) queued_world w' \<and>
     (dm_get (queue w') ''sig'' = None \<or> ''sig'' \<in> set (abandoned w')) \<and> phase w' = Sleeping"
  using queued_can_leave [OF queued_world_reachable, of "''sig''" demo_request None]
  by (simp add: queued_world_def dm_get_def)

section \<open>Progress of the retry task\<close>

text \<open>Only the retry task has moved.\<close>

definition others_kept :: "world \<Rightarrow> world \<Rightarrow> bool" where
  "others_kept w w' \<longleftrightarrow> handlers w' = handlers w \<and> confirmers w' = confirmers w \<and>
     abandoned w' = abandoned w \<and> accepted w' = accepted w \<and> answers w' = answers w"

lemma others_kept_refl [simp]: "others_kept w w"
  by (simp add: others_kept_def)

lemma others_kept_trans: "others_kept u v \<Longrightarrow> others_kept v w \<Longrightarrow> others_kept u w"
  by (simp add: others_kept_def)

definition waiting_keys :: "string list \<Rightarrow> string set \<Rightarrow> tx_store \<Rightarrow> string set" where
  "waiting_keys todo seen s = {k \<in> set todo. k \<notin> seen \<and> dm_get s k \<noteq> None}"

lemma waiting_keys_less:
  assumes "k \<in> waiting_keys todo seen s" and "\<And>k'. dm_get s' k' \<noteq> None \<Longrightarrow> dm_get s k' \<noteq> None"
  shows "card (waiting_keys todo (insert k seen) s') < card (waiting_keys todo seen s)"
proof (rule psubset_card_mono)
  show "finite (waiting_keys todo seen s)" by (simp add: waiting_keys_def)
  show "waiting_keys todo (insert k seen) s' \<subset> waiting_keys todo seen s"
    using assms by (auto simp: waiting_keys_def)
qed

lemma collecting_ends:
  assumes "phase w = Collecting n todo seen"
  shows "\<exists>seen'. system_run cfg w (w\<lparr>phase := Collecting n todo seen'\<rparr>) \<and>
    waiting_keys todo (fst ` set seen') (queue w) = {}"
  using assms
proof (induction "card (waiting_keys todo (fst ` set seen) (queue w))" arbitrary: w seen rule: less_induct)
  case less
  show ?case
  proof (cases "waiting_keys todo (fst ` set seen) (queue w) = {}")
    case True
    have "w\<lparr>phase := Collecting n todo seen\<rparr> = w" using less.prems by (cases w) simp
    with True show ?thesis by (metis rtranclp.rtrancl_refl)
  next
    case False
    then obtain k where k: "k \<in> waiting_keys todo (fst ` set seen) (queue w)" by blast
    then obtain t where t: "k \<notin> fst ` set seen" "dm_get (queue w) k = Some t"
      by (auto simp: waiting_keys_def)
    let ?u = "w\<lparr>phase := Collecting n todo (seen @ [(k, t)])\<rparr>"
    have "system_step cfg w ?u" using less.prems t by (intro collect_one) simp_all
    moreover have "fst ` set (seen @ [(k, t)]) = insert k (fst ` set seen)" by auto
    then have "card (waiting_keys todo (fst ` set (seen @ [(k, t)])) (queue ?u))
        < card (waiting_keys todo (fst ` set seen) (queue w))"
      using waiting_keys_less [OF k, of "queue w"] by simp
    from less.hyps [OF this] obtain seen' where
      "system_run cfg ?u (w\<lparr>phase := Collecting n todo seen'\<rparr>)"
      "waiting_keys todo (fst ` set seen') (queue w) = {}"
      by auto
    ultimately show ?thesis by (meson run_first)
  qed
qed

lemma scanning_ends:
  assumes "world_ok cfg w" and "phase w = Scanning todo visited reached wires"
  shows "\<exists>w' wires' reached'. system_run cfg w w' \<and> phase w' = Sending wires' reached' \<and> others_kept w w'"
  using assms
proof (induction "card (waiting_keys todo (set visited) (queue w))" arbitrary: w visited reached wires rule: less_induct)
  case less
  show ?case
  proof (cases "waiting_keys todo (set visited) (queue w) = {}")
    case True
    then have "system_step cfg w (w\<lparr>phase := Sending wires reached\<rparr>)"
      using less.prems(2) by (intro scanned) (auto simp: waiting_keys_def)
    then show ?thesis
      by (intro exI conjI) (rule r_into_rtranclp, assumption, simp_all add: others_kept_def)
  next
    case False
    then obtain k where k: "k \<in> waiting_keys todo (set visited) (queue w)" by blast
    then obtain t where t: "k \<notin> set visited" "dm_get (queue w) k = Some t" by (auto simp: waiting_keys_def)
    obtain t' r where entry: "retry_entry (sys_profile cfg) t = Inr (t', r)"
      using visit_never_panics [OF less.prems(1) t(2), of "sys_profile cfg"]
      by (cases "retry_entry (sys_profile cfg) t") auto
    let ?u = "w\<lparr>queue := dm_insert k t' (queue w),
      phase := Scanning todo (k # visited) (reached @ r) (wires @ [wire_transaction t]),
      visits := (k, wire_transaction t) # visits w\<rparr>"
    have step: "system_step cfg w ?u" by (rule visit [OF less.prems(2) t entry])
    have "dm_ok (queue w)" using less.prems(1) by (auto simp: world_ok_def)
    then have "dm_get (queue w) k' \<noteq> None" if "dm_get (dm_insert k t' (queue w)) k' \<noteq> None" for k'
      using that t(2) by (auto simp: dash split: if_splits)
    from waiting_keys_less [OF k this]
    have "card (waiting_keys todo (set (k # visited)) (queue ?u))
        < card (waiting_keys todo (set visited) (queue w))" by simp
    from less.hyps [OF this world_ok_step [OF step less.prems(1)]] obtain w' wires' reached' where
      "system_run cfg ?u w'" "phase w' = Sending wires' reached'" "others_kept ?u w'"
      by auto
    with step show ?thesis by (auto simp: others_kept_def intro: run_first)
  qed
qed

lemma sending_ends:
  assumes "Inr ls \<in> sys_leaders cfg" and "phase w = Sending wires reached"
  shows "\<exists>w'. system_run cfg w w' \<and> phase w' = Sending [] reached \<and> others_kept w w'"
  using assms(2)
proof (induction wires arbitrary: w)
  case Nil
  then show ?case by (intro exI [of _ w]) simp
next
  case (Cons wire wires)
  let ?u = "w\<lparr>phase := Sending wires reached,
    sends := sends w @ spawn_sends wire ''not_applicable'' True 0 ls\<rparr>"
  have "system_step cfg w ?u" using Cons.prems assms(1) by (rule send_wire)
  moreover obtain w' where "system_run cfg ?u w'" "phase w' = Sending [] reached" "others_kept ?u w'"
    using Cons.IH [of ?u] by auto
  ultimately show ?case by (auto simp: others_kept_def intro: run_first)
qed

text \<open>From the sending on, the removals bring the task back to its sleep.\<close>

lemma sleeps_after_sending:
  assumes "phase w = Sending [] reached \<or> phase w = Removing_reached reached"
  shows "\<exists>w'. system_run cfg w w' \<and> phase w' = Sleeping \<and> others_kept w w'"
proof -
  have removal: "\<exists>w'. system_run cfg u w' \<and> phase w' = Sleeping \<and> others_kept u w'"
    if "phase u = Removing_reached reached" for u
  proof -
    let ?v = "u\<lparr>queue := fold dm_remove reached (queue u), phase := Removing_reached []\<rparr>"
    have "system_run cfg u ?v" using that by (rule run_removing)
    moreover have "system_step cfg ?v (?v\<lparr>phase := Sleeping\<rparr>)" by (intro pass_done) simp
    ultimately have "system_run cfg u (?v\<lparr>phase := Sleeping\<rparr>)" by (rule run_step)
    then show ?thesis by (intro exI conjI) (assumption, simp_all add: others_kept_def)
  qed
  from assms show ?thesis
  proof
    assume s: "phase w = Sending [] reached"
    let ?u = "w\<lparr>phase := Removing_reached reached\<rparr>"
    have "system_step cfg w ?u" using s by (rule sent)
    with removal [of ?u] show ?thesis by (auto simp: others_kept_def intro: run_first)
  qed (rule removal)
qed

lemma sleeps_after_scan:
  assumes "world_ok cfg w" and "Inr ls \<in> sys_leaders cfg"
    and "phase w = Shedding ks \<or> phase w = Scanning todo visited reached wires"
  shows "\<exists>w'. system_run cfg w w' \<and> phase w' = Sleeping \<and> others_kept w w'"
proof -
  have sending: "\<exists>w'. system_run cfg u w' \<and> phase w' = Sleeping \<and> others_kept u w'"
    if ok: "world_ok cfg u" and scanning: "phase u = Scanning todo visited reached wires"
    for u todo visited reached wires
  proof -
    obtain v wires' reached' where v: "system_run cfg u v" "phase v = Sending wires' reached'" "others_kept u v"
      using scanning_ends [OF ok scanning] by blast
    obtain x where x: "system_run cfg v x" "phase x = Sending [] reached'" "others_kept v x"
      using sending_ends [OF assms(2) v(2)] by blast
    obtain y where "system_run cfg x y" "phase y = Sleeping" "others_kept x y"
      using sleeps_after_sending [of x reached' cfg] x(2) by blast
    with v x show ?thesis by (blast intro: rtranclp_trans others_kept_trans)
  qed
  from assms(3) show ?thesis
  proof
    assume s: "phase w = Shedding ks"
    let ?v = "w\<lparr>queue := fold dm_remove ks (queue w), phase := Shedding []\<rparr>"
    let ?u = "?v\<lparr>phase := Scanning (map fst (queue ?v)) [] [] []\<rparr>"
    have "system_run cfg w ?v" using s by (rule run_shedding)
    moreover have "system_step cfg ?v ?u" by (intro scan) simp
    ultimately have run: "system_run cfg w ?u" by (rule run_step)
    have "world_ok cfg ?u"
      using run assms(1) by (induction rule: rtranclp_induct) (auto intro: world_ok_step)
    from sending [OF this, of "map fst (queue ?v)" "[]" "[]" "[]"] obtain w' where
      "system_run cfg ?u w'" "phase w' = Sleeping" "others_kept ?u w'"
      by auto
    with run show ?thesis by (auto simp: others_kept_def intro: rtranclp_trans)
  qed (rule sending [OF assms(1)])
qed

definition shed_death :: "system_config \<Rightarrow> world \<Rightarrow> bool" where
  "shed_death cfg w \<longleftrightarrow> (\<exists>mx n seen e. sys_queue_bound cfg = Some mx \<and> unat mx < n \<and>
     shed_victims (sys_profile cfg) (Some mx) n seen = Inl e \<and> phase w = Dead e)"

lemma collecting_sleeps_or_dies:
  assumes "world_ok cfg w" and "Inr ls \<in> sys_leaders cfg" and "phase w = Collecting n todo seen"
  shows "\<exists>w'. system_run cfg w w' \<and> others_kept w w' \<and> (phase w' = Sleeping \<or> shed_death cfg w')"
proof -
  obtain seen' where run: "system_run cfg w (w\<lparr>phase := Collecting n todo seen'\<rparr>)" (is "system_run cfg w ?c")
    and all: "waiting_keys todo (fst ` set seen') (queue w) = {}"
    using collecting_ends [OF assms(3)] by blast
  have all_seen: "\<forall>k \<in> set todo. k \<in> set (map fst seen') \<or> dm_get (queue ?c) k = None"
    using all by (auto simp: waiting_keys_def)
  show ?thesis
  proof (cases "shed_victims (sys_profile cfg) (sys_queue_bound cfg) n seen'")
    case (Inl e)
    have "system_step cfg ?c (?c\<lparr>phase := Dead e\<rparr>)" using all_seen Inl by (intro shed_panic) simp_all
    with run have "system_run cfg w (?c\<lparr>phase := Dead e\<rparr>)" by (rule run_step)
    moreover have "shed_death cfg (?c\<lparr>phase := Dead e\<rparr>)"
      using Inl by (fastforce simp: shed_death_def shed_victims_def split: option.splits if_splits)
    ultimately show ?thesis by (intro exI conjI) (assumption, simp_all add: others_kept_def)
  next
    case (Inr victims)
    let ?s = "?c\<lparr>phase := Shedding (concat (map (\<lambda>k. [k, k]) victims))\<rparr>"
    have "system_step cfg ?c ?s" using all_seen Inr by (intro shed) simp_all
    with run have run: "system_run cfg w ?s" by (rule run_step)
    have "world_ok cfg ?s" using assms(1) by (simp add: world_ok_phase death_ok_def)
    with sleeps_after_scan [OF _ assms(2), of ?s] obtain w' where
      "system_run cfg ?s w'" "phase w' = Sleeping" "others_kept ?s w'" by auto
    with run show ?thesis by (auto simp: others_kept_def intro: rtranclp_trans)
  qed
qed

lemma retry_task_sleeps_or_dies:
  assumes ok: "world_ok cfg w" and alive: "\<forall>e. phase w \<noteq> Dead e" and ls: "Inr ls \<in> sys_leaders cfg"
  shows "\<exists>w'. system_run cfg w w' \<and> others_kept w w' \<and> (phase w' = Sleeping \<or> shed_death cfg w')"
proof (cases "phase w")
  case Sleeping
  then show ?thesis by (intro exI [of _ w]) simp
next
  case (Length_read n)
  show ?thesis
  proof (cases "over_limit (sys_queue_bound cfg) n")
    case True
    let ?c = "w\<lparr>phase := Collecting n (map fst (queue w)) []\<rparr>"
    have step: "system_step cfg w ?c" using Length_read True by (rule collect)
    from collecting_sleeps_or_dies [OF world_ok_step [OF step ok] ls] obtain w' where
      "system_run cfg ?c w'" "others_kept ?c w'" "phase w' = Sleeping \<or> shed_death cfg w'" by auto
    with step show ?thesis by (auto simp: others_kept_def intro: run_first)
  next
    case False
    let ?s = "w\<lparr>phase := Shedding []\<rparr>"
    have step: "system_step cfg w ?s" using Length_read False by (rule keep_all)
    from sleeps_after_scan [OF world_ok_step [OF step ok] ls] obtain w' where
      "system_run cfg ?s w'" "phase w' = Sleeping" "others_kept ?s w'" by auto
    with step show ?thesis by (auto simp: others_kept_def intro: run_first)
  qed
next
  case (Collecting n todo seen)
  then show ?thesis by (rule collecting_sleeps_or_dies [OF ok ls])
next
  case (Shedding ks)
  then show ?thesis using sleeps_after_scan [OF ok ls] by blast
next
  case (Scanning todo visited reached wires)
  then show ?thesis using sleeps_after_scan [OF ok ls] by blast
next
  case (Sending wires reached)
  then obtain x where "system_run cfg w x" "phase x = Sending [] reached" "others_kept w x"
    using sending_ends [OF ls] by blast
  with sleeps_after_sending [of x reached cfg] show ?thesis
    by (blast intro: rtranclp_trans others_kept_trans)
next
  case (Removing_reached ks)
  then show ?thesis using sleeps_after_sending [of w ks cfg] by blast
next
  case (Dead e)
  with alive show ?thesis by blast
qed

text \<open>
  The retry task is never stuck: from any reachable state in which it lives, its own steps bring it
  back to its sleep, while the others stand still, if \<open>get_leaders\<close> can answer; the only other end
  those steps may come to is the panic of the load shedding, which needs a queue bound.
\<close>

theorem retry_task_progress:
  assumes "reachable cfg w" and "\<forall>e. phase w \<noteq> Dead e" and "Inr ls \<in> sys_leaders cfg"
  shows "\<exists>w'. system_run cfg w w' \<and> handlers w' = handlers w \<and> confirmers w' = confirmers w \<and>
    answers w' = answers w \<and>
    (phase w' = Sleeping \<or>
     (\<exists>mx n seen e. sys_queue_bound cfg = Some mx \<and> unat mx < n \<and>
        shed_victims (sys_profile cfg) (Some mx) n seen = Inl e \<and> phase w' = Dead e))"
proof -
  from retry_task_sleeps_or_dies [OF reachable_ok [OF assms(1)] assms(2,3)] show ?thesis
    by (auto simp: others_kept_def shed_death_def)
qed

theorem retry_task_progress_witness:
  "\<exists>w'. system_run (demo_config None) (queued_world\<lparr>phase := Length_read 1\<rparr>) w' \<and> phase w' = Sleeping"
proof -
  let ?w = "queued_world\<lparr>phase := Length_read 1\<rparr>"
  have "system_step (demo_config None) queued_world ?w"
    using read_length [of queued_world "demo_config None"] by (simp add: queued_world_def)
  with queued_world_reachable have "reachable (demo_config None) ?w"
    unfolding reachable_def by (rule run_step)
  from retry_task_progress [OF this, of "[demo_contact ''A'']"] show ?thesis
    by (auto simp: demo_config_def)
qed

end
