(* ===== verification/System_Ledger.thy ===== *)
theory System_Ledger
  imports System_Runs
begin

text \<open>
  What the service does with a transaction over a whole run: where the send tasks come from, how often
  the retry loop visits a transaction and how many tasks are spawned for it, in every interleaving.
  The bounds are kept as a ledger: an accepted request pays for its retries in advance.
\<close>

section \<open>Where everything comes from\<close>

definition decoded_by :: "system_config \<Rightarrow> transaction_data \<Rightarrow> bool" where
  "decoded_by cfg t \<longleftrightarrow>
     bincode_deserialize (sys_codec cfg) (PACKET_DATA_SIZE (sys_codec cfg)) (wire_transaction t)
       = Inr (versioned_transaction t)"

lemma created_decoded:
  "create_transaction_data L (sys_codec cfg) mx now params m enc txn = Inr t \<Longrightarrow> decoded_by cfg t"
  by (auto simp: create_transaction_data_Inr decode_and_deserialize_def decoded_by_def and_then_eq_Inr
      split: if_splits sum.splits)

lemma same_wire_same_signature:
  "decoded_by cfg t \<Longrightarrow> decoded_by cfg u \<Longrightarrow> wire_transaction t = wire_transaction u \<Longrightarrow>
     get_signature t = get_signature u"
  by (simp add: decoded_by_def get_signature_def)

text \<open>An entry of the queue is an accepted transaction but for its retry count, which began at 0.\<close>

definition from_accepted :: "transaction_data list \<Rightarrow> transaction_data \<Rightarrow> bool" where
  "from_accepted as t \<longleftrightarrow> t\<lparr>retry_count := 0\<rparr> \<in> set as"

definition visit_ok :: "transaction_data list \<Rightarrow> string \<times> u8 list \<Rightarrow> bool" where
  "visit_ok as v \<longleftrightarrow> (\<exists>a \<in> set as. get_signature a = Some (fst v) \<and> wire_transaction a = snd v)"

definition send_ok :: "transaction_data list \<Rightarrow> send_task \<Rightarrow> bool" where
  "send_ok as task \<longleftrightarrow> tpu_quic (task_leader task) \<noteq> None \<and>
     (\<exists>a \<in> set as. task_wire task = wire_transaction a \<and>
        task_api_key task = (if task_retry task then ''not_applicable'' else api_key_or_none (request_metadata a)))"

fun pending_wires :: "retry_phase \<Rightarrow> u8 list list" where
  "pending_wires (Scanning todo visited reached wires) = wires"
| "pending_wires (Sending wires reached) = wires"
| "pending_wires _ = []"

fun reached_keys :: "retry_phase \<Rightarrow> string list" where
  "reached_keys (Scanning todo visited reached wires) = reached"
| "reached_keys (Sending wires reached) = reached"
| "reached_keys (Removing_reached ks) = ks"
| "reached_keys _ = []"

definition traced :: "system_config \<Rightarrow> world \<Rightarrow> bool" where
  "traced cfg w \<longleftrightarrow>
     (\<forall>a \<in> set (accepted w). decoded_by cfg a \<and> within (sys_max_retries cfg) a \<and> retry_count a = 0) \<and>
     (\<forall>h \<in> set (handlers w). handled h \<in> set (accepted w)) \<and>
     every_entry (dm_get (queue w)) (\<lambda>k t. from_accepted (accepted w) t) \<and>
     (\<forall>v \<in> set (visits w). visit_ok (accepted w) v) \<and>
     set (pending_wires (phase w)) \<subseteq> snd ` set (visits w) \<and>
     (\<forall>task \<in> set (sends w). send_ok (accepted w) task)"

lemma traced_initial: "traced cfg initial_world"
  by (simp add: traced_def initial_world_def every_entry_def) (simp add: new_store_def)

lemma accepted_more:
  "from_accepted as t \<Longrightarrow> from_accepted (a # as) t" "visit_ok as v \<Longrightarrow> visit_ok (a # as) v"
  "send_ok as task \<Longrightarrow> send_ok (a # as) task"
  by (auto simp: from_accepted_def visit_ok_def send_ok_def)

lemma from_accepted_retried:
  "from_accepted as t \<Longrightarrow> retry_entry p t = Inr (t', r) \<Longrightarrow> from_accepted as t'"
  by (auto simp: from_accepted_def retry_entry_def and_then_eq_Inr split: if_splits)

lemma spawned_ok:
  assumes "a \<in> set as" and "wire = wire_transaction a"
    and "key = (if retry then ''not_applicable'' else api_key_or_none (request_metadata a))"
    and "task \<in> set (spawn_sends wire key retry n ls)"
  shows "send_ok as task"
proof -
  have "tpu_quic (task_leader task) \<noteq> None"
    using assms(4) arg_cong [OF spawn_sends_leaders [of wire key retry n ls], of set] by auto
  with assms spawn_sends_wire [OF assms(4)] show ?thesis by (auto simp: send_ok_def)
qed

text \<open>A step that adds nothing keeps the trace.\<close>

lemma traced_shrink:
  assumes "traced cfg w" and "accepted w' = accepted w" and "visits w' = visits w" and "sends w' = sends w"
    and "\<And>h. h \<in> set (handlers w') \<Longrightarrow> handled h \<in> handled ` set (handlers w)"
    and "\<And>k t. dm_get (queue w') k = Some t \<Longrightarrow> dm_get (queue w) k = Some t"
    and "set (pending_wires (phase w')) \<subseteq> set (pending_wires (phase w))"
  shows "traced cfg w'"
proof -
  have "handled h \<in> set (accepted w)" if "h \<in> set (handlers w')" for h
    using assms(1) assms(5) [OF that] by (auto simp: traced_def)
  moreover have "set (pending_wires (phase w')) \<subseteq> snd ` set (visits w)"
    using assms(1,7) by (auto simp: traced_def)
  ultimately show ?thesis
    using assms(1,6) unfolding traced_def every_entry_def assms(2-4) by blast
qed

lemma handled_accepted: "traced cfg w \<Longrightarrow> h \<in> set (handlers w) \<Longrightarrow> handled h \<in> set (accepted w)"
  by (simp add: traced_def)

lemma accepted_from:
  assumes "traced cfg w" and "t \<in> set (accepted w)"
  shows "from_accepted (accepted w) t"
proof -
  have "retry_count t = 0" using assms by (simp add: traced_def)
  then have "t\<lparr>retry_count := 0\<rparr> = t" by (cases t) simp
  with assms(2) show ?thesis by (simp add: from_accepted_def)
qed

lemma moved_handled:
  "h \<in> set hs \<Longrightarrow> handled h' = handled h \<Longrightarrow> x \<in> set (h' # remove1 h hs) \<Longrightarrow> handled x \<in> handled ` set hs"
  using set_remove1_subset [of h hs] by auto

lemma removed_handled: "x \<in> set (remove1 h hs) \<Longrightarrow> handled x \<in> handled ` set hs"
  using set_remove1_subset [of h hs] by auto

lemma traced_step:
  assumes "system_step cfg w w'" and ok: "world_ok cfg w" and tr: "traced cfg w"
  shows "traced cfg w'"
  using assms(1)
proof cases
  case (request params enc now m txn t sg)
  have "decoded_by cfg t" using request(3) by (rule created_decoded)
  moreover have "within (sys_max_retries cfg) t" using request(3,4) by (rule within_created)
  moreover have "retry_count t = 0" using created_bounded [OF request(3)] by simp
  ultimately show ?thesis
    using tr unfolding request(1) traced_def every_entry_def
    by (auto intro: accepted_more)
next
  case (store t sg)
  have "dm_ok (queue w)" using ok by (auto simp: world_ok_def)
  moreover have "from_accepted (accepted w) t" using accepted_from [OF tr] handled_accepted [OF tr store(2)] by simp
  ultimately show ?thesis
    using tr handled_accepted [OF tr store(2)] unfolding store(1) traced_def every_entry_def
    by (auto simp: dash split: if_splits dest: notin_set_remove1)
next
  case (first_sends t ls)
  have t: "t \<in> set (accepted w)" using handled_accepted [OF tr first_sends(2)] by simp
  have "\<forall>task \<in> set (spawn_sends (wire_transaction t) (api_key_or_none (request_metadata t)) False 0 ls).
      send_ok (accepted w) task"
    using spawned_ok [OF t refl, of _ False] by auto
  then show ?thesis
    using tr unfolding first_sends(1) traced_def by (auto dest: notin_set_remove1)
next
  case (visit todo visited reached wires k t t' r)
  have dm: "dm_ok (queue w)" and sg: "get_signature t = Some k"
    using ok store_okD [OF _ visit(4)] by (auto simp: world_ok_def entry_ok_def)
  have t: "from_accepted (accepted w) t" using tr visit(4) by (auto simp: traced_def every_entry_def)
  then have "visit_ok (accepted w) (k, wire_transaction t)"
    using sg unfolding visit_ok_def from_accepted_def
    by (intro bexI [of _ "t\<lparr>retry_count := 0\<rparr>"]) (simp_all add: get_signature_def)
  with t from_accepted_retried [OF t visit(5)] dm tr visit(2) show ?thesis
    unfolding visit(1) traced_def every_entry_def by (auto simp: dash split: if_splits)
next
  case (send_wire wire wires reached ls)
  then have "wire \<in> snd ` set (visits w)" using tr by (auto simp: traced_def)
  then obtain a where a: "a \<in> set (accepted w)" "wire_transaction a = wire"
    using tr by (auto simp: traced_def visit_ok_def)
  have "\<forall>task \<in> set (spawn_sends wire ''not_applicable'' True 0 ls). send_ok (accepted w) task"
    using spawned_ok [OF a(1), of wire _ True] a(2) by auto
  with tr send_wire(2) show ?thesis unfolding send_wire(1) traced_def by auto
next
  case (confirm task confirmed_at now ms q)
  have "dm_ok (queue w)" using ok by (auto simp: world_ok_def)
  with finish_tracking_store [OF confirm(3)] show ?thesis
    unfolding confirm(1) by (intro traced_shrink [OF tr]) (auto dest: dm_remove_Some)
next
  case (reorder q)
  have "dm_get q = dm_get (queue w)"
    using dm_perm_get [OF reorder(2) [symmetric]] ok by (auto simp: world_ok_def)
  then show ?thesis unfolding reorder(1) by (intro traced_shrink [OF tr]) auto
next
  case (shed_one k ks)
  have "dm_ok (queue w)" using ok by (auto simp: world_ok_def)
  then show ?thesis unfolding shed_one(1) by (intro traced_shrink [OF tr]) (auto dest: dm_remove_Some)
next
  case (remove_one k ks)
  have "dm_ok (queue w)" using ok by (auto simp: world_ok_def)
  then show ?thesis
    unfolding remove_one(1) by (intro traced_shrink [OF tr]) (auto simp: remove_transaction_def dest: dm_remove_Some)
next
  case (known t sg)
  from moved_handled [OF known(2), of "Filed t"] show ?thesis
    unfolding known(1) by (intro traced_shrink [OF tr]) simp_all
next
  case (unknown t sg)
  from moved_handled [OF unknown(2), of "Storing t"] show ?thesis
    unfolding unknown(1) by (intro traced_shrink [OF tr]) simp_all
next
  case (spawn t sg d)
  from moved_handled [OF spawn(2), of "Tracked t"] show ?thesis
    unfolding spawn(1) by (intro traced_shrink [OF tr]) simp_all
qed (auto intro!: traced_shrink [OF tr] dest: removed_handled)

lemma reachable_traced: "reachable cfg w \<Longrightarrow> traced cfg w"
proof -
  have "reachable cfg w \<Longrightarrow> world_ok cfg w \<and> traced cfg w"
    unfolding reachable_def
    by (induction rule: rtranclp_induct) (auto intro: world_ok_initial world_ok_step traced_initial traced_step)
  then show "reachable cfg w \<Longrightarrow> traced cfg w" by blast
qed

section \<open>The ledger of the retries\<close>

text \<open>What the request of a key pays for: one visit for every retry its bound allows, and one more.\<close>

definition allowance :: "string \<Rightarrow> transaction_data \<Rightarrow> nat" where
  "allowance k t = (if get_signature t = Some k then Suc (unat (max_retries t)) else 0)"

definition credit :: "world \<Rightarrow> string \<Rightarrow> nat" where
  "credit w k = sum_list (map (allowance k) (accepted w))"

text \<open>The handlers that may still file their transaction.\<close>

fun unfiled :: "handler \<Rightarrow> bool" where
  "unfiled (Checked t) = True"
| "unfiled (Storing t) = True"
| "unfiled _ = False"

definition reserve :: "string \<Rightarrow> handler \<Rightarrow> nat" where
  "reserve k h = (if unfiled h then allowance k (handled h) else 0)"

lemma reserve_simps [simp]:
  "reserve k (Checked t) = allowance k t" "reserve k (Storing t) = allowance k t"
  "reserve k (Filed t) = 0" "reserve k (Tracked t) = 0"
  by (simp_all add: reserve_def)

definition held :: "world \<Rightarrow> string \<Rightarrow> nat" where
  "held w k = sum_list (map (reserve k) (handlers w))"

text \<open>What the entry of the queue may still use; nothing when this pass has found it at its bound.\<close>

definition unspent :: "world \<Rightarrow> string \<Rightarrow> nat" where
  "unspent w k =
     (case dm_get (queue w) k of
        None \<Rightarrow> 0
      | Some t \<Rightarrow> if k \<in> set (reached_keys (phase w)) \<or> (\<exists>e. phase w = Dead e) then 0
                  else Suc (unat (max_retries t) - unat (retry_count t)))"

definition visits_of :: "world \<Rightarrow> string \<Rightarrow> nat" where
  "visits_of w k = length (filter (\<lambda>v. fst v = k) (visits w))"

fun scan_sound :: "retry_phase \<Rightarrow> bool" where
  "scan_sound (Scanning todo visited reached wires) \<longleftrightarrow> set reached \<subseteq> set visited"
| "scan_sound _ \<longleftrightarrow> True"

definition ledger_ok :: "world \<Rightarrow> bool" where
  "ledger_ok w \<longleftrightarrow> scan_sound (phase w) \<and> (\<forall>k. visits_of w k + held w k + unspent w k \<le> credit w k)"

lemma ledger_initial: "ledger_ok initial_world"
  by (simp add: ledger_ok_def initial_world_def visits_of_def held_def unspent_def new_store_def)

lemma held_removed:
  "h \<in> set (handlers w) \<Longrightarrow> handlers w' = remove1 h (handlers w) \<Longrightarrow> held w' k + reserve k h = held w k"
  by (simp add: held_def sum_list_map_remove1)

lemma held_moved:
  "h \<in> set (handlers w) \<Longrightarrow> handlers w' = h' # remove1 h (handlers w) \<Longrightarrow>
     held w' k + reserve k h = held w k + reserve k h'"
  by (simp add: held_def sum_list_map_remove1)

text \<open>A step that visits nothing and adds nothing to what may be spent.\<close>

lemma ledger_shrink:
  assumes "ledger_ok w" and "scan_sound (phase w')" and "visits w' = visits w" and "accepted w' = accepted w"
    and "\<And>k. held w' k + unspent w' k \<le> held w k + unspent w k"
  shows "ledger_ok w'"
  unfolding ledger_ok_def
proof (intro conjI allI)
  fix k
  have "visits_of w k + held w k + unspent w k \<le> credit w k" using assms(1) by (simp add: ledger_ok_def)
  moreover have "visits_of w' k = visits_of w k" "credit w' k = credit w k"
    using assms(3,4) by (simp_all add: visits_of_def credit_def)
  ultimately show "visits_of w' k + held w' k + unspent w' k \<le> credit w' k" using assms(5) [of k] by linarith
qed (rule assms(2))

lemma unspent_mono:
  assumes "\<And>t. dm_get (queue w') k = Some t \<Longrightarrow> dm_get (queue w) k = Some t"
    and "k \<in> set (reached_keys (phase w)) \<Longrightarrow> dm_get (queue w') k \<noteq> None \<Longrightarrow>
      k \<in> set (reached_keys (phase w')) \<or> (\<exists>e. phase w' = Dead e)"
    and "\<And>e. phase w = Dead e \<Longrightarrow> phase w' = Dead e"
  shows "unspent w' k \<le> unspent w k"
proof (cases "dm_get (queue w') k")
  case (Some t)
  then have "dm_get (queue w) k = Some t" by (rule assms(1))
  with Some assms(2,3) show ?thesis by (auto simp: unspent_def)
qed (simp add: unspent_def)

lemma ledger_phase:
  assumes "ledger_ok w" and "w' = w\<lparr>phase := ph, sends := ss\<rparr>" and "scan_sound ph"
    and "set (reached_keys (phase w)) \<subseteq> set (reached_keys ph) \<or> (\<exists>e. ph = Dead e)"
    and "\<forall>e. phase w \<noteq> Dead e"
  shows "ledger_ok w'"
proof (rule ledger_shrink [OF assms(1)])
  show "held w' k + unspent w' k \<le> held w k + unspent w k" for k
  proof (intro add_mono unspent_mono)
    show "k \<in> set (reached_keys (phase w')) \<or> (\<exists>e. phase w' = Dead e)" if "k \<in> set (reached_keys (phase w))"
      using that assms(4) unfolding assms(2) by auto
  qed (use assms(5) in \<open>simp_all add: assms(2) held_def\<close>)
qed (simp_all add: assms)

lemma ledger_removed:
  assumes "ledger_ok w" and "dm_ok (queue w)" and "queue w' = dm_remove k (queue w)" and "handlers w' = handlers w"
    and "visits w' = visits w" and "accepted w' = accepted w" and "scan_sound (phase w')"
    and "\<And>k'. k' \<in> set (reached_keys (phase w)) \<Longrightarrow> k' \<noteq> k \<Longrightarrow> k' \<in> set (reached_keys (phase w'))"
    and "\<And>e. phase w = Dead e \<Longrightarrow> phase w' = Dead e"
  shows "ledger_ok w'"
proof (rule ledger_shrink [OF assms(1,7,5,6)])
  show "held w' k' + unspent w' k' \<le> held w k' + unspent w k'" for k'
  proof (intro add_mono unspent_mono)
    show "dm_get (queue w) k' = Some t" if "dm_get (queue w') k' = Some t" for t
      using dm_remove_Some [OF assms(2)] that unfolding assms(3) by blast
    show "k' \<in> set (reached_keys (phase w')) \<or> (\<exists>e. phase w' = Dead e)"
      if "k' \<in> set (reached_keys (phase w))" "dm_get (queue w') k' \<noteq> None"
      using that assms(2,3,8) by (auto simp: dash split: if_splits)
  qed (simp_all add: held_def assms(4,9))
qed

lemma ledger_store:
  assumes ok: "world_ok cfg w" and led: "ledger_ok w" and h: "Storing t \<in> set (handlers w)"
    and sg: "get_signature t = Some sg"
  shows "ledger_ok (w\<lparr>queue := dm_insert sg t (queue w), handlers := Filed t # remove1 (Storing t) (handlers w)\<rparr>)"
    (is "ledger_ok ?w")
proof (rule ledger_shrink [OF led])
  show "held ?w k + unspent ?w k \<le> held w k + unspent w k" for k
  proof -
    have held: "held ?w k + allowance k t = held w k" using held_moved [OF h, of ?w "Filed t" k] by simp
    have dm: "dm_ok (queue w)" using ok by (auto simp: world_ok_def)
    show ?thesis
    proof (cases "k = sg")
      case True
      then have "unspent ?w k \<le> Suc (unat (max_retries t))" using dm by (simp add: unspent_def dash)
      then show ?thesis using held sg True by (simp add: allowance_def)
    next
      case False
      then have "unspent ?w k = unspent w k" using dm by (simp add: unspent_def dash split: option.split)
      then show ?thesis using held by simp
    qed
  qed
qed (use led in \<open>simp_all add: ledger_ok_def\<close>)

text \<open>A visit is paid for by the entry it visits.\<close>

lemma ledger_visit:
  assumes ok: "world_ok cfg w" and led: "ledger_ok w"
    and ph: "phase w = Scanning todo visited reached wires" and k: "k \<notin> set visited"
    and get: "dm_get (queue w) k = Some t" and entry: "retry_entry p t = Inr (t', r)"
  shows "ledger_ok (w\<lparr>queue := dm_insert k t' (queue w),
    phase := Scanning todo (k # visited) (reached @ r) (wires @ [wire]), visits := (k, wire) # visits w\<rparr>)"
    (is "ledger_ok ?w")
proof -
  have dm: "dm_ok (queue w)" and "entry_ok k t" using ok store_okD [OF _ get] by (auto simp: world_ok_def)
  then have t': "t' = bump t" and r: "r = (if max_retries t \<le> retry_count t then [k] else [])"
    using entry by (simp_all add: retry_entry_ok)
  have "set reached \<subseteq> set visited" using led ph by (simp add: ledger_ok_def)
  with k r have unreached: "k \<notin> set reached" and sound: "scan_sound (phase ?w)" by auto
  have own: "Suc (unspent ?w k) \<le> unspent w k"
  proof (cases "max_retries t \<le> retry_count t")
    case True
    then show ?thesis using dm get ph unreached r by (simp add: unspent_def dash)
  next
    case False
    then have lt: "retry_count t < max_retries t" by simp
    have "unat (retry_count t + 1) = Suc (unat (retry_count t))" by (rule unat_succ_below(1) [OF lt])
    then show ?thesis
      using False lt dm get ph unreached r by (simp add: unspent_def dash t' bump_def word_less_nat_alt)
  qed
  have other: "unspent ?w k' = unspent w k'" if "k' \<noteq> k" for k'
    using that dm ph r by (auto simp: unspent_def dash split: option.split)
  have "visits_of ?w k' + held ?w k' + unspent ?w k' \<le> credit ?w k'" for k'
  proof -
    have before: "visits_of w k' + held w k' + unspent w k' \<le> credit w k'" using led by (simp add: ledger_ok_def)
    moreover have "held ?w k' = held w k'" "credit ?w k' = credit w k'" by (simp_all add: held_def credit_def)
    ultimately show ?thesis using own other [of k'] by (cases "k' = k") (simp_all add: visits_of_def)
  qed
  with sound show ?thesis by (simp add: ledger_ok_def)
qed

lemma ledger_handlers:
  assumes "ledger_ok w" and "queue w' = queue w" and "phase w' = phase w" and "visits w' = visits w"
    and "accepted w' = accepted w" and "\<And>k. held w' k \<le> held w k"
  shows "ledger_ok w'"
proof (rule ledger_shrink [OF assms(1) _ assms(4,5)])
  show "scan_sound (phase w')" using assms(1,3) by (simp add: ledger_ok_def)
  show "held w' k + unspent w' k \<le> held w k + unspent w k" for k
    using assms(2,3) by (intro add_mono assms(6)) (simp add: unspent_def cong: option.case_cong)
qed

lemma ledger_step:
  assumes "system_step cfg w w'" and ok: "world_ok cfg w" and led: "ledger_ok w"
  shows "ledger_ok w'"
  using assms(1)
proof cases
  case (request params enc now m txn t sg)
  have "visits_of w' k + held w' k + unspent w' k \<le> credit w' k" for k
  proof -
    have "visits_of w k + held w k + unspent w k \<le> credit w k" using led by (simp add: ledger_ok_def)
    then show ?thesis unfolding request(1) by (simp add: visits_of_def held_def unspent_def credit_def cong: option.case_cong)
  qed
  with led show ?thesis by (simp add: ledger_ok_def request(1))
next
  case (known t sg)
  show ?thesis
    using held_moved [OF known(2), of w' "Filed t"] unfolding known(1)
    by (intro ledger_handlers [OF led]) (simp_all, metis le_add1)
next
  case (unknown t sg)
  show ?thesis
    using held_moved [OF unknown(2), of w' "Storing t"] unfolding unknown(1)
    by (intro ledger_handlers [OF led]) simp_all
next
  case (store t sg)
  show ?thesis unfolding store(1) by (rule ledger_store [OF ok led store(2,3)])
next
  case (spawn t sg d)
  show ?thesis
    using held_moved [OF spawn(2), of w' "Tracked t"] unfolding spawn(1)
    by (intro ledger_handlers [OF led]) simp_all
next
  case (abandon t sg e)
  show ?thesis
    using held_removed [OF abandon(2), of w'] unfolding abandon(1)
    by (intro ledger_handlers [OF led]) simp_all
next
  case (first_sends t ls)
  show ?thesis
    using held_removed [OF first_sends(2), of w'] unfolding first_sends(1)
    by (intro ledger_handlers [OF led]) simp_all
next
  case (first_sends_panic t e)
  show ?thesis
    using held_removed [OF first_sends_panic(2), of w'] unfolding first_sends_panic(1)
    by (intro ledger_handlers [OF led]) simp_all
next
  case (confirm task confirmed_at now ms q)
  have "dm_ok (queue w)" using ok by (auto simp: world_ok_def)
  then show ?thesis
    using led finish_tracking_store [OF confirm(3)] unfolding confirm(1)
    by (intro ledger_removed [OF led, where k = "confirm_signature task"]) (simp_all add: ledger_ok_def)
next
  case (shed_one k ks)
  have "dm_ok (queue w)" using ok by (auto simp: world_ok_def)
  then show ?thesis
    using shed_one(2) unfolding shed_one(1) by (intro ledger_removed [OF led, where k = k]) simp_all
next
  case (remove_one k ks)
  have "dm_ok (queue w)" using ok by (auto simp: world_ok_def)
  then show ?thesis
    using remove_one(2) unfolding remove_one(1)
    by (intro ledger_removed [OF led, where k = k]) (simp_all add: remove_transaction_def)
next
  case (visit todo visited reached wires k t t' r)
  show ?thesis unfolding visit(1) by (rule ledger_visit [OF ok led visit(2-5)])
next
  case (scanned todo visited reached wires)
  then show ?thesis by (intro ledger_phase [OF led, where ph = "Sending wires reached" and ss = "sends w"]) simp_all
next
  case (send_wire wire wires reached ls)
  then show ?thesis
    by (intro ledger_phase [OF led, where ph = "Sending wires reached"
          and ss = "sends w @ spawn_sends wire ''not_applicable'' True 0 ls"]) simp_all
next
  case (reorder q)
  have "dm_get q = dm_get (queue w)"
    using dm_perm_get [OF reorder(2) [symmetric]] ok by (auto simp: world_ok_def)
  then show ?thesis
    unfolding reorder(1) using led
    by (intro ledger_shrink [OF led]) (simp_all add: ledger_ok_def held_def unspent_def cong: option.case_cong)
qed (auto intro!: ledger_phase [OF led, where ss = "sends w"])

lemma reachable_ledger: "reachable cfg w \<Longrightarrow> ledger_ok w"
proof -
  have "reachable cfg w \<Longrightarrow> world_ok cfg w \<and> ledger_ok w"
    unfolding reachable_def
    by (induction rule: rtranclp_induct) (auto intro: world_ok_initial world_ok_step ledger_initial ledger_step)
  then show "reachable cfg w \<Longrightarrow> ledger_ok w" by blast
qed

section \<open>How many tasks are spawned\<close>

definition quic_leaders :: "contact_info list \<Rightarrow> nat" where
  "quic_leaders ls = length (filter (\<lambda>leader. tpu_quic leader \<noteq> None) ls)"

text \<open>\<open>get_leaders\<close> answers with at most \<open>L\<close> leaders that have a QUIC address; for a tracker \<open>num_leaders\<close> is such a bound.\<close>

definition leaders_within :: "system_config \<Rightarrow> nat \<Rightarrow> bool" where
  "leaders_within cfg L \<longleftrightarrow> (\<forall>ls. Inr ls \<in> sys_leaders cfg \<longrightarrow> quic_leaders ls \<le> L)"

definition tasks_of :: "bool \<Rightarrow> u8 list \<Rightarrow> send_task list \<Rightarrow> nat" where
  "tasks_of retry wire tasks = length (filter (\<lambda>task. task_retry task = retry \<and> task_wire task = wire) tasks)"

lemma tasks_of_append [simp]: "tasks_of b x (ts @ us) = tasks_of b x ts + tasks_of b x us"
  by (simp add: tasks_of_def)

lemma tasks_of_spawned_eq:
  "tasks_of b x (spawn_sends wire key retry n ls) = (if retry = b \<and> wire = x then quic_leaders ls else 0)"
  by (induction ls arbitrary: n) (auto simp: tasks_of_def quic_leaders_def)

lemma tasks_of_spawned:
  "quic_leaders ls \<le> L \<Longrightarrow> tasks_of b x (spawn_sends wire key retry n ls) \<le> (if retry = b \<and> wire = x then L else 0)"
  by (simp add: tasks_of_spawned_eq)

lemma leaders_within_length:
  assumes "\<And>ls. Inr ls \<in> sys_leaders cfg \<Longrightarrow> length ls \<le> L"
  shows "leaders_within cfg L"
  using assms unfolding leaders_within_def quic_leaders_def by (meson length_filter_le order_trans)

lemma tasks_of_both: "length (filter (\<lambda>task. task_wire task = x) ts) = tasks_of True x ts + tasks_of False x ts"
  by (induction ts) (auto simp: tasks_of_def)

definition handlers_of :: "u8 list \<Rightarrow> handler list \<Rightarrow> nat" where
  "handlers_of x hs = length (filter (\<lambda>h. wire_transaction (handled h) = x) hs)"

definition requests_of :: "u8 list \<Rightarrow> transaction_data list \<Rightarrow> nat" where
  "requests_of x as = length (filter (\<lambda>a. wire_transaction a = x) as)"

text \<open>A visited wire owes \<open>L\<close> tasks until it is sent, a handler until it has sent.\<close>

definition sends_ok :: "nat \<Rightarrow> world \<Rightarrow> bool" where
  "sends_ok L w \<longleftrightarrow> (\<forall>x.
     tasks_of True x (sends w) + L * count_list (pending_wires (phase w)) x \<le> L * count_list (map snd (visits w)) x \<and>
     tasks_of False x (sends w) + L * handlers_of x (handlers w) \<le> L * requests_of x (accepted w))"

lemma sends_initial: "sends_ok L initial_world"
  by (simp add: sends_ok_def initial_world_def tasks_of_def handlers_of_def)

lemma handlers_of_removed:
  "h \<in> set hs \<Longrightarrow> handlers_of x (remove1 h hs) + (if wire_transaction (handled h) = x then 1 else 0) = handlers_of x hs"
  by (induction hs) (auto simp: handlers_of_def)

lemma handlers_of_moved:
  "h \<in> set hs \<Longrightarrow> handled h' = handled h \<Longrightarrow> handlers_of x (h' # remove1 h hs) = handlers_of x hs"
  using handlers_of_removed [of h hs x] by (simp add: handlers_of_def split: if_splits)

lemma sends_shrink:
  assumes "sends_ok L w" and "sends w' = sends w" and "visits w' = visits w" and "accepted w' = accepted w"
    and "\<And>x. handlers_of x (handlers w') \<le> handlers_of x (handlers w)"
    and "\<And>x. count_list (pending_wires (phase w')) x \<le> count_list (pending_wires (phase w)) x"
  shows "sends_ok L w'"
  unfolding sends_ok_def assms(2-4)
proof (intro allI conjI)
  fix x
  have le: "L * handlers_of x (handlers w') \<le> L * handlers_of x (handlers w)"
    "L * count_list (pending_wires (phase w')) x \<le> L * count_list (pending_wires (phase w)) x"
    using assms(5,6) by simp_all
  have old: "tasks_of True x (sends w) + L * count_list (pending_wires (phase w)) x \<le> L * count_list (map snd (visits w)) x"
    "tasks_of False x (sends w) + L * handlers_of x (handlers w) \<le> L * requests_of x (accepted w)"
    using assms(1) by (simp_all add: sends_ok_def)
  from le old show "tasks_of True x (sends w) + L * count_list (pending_wires (phase w')) x
      \<le> L * count_list (map snd (visits w)) x"
    and "tasks_of False x (sends w) + L * handlers_of x (handlers w') \<le> L * requests_of x (accepted w)"
    by linarith+
qed

lemma sends_step:
  assumes "system_step cfg w w'" and "leaders_within cfg L" and ok: "sends_ok L w"
  shows "sends_ok L w'"
  using assms(1)
proof cases
  case (request params enc now m txn t sg)
  with ok show ?thesis by (simp add: sends_ok_def handlers_of_def requests_of_def)
next
  case (known t sg)
  from handlers_of_moved [OF known(2), of "Filed t"] show ?thesis
    unfolding known(1) by (intro sends_shrink [OF ok]) simp_all
next
  case (unknown t sg)
  from handlers_of_moved [OF unknown(2), of "Storing t"] show ?thesis
    unfolding unknown(1) by (intro sends_shrink [OF ok]) simp_all
next
  case (store t sg)
  from handlers_of_moved [OF store(2), of "Filed t"] show ?thesis
    unfolding store(1) by (intro sends_shrink [OF ok]) simp_all
next
  case (spawn t sg d)
  from handlers_of_moved [OF spawn(2), of "Tracked t"] show ?thesis
    unfolding spawn(1) by (intro sends_shrink [OF ok]) simp_all
next
  case (abandon t sg e)
  from handlers_of_removed [OF abandon(2)] show ?thesis
    unfolding abandon(1) by (intro sends_shrink [OF ok]) (simp_all, metis le_add1)
next
  case (first_sends_panic t e)
  from handlers_of_removed [OF first_sends_panic(2)] show ?thesis
    unfolding first_sends_panic(1) by (intro sends_shrink [OF ok]) (simp_all, metis le_add1)
next
  case (first_sends t ls)
  let ?new = "spawn_sends (wire_transaction t) (api_key_or_none (request_metadata t)) False 0 ls"
  have ls: "quic_leaders ls \<le> L" using assms(2) first_sends(3) by (simp add: leaders_within_def)
  have new: "tasks_of True x ?new = 0"
    "tasks_of False x ?new + L * handlers_of x (remove1 (Tracked t) (handlers w)) \<le> L * handlers_of x (handlers w)" for x
    using tasks_of_spawned [OF ls, of True x "wire_transaction t" "api_key_or_none (request_metadata t)" False 0]
      tasks_of_spawned [OF ls, of False x "wire_transaction t" "api_key_or_none (request_metadata t)" False 0]
    by (auto simp: algebra_simps split: if_splits simp flip: handlers_of_removed [OF first_sends(2), of x])
  have "tasks_of True x (sends w') + L * count_list (pending_wires (phase w')) x \<le> L * count_list (map snd (visits w')) x \<and>
      tasks_of False x (sends w') + L * handlers_of x (handlers w') \<le> L * requests_of x (accepted w')" for x
  proof -
    have "tasks_of True x (sends w) + L * count_list (pending_wires (phase w)) x \<le> L * count_list (map snd (visits w)) x \<and>
      tasks_of False x (sends w) + L * handlers_of x (handlers w) \<le> L * requests_of x (accepted w)"
      using ok by (simp add: sends_ok_def)
    with new [of x] show ?thesis unfolding first_sends(1) by simp
  qed
  then show ?thesis by (simp add: sends_ok_def)
next
  case (visit todo visited reached wires k t t' r)
  have "L * count_list (wires @ [wire_transaction t]) x = L * count_list wires x + (if wire_transaction t = x then L else 0)" for x
    by simp
  with ok show ?thesis by (simp add: visit sends_ok_def)
next
  case (send_wire wire wires reached ls)
  let ?new = "spawn_sends wire ''not_applicable'' True 0 ls"
  have ls: "quic_leaders ls \<le> L" using assms(2) send_wire(3) by (simp add: leaders_within_def)
  have new: "tasks_of False x ?new = 0"
    "tasks_of True x ?new + L * count_list wires x \<le> L * count_list (wire # wires) x" for x
    using tasks_of_spawned [OF ls, of True x wire "''not_applicable''" True 0]
      tasks_of_spawned [OF ls, of False x wire "''not_applicable''" True 0]
    by (auto split: if_splits)
  have "tasks_of True x (sends w') + L * count_list (pending_wires (phase w')) x \<le> L * count_list (map snd (visits w')) x \<and>
      tasks_of False x (sends w') + L * handlers_of x (handlers w') \<le> L * requests_of x (accepted w')" for x
  proof -
    have "tasks_of True x (sends w) + L * count_list (pending_wires (phase w)) x \<le> L * count_list (map snd (visits w)) x \<and>
      tasks_of False x (sends w) + L * handlers_of x (handlers w) \<le> L * requests_of x (accepted w)"
      using ok by (simp add: sends_ok_def)
    with new [of x] show ?thesis unfolding send_wire(1) by (simp add: send_wire(2))
  qed
  then show ?thesis by (simp add: sends_ok_def)
qed (auto intro!: sends_shrink [OF ok])

lemma reachable_sends:
  "reachable cfg w \<Longrightarrow> leaders_within cfg L \<Longrightarrow> sends_ok L w"
  unfolding reachable_def by (induction rule: rtranclp_induct) (auto intro: sends_initial sends_step)

text \<open>
  The other direction, as long as the retry task lives: what was visited and is not pending has been
  sent, to \<open>l\<close> leaders at least when every answer of \<open>get_leaders\<close> has \<open>l\<close> leaders with a QUIC address.
\<close>

fun is_dead :: "retry_phase \<Rightarrow> bool" where
  "is_dead (Dead e) = True"
| "is_dead _ = False"

definition sent_ok :: "nat \<Rightarrow> world \<Rightarrow> bool" where
  "sent_ok l w \<longleftrightarrow> is_dead (phase w) \<or> (\<forall>x.
     l * count_list (map snd (visits w)) x \<le> tasks_of True x (sends w) + l * count_list (pending_wires (phase w)) x)"

lemma sent_step:
  assumes "system_step cfg w w'" and "\<forall>ls. Inr ls \<in> sys_leaders cfg \<longrightarrow> l \<le> quic_leaders ls" and ok: "sent_ok l w"
  shows "sent_ok l w'"
  using assms(1)
proof cases
  case (visit todo visited reached wires k t t' r)
  with ok show ?thesis by (simp add: sent_ok_def)
next
  case (send_wire wire wires reached ls)
  have "l * count_list (map snd (visits w)) x \<le> tasks_of True x (sends w') + l * count_list wires x" for x
  proof -
    have "l \<le> quic_leaders ls" using assms(2) send_wire(3) by blast
    moreover have "l * count_list (map snd (visits w)) x \<le> tasks_of True x (sends w) + l * count_list (wire # wires) x"
      using ok by (simp only: sent_ok_def send_wire(2) is_dead.simps pending_wires.simps simp_thms)
    ultimately show ?thesis unfolding send_wire(1) by (simp add: tasks_of_spawned_eq split: if_splits)
  qed
  then show ?thesis unfolding sent_ok_def send_wire(1) by simp
next
  case (first_sends t ls)
  with ok show ?thesis by (simp add: sent_ok_def tasks_of_spawned_eq)
qed (use ok in \<open>simp_all add: sent_ok_def\<close>)

lemma reachable_sent:
  "reachable cfg w \<Longrightarrow> \<forall>ls. Inr ls \<in> sys_leaders cfg \<longrightarrow> l \<le> quic_leaders ls \<Longrightarrow> sent_ok l w"
  unfolding reachable_def
proof (induction rule: rtranclp_induct)
  case base
  show ?case by (simp add: initial_world_def sent_ok_def)
qed (rule sent_step)

lemma reachable_run:
  "reachable cfg w \<Longrightarrow> system_run cfg w w' \<Longrightarrow> reachable cfg w'"
  unfolding reachable_def by (rule rtranclp_trans)

section \<open>Properties\<close>

text \<open>
  Every send task the service ever spawns, in whatever interleaving, carries the wire bytes of a
  request that passed the duplicate check and decode to its transaction, goes to a leader with a QUIC
  address, and names the API key of that request if it is a first send.
\<close>

theorem sends_come_from_requests:
  assumes "reachable cfg w" and "task \<in> set (sends w)"
  shows "tpu_quic (task_leader task) \<noteq> None \<and>
    (\<exists>t \<in> set (accepted w). task_wire task = wire_transaction t \<and>
       bincode_deserialize (sys_codec cfg) (PACKET_DATA_SIZE (sys_codec cfg)) (task_wire task) = Inr (versioned_transaction t) \<and>
       task_api_key task = (if task_retry task then ''not_applicable'' else api_key_or_none (request_metadata t)))"
proof -
  have "traced cfg w" using assms(1) by (rule reachable_traced)
  with assms(2) have "send_ok (accepted w) task" and "\<forall>t \<in> set (accepted w). decoded_by cfg t"
    by (simp_all add: traced_def)
  then show ?thesis by (fastforce simp: send_ok_def decoded_by_def)
qed

lemma retried_world:
  obtains w where "system_run (demo_config None) queued_world w" and "map snd (visits w) = [[7]]"
    and "phase w = Sleeping" and "accepted w = [demo_request]" and "queue w = [(''sig'', demo_request\<lparr>retry_count := 1\<rparr>)]"
proof -
  let ?l = "\<lambda>_ :: nat. Inr [demo_contact ''A''] :: panic + contact_info list"
  have ok: "store_ok (queue queued_world)"
    using reachable_ok [OF queued_world_reachable] by (simp add: world_ok_def)
  have entry: "retry_entry Release demo_request = Inr (demo_request\<lparr>retry_count := 1\<rparr>, [])"
    by (simp add: retry_entry_def demo_request_def add_w_def)
  let ?r = "\<lparr>pass_store = [(''sig'', demo_request\<lparr>retry_count := 1\<rparr>)],
      pass_wires = [[7]], pass_tasks = spawn_sends [7] ''not_applicable'' True 0 [demo_contact ''A''],
      pass_metrics = queue_metrics None 1\<rparr>"
  have "retry_pass Release None ?l (queue queued_world) = Inr ?r"
    by (simp add: retry_pass_def shed_victims_def queued_world_def entry) (simp add: demo_request_def)
  then have pass: "retry_pass (sys_profile (demo_config None)) (sys_queue_bound (demo_config None)) ?l (queue queued_world)
      = Inr ?r" by (simp add: demo_config_def)
  have ph: "phase queued_world = Sleeping" and rng: "range ?l \<subseteq> sys_leaders (demo_config None)"
    by (simp_all add: queued_world_def demo_config_def)
  obtain vs where "rev (map snd vs) = pass_wires ?r"
    and run: "system_run (demo_config None) queued_world (queued_world\<lparr>queue := pass_store ?r,
      visits := vs @ visits queued_world, sends := sends queued_world @ pass_tasks ?r\<rparr>)"
    using run_pass [OF ph ok rng pass] by blast
  then have "map snd vs = [[7]]" by (simp add: rev_swap)
  then show thesis by - (rule that [OF run], simp_all add: queued_world_def)
qed

theorem sends_come_from_requests_witness:
  "\<exists>task \<in> set demo_sends. \<exists>t :: transaction_data. task_wire task = wire_transaction t \<and>
     bincode_deserialize server_codec 1232 (task_wire task) = Inr (versioned_transaction t) \<and> task_api_key task = ''none''"
proof -
  let ?task = "\<lparr>task_leader = demo_contact ''A'', task_leader_num = 0, task_wire = [7], task_api_key = ''none'',
    task_retry = False\<rparr>"
  have task: "?task \<in> set demo_sends" by (simp add: demo_sends_def demo_contact_def)
  then have "?task \<in> set (sends queued_world)" by (simp add: queued_world_def)
  from sends_come_from_requests [OF queued_world_reachable this, of None]
  have "wire_transaction demo_request = [7] \<and>
      bincode_deserialize server_codec 1232 [7] = Inr (versioned_transaction demo_request)"
    by (auto simp: queued_world_def demo_config_def server_codec_def)
  with task show ?thesis by (intro bexI [of _ ?task] exI [of _ demo_request] conjI) simp_all
qed

lemma visits_of_wire:
  assumes "traced cfg w" and t: "t \<in> set (accepted w)" "get_signature t = Some k"
  shows "count_list (map snd (visits w)) (wire_transaction t) \<le> visits_of w k"
proof -
  have "fst v = k" if v: "v \<in> set (visits w)" "snd v = wire_transaction t" for v
  proof -
    obtain a where "a \<in> set (accepted w)" "get_signature a = Some (fst v)" "wire_transaction a = snd v"
      using assms(1) v(1) by (auto simp: traced_def visit_ok_def)
    moreover have "decoded_by cfg a" "decoded_by cfg t" using assms(1) t(1) calculation(1) by (simp_all add: traced_def)
    ultimately show ?thesis using same_wire_same_signature [of cfg a t] v(2) t(2) by simp
  qed
  then have "length (filter (\<lambda>v. snd v = wire_transaction t) vs) \<le> length (filter (\<lambda>v. fst v = k) vs)"
    if "set vs \<subseteq> set (visits w)" for vs
    using that by (induction vs) auto
  from this [of "visits w"] show ?thesis
    by (simp add: visits_of_def count_list_eq_length_filter filter_map comp_def eq_commute)
qed

lemma requests_of_wire:
  assumes "traced cfg w" and t: "t \<in> set (accepted w)" "get_signature t = Some k"
  shows "requests_of (wire_transaction t) (accepted w)
    \<le> length (filter (\<lambda>a. get_signature a = Some k) (accepted w))"
proof -
  have "get_signature a = Some k" if "a \<in> set (accepted w)" "wire_transaction a = wire_transaction t" for a
    using that assms same_wire_same_signature [of cfg a t] by (simp add: traced_def)
  then have "requests_of (wire_transaction t) as \<le> length (filter (\<lambda>a. get_signature a = Some k) as)"
    if "set as \<subseteq> set (accepted w)" for as
    using that by (induction as) (auto simp: requests_of_def)
  then show ?thesis by simp
qed

lemma credit_filter:
  "credit w k = sum_list (map (\<lambda>a. Suc (unat (max_retries a))) (filter (\<lambda>a. get_signature a = Some k) (accepted w)))"
proof -
  have "sum_list (map (allowance k) as)
      = sum_list (map (\<lambda>a. Suc (unat (max_retries a))) (filter (\<lambda>a. get_signature a = Some k) as))" for as
    by (induction as) (auto simp: allowance_def)
  then show ?thesis by (simp add: credit_def)
qed

text \<open>
  C2: However the tasks of the service interleave, the retry loop visits a transaction at most as often
  as the accepted requests for its signature allow: each one pays for its bound and one more visit. So
  a signature requested once is retried at most \<open>max_retries + 1\<close> times.
\<close>

theorem retries_within_allowance:
  assumes "reachable cfg w"
  shows "length (filter (\<lambda>v. fst v = k) (visits w)) \<le>
      sum_list (map (\<lambda>t. unat (max_retries t) + 1) (filter (\<lambda>t. get_signature t = Some k) (accepted w))) \<and>
    (\<forall>t. filter (\<lambda>t. get_signature t = Some k) (accepted w) = [t] \<longrightarrow>
       length (filter (\<lambda>v. fst v = k) (visits w)) \<le> unat (max_retries t) + 1)"
proof -
  have "visits_of w k + held w k + unspent w k \<le> credit w k"
    using reachable_ledger [OF assms] by (simp add: ledger_ok_def)
  then have "visits_of w k \<le> credit w k" by simp
  then show ?thesis by (auto simp: visits_of_def credit_filter)
qed

text \<open>
  The network load of a transaction is bounded in every interleaving: with leader answers of at most
  \<open>L\<close> leaders, all send tasks ever spawned for its wire bytes number at most \<open>L\<close> times
  \<open>max_retries + 2\<close>, summed over the accepted requests for its signature.
\<close>

theorem total_sends_bounded:
  assumes "reachable cfg w" and "\<forall>ls. Inr ls \<in> sys_leaders cfg \<longrightarrow> length ls \<le> L"
    and "t \<in> set (accepted w)" and "get_signature t = Some k"
  shows "length (filter (\<lambda>task. task_wire task = wire_transaction t) (sends w)) \<le>
    L * sum_list (map (\<lambda>t. unat (max_retries t) + 2) (filter (\<lambda>t. get_signature t = Some k) (accepted w)))"
proof -
  let ?x = "wire_transaction t"
  let ?as = "filter (\<lambda>t. get_signature t = Some k) (accepted w)"
  have tr: "traced cfg w" using assms(1) by (rule reachable_traced)
  have "sends_ok L w" using assms(1,2) by (simp add: reachable_sends leaders_within_length)
  then have "tasks_of True ?x (sends w) \<le> L * count_list (map snd (visits w)) ?x"
    and "tasks_of False ?x (sends w) \<le> L * requests_of ?x (accepted w)"
    by (metis sends_ok_def add_leE)+
  moreover have "count_list (map snd (visits w)) ?x \<le> credit w k"
    using visits_of_wire [OF tr assms(3,4)] reachable_ledger [OF assms(1)]
    by (fastforce simp: ledger_ok_def dest: spec [of _ k])
  then have "L * count_list (map snd (visits w)) ?x \<le> L * credit w k" by simp
  moreover have "L * requests_of ?x (accepted w) \<le> L * length ?as"
    using requests_of_wire [OF tr assms(3,4)] by simp
  moreover have total: "credit w k + length ?as = sum_list (map (\<lambda>t. unat (max_retries t) + 2) ?as)"
  proof -
    have "sum_list (map (\<lambda>a. Suc (unat (max_retries a))) as) + length as
        = sum_list (map (\<lambda>t. unat (max_retries t) + 2) as)" for as
      by (induction as) auto
    then show ?thesis by (simp add: credit_filter)
  qed
  ultimately have "tasks_of True ?x (sends w) + tasks_of False ?x (sends w) \<le> L * credit w k + L * length ?as"
    by linarith
  then show ?thesis unfolding tasks_of_both total [symmetric] by (simp only: add_mult_distrib2)
qed

text \<open>
  C6: Every visit of the retry loop becomes send tasks, whatever interleaves with the pass: between two
  passes, the retry tasks spawned for a wire number at least \<open>l\<close> and at most \<open>L\<close> times its visits, when
  every answer of \<open>get_leaders\<close> has at least \<open>l\<close> leaders with a QUIC address and at most \<open>L\<close> such leaders.
\<close>

theorem visits_are_sent:
  assumes "reachable cfg w" and "phase w = Sleeping"
    and "\<forall>ls. Inr ls \<in> sys_leaders cfg \<longrightarrow>
      l \<le> length (filter (\<lambda>leader. tpu_quic leader \<noteq> None) ls) \<and>
      length (filter (\<lambda>leader. tpu_quic leader \<noteq> None) ls) \<le> L"
  shows "l * length (filter (\<lambda>v. snd v = wire) (visits w))
      \<le> length (filter (\<lambda>task. task_retry task \<and> task_wire task = wire) (sends w)) \<and>
    length (filter (\<lambda>task. task_retry task \<and> task_wire task = wire) (sends w))
      \<le> L * length (filter (\<lambda>v. snd v = wire) (visits w))"
proof -
  have "sent_ok l w" and "sends_ok L w"
    using assms(1,3) by (auto intro!: reachable_sent reachable_sends simp: leaders_within_def quic_leaders_def)
  moreover have "count_list (map snd (visits w)) wire = length (filter (\<lambda>v. snd v = wire) (visits w))"
    by (simp add: count_list_eq_length_filter filter_map comp_def eq_commute)
  ultimately show ?thesis using assms(2) by (simp add: sent_ok_def sends_ok_def tasks_of_def) metis
qed

theorem visits_are_sent_witness:
  "\<exists>w. reachable (demo_config None) w \<and> visits w \<noteq> [] \<and>
     length (filter (\<lambda>task. task_retry task \<and> task_wire task = [7]) (sends w)) = 1"
proof -
  obtain w where w: "system_run (demo_config None) queued_world w" "map snd (visits w) = [[7]]" "phase w = Sleeping"
    by (rule retried_world)
  have "reachable (demo_config None) w" using queued_world_reachable w(1) by (rule reachable_run)
  moreover have "visits w \<noteq> []" and "length (filter (\<lambda>v. snd v = [7]) (visits w)) = 1"
    using w(2) by (auto simp: map_eq_Cons_conv)
  moreover have "\<forall>ls. Inr ls \<in> sys_leaders (demo_config None) \<longrightarrow>
      1 \<le> length (filter (\<lambda>leader. tpu_quic leader \<noteq> None) ls) \<and>
      length (filter (\<lambda>leader. tpu_quic leader \<noteq> None) ls) \<le> 1"
    by (simp add: demo_config_def demo_contact_def)
  ultimately show ?thesis using visits_are_sent [of "demo_config None" w 1 1 "[7]"] w(3) by (intro exI [of _ w] conjI) auto
qed

theorem retries_within_allowance_witness:
  "\<exists>w. reachable (demo_config None) w \<and> visits w \<noteq> [] \<and> length (filter (\<lambda>v. fst v = ''sig'') (visits w)) \<le> 6"
proof -
  obtain w where w: "system_run (demo_config None) queued_world w" "map snd (visits w) = [[7]]" "accepted w = [demo_request]"
    by (rule retried_world)
  have "reachable (demo_config None) w" using queued_world_reachable w(1) by (rule reachable_run)
  moreover from retries_within_allowance [OF this, of "''sig''"] w(3)
  have "length (filter (\<lambda>v. fst v = ''sig'') (visits w)) \<le> 6"
    by (simp add: demo_request_created) (simp add: demo_request_def)
  ultimately show ?thesis using w(2) by auto
qed

theorem total_sends_bounded_witness:
  "length (filter (\<lambda>task. task_wire task = [7]) demo_sends) \<le> 1 * 7 \<and> demo_sends \<noteq> []"
proof -
  have "demo_request \<in> set (accepted queued_world)" by (simp add: queued_world_def)
  moreover have "\<forall>ls. Inr ls \<in> sys_leaders (demo_config None) \<longrightarrow> length ls \<le> 1" by (simp add: demo_config_def)
  moreover have "sends queued_world = demo_sends" "accepted queued_world = [demo_request]"
    "wire_transaction demo_request = [7]" "unat (max_retries demo_request) = 5"
    by (simp_all add: queued_world_def demo_request_def)
  moreover have "demo_sends \<noteq> []" by (simp add: demo_sends_def demo_contact_def)
  ultimately show ?thesis
    using total_sends_bounded [OF queued_world_reachable [of None], of 1 demo_request "''sig''"]
    by (simp add: demo_request_created)
qed

end
