(* ===== verification/Grpc_Geyser.thy ===== *)
theory Grpc_Geyser
  imports Solana_Rpc Transaction Dash_Map
begin

text \<open>
  \<open>infrastructure/grpc_geyser.rs\<close>: the two streams of the Yellowstone node. \<open>poll_blocks\<close> keeps the
  cache of confirmed signatures and the cache of recent blockhashes, \<open>poll_slots\<close> the current slot;
  both reconnect for ever. \<open>confirm_transaction\<close> waits on the signature cache and
  \<open>clean_signature_cache\<close> expires it. Arguments stand for the library code: \<open>hash_of\<close> for
  \<open>Hash::from_str\<close>, \<open>sig_of\<close> for \<open>Signature::try_from\<close>, and for what the connection delivers.
\<close>

record block =
  block_time :: "i64 option"
  blockhash :: string
  block_slot :: u64
  block_transactions :: "u8 list list"

datatype update_oneof = Block block | Slot u64 | Ping | Pong | Other_update

record geyser =
  geyser_cur_slot :: u64
  signature_cache :: "(string, i64 \<times> instant) dashmap"
  recent_blockhash_cache :: "(hash, u64) dashmap option"

definition new_geyser :: "(hash, u64) dashmap option \<Rightarrow> geyser" where
  "new_geyser cache =
     \<lparr>geyser_cur_slot = 0, signature_cache = [], recent_blockhash_cache = cache\<rparr>"

section \<open>Blocks\<close>

text \<open>\<open>executor.retain(|_, s| current_slot - *s <= 150)\<close>, with the subtraction of the build profile.\<close>

definition retain_recent ::
  "profile \<Rightarrow> u64 \<Rightarrow> (hash, u64) dashmap \<Rightarrow> panic + (hash, u64) dashmap" where
  "retain_recent p current_slot m =
     and_then (try_map (\<lambda>(h, s). and_then (sub_w p current_slot s) (\<lambda>d. Inr ((h, s), d \<le> 150))) m)
       (\<lambda>es. Inr (map fst (filter snd es)))"

fun cache_signatures ::
  "(u8 list \<Rightarrow> signature option) \<Rightarrow> i64 \<Rightarrow> (nat \<Rightarrow> instant) \<Rightarrow> nat \<Rightarrow> u8 list list \<Rightarrow>
   (string, i64 \<times> instant) dashmap \<Rightarrow> (string, i64 \<times> instant) dashmap" where
  "cache_signatures sig_of bt clock j [] cache = cache"
| "cache_signatures sig_of bt clock j (tx # txs) cache =
     (case sig_of tx of
        Some sg \<Rightarrow>
          cache_signatures sig_of bt clock (Suc j) txs (dm_insert (sig_text sg) (bt, clock j) cache)
      | None \<Rightarrow> cache_signatures sig_of bt clock (Suc j) txs cache)"

definition handle_block ::
  "profile \<Rightarrow> (string \<Rightarrow> hash option) \<Rightarrow> (u8 list \<Rightarrow> signature option) \<Rightarrow> (nat \<Rightarrow> instant) \<Rightarrow>
   block \<Rightarrow> geyser \<Rightarrow> panic + geyser" where
  "handle_block p hash_of sig_of clock b g =
     (let bt = unwrap_or 0 (block_time b) in
      case hash_of (blockhash b) of
        None \<Rightarrow> Inr g
      | Some h \<Rightarrow>
          and_then
            (case recent_blockhash_cache g of
               None \<Rightarrow> Inr None
             | Some executor \<Rightarrow>
                 and_then (retain_recent p (block_slot b) (dm_insert h (block_slot b) executor))
                   (\<lambda>m. Inr (Some m)))
            (\<lambda>rbc. Inr (g\<lparr>recent_blockhash_cache := rbc,
               signature_cache :=
                 cache_signatures sig_of bt clock 0 (block_transactions b) (signature_cache g)\<rparr>)))"

section \<open>The streams\<close>

datatype connection =
    Build_error | X_token_error | Connect_error | Subscribe_error | Subscribed

datatype effect = Statsd string | Send_request | Nap duration

text \<open>
  What one message of a stream carries: the message or the error of the stream, whether a ping sent
  in answer goes out, and the clock the handler reads.
\<close>

record stream_item =
  received :: "string + update_oneof option"
  ping_sends :: bool
  item_clock :: "nat \<Rightarrow> instant"

fun connection_failure :: "connection \<Rightarrow> effect list" where
  "connection_failure Build_error = [Statsd ''grpc_connect_error'', Nap 1000]"
| "connection_failure X_token_error = [Statsd ''grpc_x_token_error'', Nap 1000]"
| "connection_failure Connect_error = [Statsd ''grpc_connect_error'', Nap 1000]"
| "connection_failure Subscribe_error = [Statsd ''grpc_subscribe_error'', Nap 1000]"
| "connection_failure Subscribed = []"

fun read_blocks ::
  "profile \<Rightarrow> (string \<Rightarrow> hash option) \<Rightarrow> (u8 list \<Rightarrow> signature option) \<Rightarrow> geyser \<Rightarrow>
   stream_item list \<Rightarrow> effect list \<times> (panic + geyser)" where
  "read_blocks p hash_of sig_of g [] = ([], Inr g)"
| "read_blocks p hash_of sig_of g (it # its) =
     (case received it of
        Inl _ \<Rightarrow> ([Statsd ''grpc_resubscribe''], Inr g)
      | Inr (Some (Block b)) \<Rightarrow>
          (case handle_block p hash_of sig_of (item_clock it) b g of
             Inl e \<Rightarrow> ([], Inl e)
           | Inr g' \<Rightarrow> read_blocks p hash_of sig_of g' its)
      | Inr (Some Ping) \<Rightarrow>
          if ping_sends it
          then (let (es, r) = read_blocks p hash_of sig_of g its in (Send_request # es, r))
          else ([Send_request, Statsd ''grpc_ping_error''], Inr g)
      | Inr (Some Pong) \<Rightarrow> read_blocks p hash_of sig_of g its
      | Inr _ \<Rightarrow> read_blocks p hash_of sig_of g its)"

text \<open>One turn of the outer loop of \<open>poll_blocks\<close>.\<close>

definition poll_blocks_round ::
  "profile \<Rightarrow> (string \<Rightarrow> hash option) \<Rightarrow> (u8 list \<Rightarrow> signature option) \<Rightarrow>
   connection \<times> stream_item list \<Rightarrow> geyser \<Rightarrow> effect list \<times> (panic + geyser)" where
  "poll_blocks_round p hash_of sig_of conn g =
     (case conn of (outcome, items) \<Rightarrow>
        if outcome = Subscribed
        then (case read_blocks p hash_of sig_of g items of
                (es, Inr g') \<Rightarrow> (es @ [Nap 1000], Inr g')
              | (es, Inl e) \<Rightarrow> (es, Inl e))
        else (connection_failure outcome, Inr g))"

fun read_slots :: "geyser \<Rightarrow> stream_item list \<Rightarrow> effect list \<times> geyser" where
  "read_slots g [] = ([], g)"
| "read_slots g (it # its) =
     (case received it of
        Inl _ \<Rightarrow> ([Statsd ''grpc_resubscribe''], g)
      | Inr (Some (Slot s)) \<Rightarrow> read_slots (g\<lparr>geyser_cur_slot := s\<rparr>) its
      | Inr (Some Ping) \<Rightarrow>
          if ping_sends it
          then (let (es, r) = read_slots g its in (Send_request # es, r))
          else ([Send_request, Statsd ''grpc_ping_error''], g)
      | Inr (Some Pong) \<Rightarrow> read_slots g its
      | Inr _ \<Rightarrow> read_slots g its)"

text \<open>
  One turn of the outer loop of \<open>poll_slots\<close>. The subscription request is sent with an \<open>unwrap\<close>:
  when it cannot be sent, the task dies.
\<close>

definition poll_slots_round ::
  "connection \<times> bool \<times> stream_item list \<Rightarrow> geyser \<Rightarrow> effect list \<times> (panic + geyser)" where
  "poll_slots_round conn g =
     (case conn of (outcome, request_sends, items) \<Rightarrow>
        if outcome \<noteq> Subscribed then (connection_failure outcome, Inr g)
        else if \<not> request_sends then ([Send_request], Inl Unwrap_failed)
        else (let (es, g') = read_slots g items in (Send_request # es @ [Nap 1000], Inr g')))"

text \<open>The loops themselves, over the turns the connection allows: a panic ends the task.\<close>

fun run_rounds :: "('c \<Rightarrow> 'g \<Rightarrow> 'e list \<times> (panic + 'g)) \<Rightarrow> 'c list \<Rightarrow> 'g \<Rightarrow> 'e list \<times> (panic + 'g)" where
  "run_rounds round [] g = ([], Inr g)"
| "run_rounds round (c # cs) g =
     (case round c g of
        (es, Inl e) \<Rightarrow> (es, Inl e)
      | (es, Inr g') \<Rightarrow> (let (es', r) = run_rounds round cs g' in (es @ es', r)))"

definition poll_blocks where
  "poll_blocks p hash_of sig_of = run_rounds (poll_blocks_round p hash_of sig_of)"

definition poll_slots :: "(connection \<times> bool \<times> stream_item list) list \<Rightarrow> geyser \<Rightarrow> effect list \<times> (panic + geyser)" where
  "poll_slots = run_rounds poll_slots_round"

section \<open>The signature cache\<close>

text \<open>One turn of \<open>clean_signature_cache\<close>; \<open>now k\<close> is the clock when the entry of \<open>k\<close> is visited.\<close>

definition clean_signature_cache :: "(string \<Rightarrow> instant) \<Rightarrow> geyser \<Rightarrow> geyser" where
  "clean_signature_cache now g =
     g\<lparr>signature_cache :=
       dm_retain (\<lambda>k (_, v). (now k - v) div 1000 < 90) (signature_cache g)\<rparr>"

definition confirmed_time :: "(string, i64 \<times> instant) dashmap \<Rightarrow> string \<Rightarrow> i64 option" where
  "confirmed_time cache sg = map_option fst (dm_get cache sg)"

definition CONFIRM_LIMIT :: duration where
  "CONFIRM_LIMIT = 60000"

text \<open>
  One turn of the waiting loop, with the elapsed time and the cache it finds: the answer it leaves with,
  or \<open>None\<close> when it sleeps on.
\<close>

definition confirm_look ::
  "duration \<Rightarrow> (string, i64 \<times> instant) dashmap \<Rightarrow> string \<Rightarrow> i64 option option" where
  "confirm_look elapsed cache sg =
     (if elapsed < CONFIRM_LIMIT then
        (case confirmed_time cache sg of
           Some bt \<Rightarrow> Some (Some bt)
         | None \<Rightarrow> None)
      else Some None)"

text \<open>The loop from its \<open>k\<close>-th turn on: the turn it leaves in, which is how often it has slept, and its answer.\<close>

partial_function (option) confirm_turn ::
  "(nat \<Rightarrow> duration) \<Rightarrow> (nat \<Rightarrow> (string, i64 \<times> instant) dashmap) \<Rightarrow> string \<Rightarrow> nat \<Rightarrow> (nat \<times> i64 option) option" where
  "confirm_turn clock caches sg k =
     (case confirm_look (clock k) (caches k) sg of
        Some answer \<Rightarrow> Some (k, answer)
      | None \<Rightarrow> confirm_turn clock caches sg (Suc k))"

definition confirm_transaction ::
  "(nat \<Rightarrow> duration) \<Rightarrow> (nat \<Rightarrow> (string, i64 \<times> instant) dashmap) \<Rightarrow> string \<Rightarrow> i64 option option" where
  "confirm_transaction clock caches sg = map_option snd (confirm_turn clock caches sg 0)"

definition get_next_slot :: "geyser \<Rightarrow> u64 option" where
  "get_next_slot g = (if geyser_cur_slot g = 0 then None else Some (geyser_cur_slot g))"

section \<open>Start-up and requests\<close>

definition initialize_blockhash_cache ::
  "(string + u64) \<Rightarrow> (string + hash) \<Rightarrow> (hash, u64) dashmap \<Rightarrow> string + (hash, u64) dashmap" where
  "initialize_blockhash_cache get_slot get_latest_blockhash cache =
     and_then get_slot (\<lambda>slot.
       and_then get_latest_blockhash (\<lambda>bh. Inr (dm_insert bh slot cache)))"

text \<open>\<open>new_with_rpc\<close>: the \<open>expect\<close> on the initialisation, before the tasks start.\<close>

definition new_with_rpc ::
  "(string + u64) \<Rightarrow> (string + hash) \<Rightarrow> (hash, u64) dashmap option \<Rightarrow> panic + geyser" where
  "new_with_rpc get_slot get_latest_blockhash cache =
     (case cache of
        None \<Rightarrow> Inr (new_geyser None)
      | Some m \<Rightarrow>
          (case initialize_blockhash_cache get_slot get_latest_blockhash m of
             Inl _ \<Rightarrow> Inl (Expect_failed ''Failed to initialize blockhash cache'')
           | Inr m' \<Rightarrow> Inr (new_geyser (Some m'))))"

record block_filter =
  account_include :: "string list"
  include_transactions :: "bool option"
  include_accounts :: "bool option"
  include_entries :: "bool option"

datatype commitment_level = Processed_level | Confirmed_level | Finalized_level

record subscribe_request =
  request_slots :: "(string \<times> bool option) list"
  request_blocks :: "(string \<times> block_filter) list"
  request_commitment :: "commitment_level option"
  request_ping :: "int option"

definition default_request :: subscribe_request where
  "default_request =
     \<lparr>request_slots = [], request_blocks = [], request_commitment = None, request_ping = None\<rparr>"

text \<open>\<open>sample\<close> is the sequence the thread's generator of alphanumeric characters yields.\<close>

definition generate_random_string :: "(nat \<Rightarrow> char) \<Rightarrow> nat \<Rightarrow> string" where
  "generate_random_string sample len = map sample [0..<len]"

definition get_block_subscribe_request :: "(nat \<Rightarrow> char) \<Rightarrow> subscribe_request" where
  "get_block_subscribe_request sample =
     default_request\<lparr>
       request_blocks := [(generate_random_string sample 20,
         \<lparr>account_include = [], include_transactions = Some True,
          include_accounts = Some False, include_entries = Some False\<rparr>)],
       request_commitment := Some Confirmed_level\<rparr>"

definition get_slot_subscribe_request :: "(nat \<Rightarrow> char) \<Rightarrow> subscribe_request" where
  "get_slot_subscribe_request sample =
     default_request\<lparr>request_slots := [(generate_random_string sample 20, Some True)]\<rparr>"

definition ping_request :: subscribe_request where
  "ping_request = default_request\<lparr>request_ping := Some 1\<rparr>"

section \<open>Facts about the blockhash cache\<close>

lemma retain_recent_Release:
  "retain_recent Release cur m = Inr (dm_retain (\<lambda>_ s. cur - s \<le> 150) m)"
proof -
  have "try_map (\<lambda>(h, s). and_then (sub_w Release cur s) (\<lambda>d. Inr ((h, s), d \<le> 150))) m =
      (Inr (map (\<lambda>(h, s). ((h, s), cur - s \<le> 150)) m) :: panic + _)"
    by (induction m) auto
  moreover have "map fst (filter snd (map (\<lambda>(h, s). ((h, s), cur - s \<le> 150)) m))
      = dm_retain (\<lambda>_ s. cur - s \<le> 150) m"
    by (induction m) (auto simp: dm_retain_def)
  ultimately show ?thesis by (simp add: retain_recent_def)
qed

text \<open>The checked build agrees when no entry is ahead of the block, and panics otherwise.\<close>

lemma retain_recent_Dev:
  "retain_recent Dev cur m =
     (if \<forall>(h, s) \<in> set m. s \<le> cur then Inr (dm_retain (\<lambda>_ s. cur - s \<le> 150) m)
      else Inl Arith_overflow)"
proof -
  let ?f = "\<lambda>(h, s). and_then (sub_w Dev cur s) (\<lambda>d. Inr ((h, s), d \<le> 150))"
  have "try_map ?f m =
      (if \<forall>(h, s) \<in> set m. s \<le> cur then Inr (map (\<lambda>(h, s). ((h, s), cur - s \<le> 150)) m)
       else Inl Arith_overflow)" for m :: "(hash \<times> u64) list"
    by (induction m) (auto simp: sub_w_def word_less_nat_alt not_le split: prod.splits)
  moreover have "map fst (filter snd (map (\<lambda>(h, s). ((h, s), cur - s \<le> 150)) m))
      = dm_retain (\<lambda>_ s. cur - s \<le> 150) m" for m :: "(hash \<times> u64) list"
    by (induction m) (auto simp: dm_retain_def)
  ultimately show ?thesis by (simp add: retain_recent_def)
qed

lemma sub_le_iff:
  fixes t s k :: "'l::len word"
  assumes "s \<le> t"
  shows "t - s \<le> k \<longleftrightarrow> unat t \<le> unat s + unat k"
proof -
  have "unat (t - s) = unat t - unat s"
    using assms by (intro unat_sub_exact) (simp add: word_le_nat_alt)
  then show ?thesis using assms by (simp add: word_le_nat_alt le_diff_conv2 le_diff_conv add.commute)
qed

lemma sub_gt_wrap:
  fixes t s :: u64
  assumes "unat t < unat s" and "unat s - unat t < 2 ^ 64 - 150"
  shows "\<not> t - s \<le> 150"
proof -
  have "unat (t - s) = 2 ^ 64 + unat t - unat s" using unat_sub_wrap [OF assms(1)] by simp
  then have "150 < unat (t - s)" using assms by linarith
  then show ?thesis by (simp add: word_le_nat_alt)
qed

section \<open>Facts about the signature cache\<close>

lemma cache_signatures_ok: "dm_ok c \<Longrightarrow> dm_ok (cache_signatures sig_of bt clock j txs c)"
  by (induction txs arbitrary: j c) (auto simp: dash_wf split: option.split)

text \<open>A key keeps being cached, with an entry that is either the old one or one of the block's.\<close>

lemma cache_signatures_keeps:
  assumes "dm_ok c" and "dm_get c sg = Some (bt0, at0)" and "T \<le> at0" and "\<forall>i. T \<le> clock i"
  shows "\<exists>bt' at'. dm_get (cache_signatures sig_of bt clock j txs c) sg = Some (bt', at') \<and> T \<le> at'"
  using assms(1-3)
proof (induction txs arbitrary: j c bt0 at0)
  case (Cons tx txs)
  show ?case
  proof (cases "sig_of tx")
    case None
    then show ?thesis using Cons.IH [OF Cons.prems] by simp
  next
    case (Some s)
    let ?c = "dm_insert (sig_text s) (bt, clock j) c"
    obtain b a where "dm_get ?c sg = Some (b, a)" "T \<le> a"
      using Cons.prems assms(4) by (cases "sig_text s = sg") (auto simp: dash)
    then show ?thesis using Some Cons.IH [of ?c b a "Suc j"] Cons.prems(1) by (simp add: dash_wf)
  qed
qed auto

lemma cache_signatures_hit:
  assumes "dm_ok c" and "tx \<in> set txs" and "sig_of tx = Some sg" and "\<forall>i. T \<le> clock i"
  shows "\<exists>at'. dm_get (cache_signatures sig_of bt clock j txs c) (sig_text sg) = Some (bt, at') \<and> T \<le> at'"
  using assms(1,2)
proof (induction txs arbitrary: j c)
  case (Cons t txs)
  define c' where "c' = (case sig_of t of Some s \<Rightarrow> dm_insert (sig_text s) (bt, clock j) c | None \<Rightarrow> c)"
  have ok: "dm_ok c'" using Cons.prems by (simp add: c'_def dash_wf split: option.split)
  have eq: "cache_signatures sig_of bt clock j (t # txs) c = cache_signatures sig_of bt clock (Suc j) txs c'"
    by (simp add: c'_def split: option.split)
  have keep: "\<exists>at'. dm_get (cache_signatures sig_of bt clock j txs c) k = Some (bt, at') \<and> T \<le> at'"
    if "dm_ok c" "dm_get c k = Some (bt, a)" "T \<le> a" for c k a j txs
    using that
  proof (induction txs arbitrary: j c a)
    case (Cons u us)
    show ?case
    proof (cases "sig_of u")
      case None
      then show ?thesis using Cons.IH [OF Cons.prems] by simp
    next
      case (Some s)
      let ?c = "dm_insert (sig_text s) (bt, clock j) c"
      obtain a' where "dm_get ?c k = Some (bt, a')" "T \<le> a'"
        using Cons.prems assms(4) by (cases "sig_text s = k") (auto simp: dash)
      then show ?thesis using Some Cons.IH [of ?c a' "Suc j"] Cons.prems(1) by (simp add: dash_wf)
    qed
  qed auto
  show ?case
  proof (cases "tx \<in> set txs")
    case True
    with Cons.IH [OF ok] eq show ?thesis by simp
  next
    case False
    with Cons.prems have "t = tx" by simp
    then have "dm_get c' (sig_text sg) = Some (bt, clock j)"
      using assms(3) Cons.prems(1) by (simp add: c'_def dash)
    then show ?thesis using keep [OF ok] assms(4) eq by simp
  qed
qed simp

lemma handle_block_sigs:
  "handle_block p hash_of sig_of clock b g = Inr g' \<Longrightarrow>
     signature_cache g' = signature_cache g \<or>
     signature_cache g' = cache_signatures sig_of (unwrap_or 0 (block_time b)) clock 0
       (block_transactions b) (signature_cache g)"
  by (auto simp: handle_block_def Let_def and_then_eq_Inr split: option.splits)

text \<open>Where the entries of the two caches come from.\<close>

lemma cache_signatures_origin:
  assumes "dm_ok c" and "dm_get (cache_signatures sig_of bt clock j txs c) k = Some (t, a)"
  shows "dm_get c k = Some (t, a) \<or> t = bt \<and> (\<exists>tx \<in> set txs. \<exists>sg. sig_of tx = Some sg \<and> k = sig_text sg)"
  using assms
proof (induction txs arbitrary: j c)
  case (Cons tx txs)
  show ?case
  proof (cases "sig_of tx")
    case None
    then show ?thesis using Cons.IH [OF Cons.prems(1)] Cons.prems(2) by auto
  next
    case (Some sg)
    let ?c = "dm_insert (sig_text sg) (bt, clock j) c"
    have "dm_get ?c k = Some (t, a) \<or> t = bt \<and> (\<exists>tx \<in> set txs. \<exists>sg. sig_of tx = Some sg \<and> k = sig_text sg)"
      using Cons.IH [of ?c "Suc j"] Cons.prems Some by (simp add: dash_wf)
    then show ?thesis using Some Cons.prems(1) by (auto simp: dash split: if_splits)
  qed
qed simp

lemma retain_recent_shrinks:
  assumes "retain_recent p cur m = Inr m'" and "dm_ok m"
  shows "dm_ok m'" and "dm_get m' h = Some s \<Longrightarrow> dm_get m h = Some s"
proof -
  have "m' = dm_retain (\<lambda>_ s. cur - s \<le> 150) m"
    using assms(1) by (cases p) (simp_all add: retain_recent_Release retain_recent_Dev split: if_splits)
  then show "dm_ok m'" and "dm_get m' h = Some s \<Longrightarrow> dm_get m h = Some s"
    using assms(2) by (simp_all add: dash_wf dm.retain_only)
qed

definition geyser_ok :: "geyser \<Rightarrow> bool" where
  "geyser_ok g \<longleftrightarrow> dm_ok (signature_cache g) \<and> (\<forall>m. recent_blockhash_cache g = Some m \<longrightarrow> dm_ok m)"

lemma handle_block_caches:
  assumes "handle_block p hash_of sig_of clock b g = Inr g'" and "geyser_ok g"
  shows "geyser_ok g'"
    and "dm_get (signature_cache g') k = Some (t, a) \<Longrightarrow> dm_get (signature_cache g) k = Some (t, a) \<or>
      hash_of (blockhash b) \<noteq> None \<and> t = unwrap_or 0 (block_time b) \<and>
      (\<exists>tx \<in> set (block_transactions b). \<exists>sg. sig_of tx = Some sg \<and> k = sig_text sg)"
    and "recent_blockhash_cache g' = Some m' \<Longrightarrow> dm_get m' h = Some s \<Longrightarrow>
      (\<exists>m. recent_blockhash_cache g = Some m \<and> dm_get m h = Some s) \<or>
      hash_of (blockhash b) = Some h \<and> s = block_slot b"
proof -
  have g: "dm_ok (signature_cache g)" using assms(2) by (simp add: geyser_ok_def)
  consider (skipped) "hash_of (blockhash b) = None" "g' = g"
    | (no_cache) h0 where "hash_of (blockhash b) = Some h0" "recent_blockhash_cache g = None"
        "recent_blockhash_cache g' = None"
    | (cached) h0 m m1 where "hash_of (blockhash b) = Some h0" "recent_blockhash_cache g = Some m"
        "retain_recent p (block_slot b) (dm_insert h0 (block_slot b) m) = Inr m1"
        "recent_blockhash_cache g' = Some m1"
    using assms(1) by (auto simp: handle_block_def Let_def and_then_eq_Inr split: option.splits)
  note cases = this
  note sigs = handle_block_sigs [OF assms(1)]
  show "geyser_ok g'"
    using cases
  proof cases
    case cached
    then have "dm_ok m" using assms(2) by (simp add: geyser_ok_def)
    then have "dm_ok m1" using retain_recent_shrinks(1) [OF cached(3)] by (simp add: dash_wf)
    with cached sigs g show ?thesis by (auto simp: geyser_ok_def cache_signatures_ok)
  qed (use assms(2) sigs g in \<open>auto simp: geyser_ok_def cache_signatures_ok\<close>)
  show "dm_get (signature_cache g) k = Some (t, a) \<or> hash_of (blockhash b) \<noteq> None \<and> t = unwrap_or 0 (block_time b) \<and>
      (\<exists>tx \<in> set (block_transactions b). \<exists>sg. sig_of tx = Some sg \<and> k = sig_text sg)"
    if "dm_get (signature_cache g') k = Some (t, a)"
    using cases
  proof cases
    case skipped
    with that show ?thesis by simp
  next
    case no_cache
    with that sigs cache_signatures_origin [OF g] show ?thesis by fastforce
  next
    case cached
    with that sigs cache_signatures_origin [OF g] show ?thesis by fastforce
  qed
  show "(\<exists>m. recent_blockhash_cache g = Some m \<and> dm_get m h = Some s) \<or>
      hash_of (blockhash b) = Some h \<and> s = block_slot b"
    if "recent_blockhash_cache g' = Some m'" "dm_get m' h = Some s"
    using cases
  proof cases
    case cached
    then have ok: "dm_ok m" using assms(2) by (simp add: geyser_ok_def)
    then have "dm_get (dm_insert h0 (block_slot b) m) h = Some s"
      using retain_recent_shrinks(2) [OF cached(3)] that cached(4) by (simp add: dash_wf)
    with ok cached show ?thesis by (auto simp: dash split: if_splits)
  qed (use that in auto)
qed

lemma clean_caches:
  assumes "geyser_ok g"
  shows "geyser_ok (clean_signature_cache now g)"
    and "dm_get (signature_cache (clean_signature_cache now g)) k = Some v \<Longrightarrow> dm_get (signature_cache g) k = Some v"
  using assms by (auto simp: geyser_ok_def clean_signature_cache_def dash_wf dm.retain_only)

lemma read_blocks_caches: "geyser_ok g \<Longrightarrow> read_blocks p hash_of sig_of g its = (es, Inr g') \<Longrightarrow> geyser_ok g'"
proof (induction its arbitrary: g es)
  case (Cons it its)
  show ?case
  proof (cases "\<exists>b. received it = Inr (Some (Block b))")
    case True
    then obtain b where "received it = Inr (Some (Block b))" by blast
    with Cons show ?thesis by (auto split: sum.splits dest: handle_block_caches(1))
  next
    case False
    with Cons show ?thesis
      by (auto split: sum.splits option.splits update_oneof.splits if_splits prod.splits)
  qed
qed simp

lemma read_slots_caches: "read_slots g its = (es, g') \<Longrightarrow> geyser_ok g' = geyser_ok g"
proof (induction its arbitrary: g es)
  case (Cons it its)
  then show ?case
    by (fastforce simp: geyser_ok_def split: sum.splits option.splits update_oneof.splits if_splits prod.splits)
qed simp

section \<open>The confirmation loop\<close>

lemma confirm_look_None:
  "confirm_look e cache sg = None \<longleftrightarrow> e < CONFIRM_LIMIT \<and> confirmed_time cache sg = None"
  by (auto simp: confirm_look_def split: option.split)

lemma confirm_look_Some:
  "confirm_look e cache sg = Some r \<longleftrightarrow>
     (if e < CONFIRM_LIMIT then r \<noteq> None \<and> confirmed_time cache sg = r else r = None)"
  by (auto simp: confirm_look_def split: option.split)

text \<open>On a clock that advances the loop leaves in the first turn whose look has an answer.\<close>

lemma confirm_turn_returns:
  assumes "sleeps_at_least 10 clock"
  shows "\<exists>n r. confirm_turn clock caches sg k = Some (n, r) \<and> k \<le> n \<and>
    confirm_look (clock n) (caches n) sg = Some r \<and>
    (\<forall>j. k \<le> j \<longrightarrow> j < n \<longrightarrow> confirm_look (clock j) (caches j) sg = None)"
proof (induction "CONFIRM_LIMIT - clock k" arbitrary: k rule: less_induct)
  case less
  show ?case
  proof (cases "confirm_look (clock k) (caches k) sg")
    case (Some r)
    then have "confirm_turn clock caches sg k = Some (k, r)" by (subst confirm_turn.simps) simp
    with Some show ?thesis by fastforce
  next
    case None
    have "clock k + 10 \<le> clock (Suc k)" using assms by (rule sleeps_at_leastD)
    with None obtain n r where "confirm_turn clock caches sg (Suc k) = Some (n, r)" "Suc k \<le> n"
      "confirm_look (clock n) (caches n) sg = Some r"
      "\<forall>j. Suc k \<le> j \<longrightarrow> j < n \<longrightarrow> confirm_look (clock j) (caches j) sg = None"
      using less [of "Suc k"] by (fastforce simp: confirm_look_None)
    moreover from this(1) None have "confirm_turn clock caches sg k = Some (n, r)"
      by (subst confirm_turn.simps) simp
    moreover have "j = k \<or> Suc k \<le> j" if "k \<le> j" for j using that by arith
    ultimately show ?thesis using None by (metis Suc_leD)
  qed
qed

lemma confirm_turn_looked:
  assumes "confirm_turn clock caches sg k = Some (n, r)"
  shows "confirm_look (clock n) (caches n) sg = Some r"
proof -
  have "\<forall>n r. x = (n, r) \<longrightarrow> confirm_look (clock n) (caches n) sg = Some r"
    if "confirm_turn clock caches sg k = Some x" for x
    using _ that by (rule confirm_turn.raw_induct) (auto split: option.splits)
  with assms show ?thesis by blast
qed

interpretation geyser_slots: slot_source get_next_slot
  by unfold_locales (auto simp: get_next_slot_def split: if_splits)

interpretation geyser_confirm: confirmation_source confirmed_time confirm_transaction CONFIRM_LIMIT 10
proof unfold_locales
  fix clock :: "nat \<Rightarrow> duration" and caches sg bt k
  show "sleeps_at_least 10 clock \<Longrightarrow> \<exists>r. confirm_transaction clock caches sg = Some r"
    using confirm_turn_returns [of clock caches sg 0] by (auto simp: confirm_transaction_def)
  show "confirm_transaction clock caches sg = Some (Some bt) \<Longrightarrow>
      \<exists>k. clock k < CONFIRM_LIMIT \<and> confirmed_time (caches k) sg = Some bt"
    by (auto simp: confirm_transaction_def confirm_look_Some dest!: confirm_turn_looked split: if_splits)
  show "confirmed_time (caches k) sg = None"
    if none: "confirm_transaction clock caches sg = Some None" and ticks: "sleeps_at_least 10 clock"
      and early: "clock k < CONFIRM_LIMIT"
  proof -
    obtain n where turn: "confirm_turn clock caches sg 0 = Some (n, None)"
      using none by (auto simp: confirm_transaction_def)
    then have "CONFIRM_LIMIT \<le> clock n"
      using confirm_turn_looked [OF turn] by (simp add: confirm_look_Some split: if_splits)
    with early sleeps_at_least_mono [OF ticks, of n k] have "k < n" by (meson leD le_less_trans not_le)
    with turn confirm_turn_returns [OF ticks, of caches sg 0] show ?thesis by (auto simp: confirm_look_None)
  qed
qed

section \<open>Sequences of cache events\<close>

datatype cache_event = Block_event "nat \<Rightarrow> instant" block | Clean_event "string \<Rightarrow> instant"

fun run_cache_events ::
  "profile \<Rightarrow> (string \<Rightarrow> hash option) \<Rightarrow> (u8 list \<Rightarrow> signature option) \<Rightarrow> cache_event list \<Rightarrow>
   geyser \<Rightarrow> panic + geyser" where
  "run_cache_events p hash_of sig_of [] g = Inr g"
| "run_cache_events p hash_of sig_of (Block_event clock b # evs) g =
     and_then (handle_block p hash_of sig_of clock b g) (run_cache_events p hash_of sig_of evs)"
| "run_cache_events p hash_of sig_of (Clean_event now # evs) g =
     run_cache_events p hash_of sig_of evs (clean_signature_cache now g)"

fun event_within :: "instant \<Rightarrow> cache_event \<Rightarrow> bool" where
  "event_within T (Block_event clock b) = (\<forall>i. T \<le> clock i)"
| "event_within T (Clean_event now) = (\<forall>k. now k < T + 90000)"

lemma clean_keeps:
  assumes "dm_ok (signature_cache g)" and "dm_get (signature_cache g) sg = Some (bt, at0)"
    and "now sg < at0 + 90000"
  shows "dm_get (signature_cache (clean_signature_cache now g)) sg = Some (bt, at0)"
proof -
  have "now sg - at0 < 90000" using assms(3) by arith
  then have "(now sg - at0) div 1000 < 90" by (simp add: div_less_iff_less_mult)
  then show ?thesis using assms(1,2) by (simp add: clean_signature_cache_def dash)
qed

lemma handle_block_ok:
  "handle_block p hash_of sig_of clock b g = Inr g' \<Longrightarrow> dm_ok (signature_cache g) \<Longrightarrow>
     dm_ok (signature_cache g')"
  using handle_block_sigs [of p hash_of sig_of clock b g g'] by (auto simp: cache_signatures_ok)

lemma cache_events_keep:
  assumes "dm_ok (signature_cache g)" and "dm_get (signature_cache g) sg = Some (bt, at0)"
    and "T \<le> at0" and "\<forall>ev \<in> set evs. event_within T ev"
    and "run_cache_events p hash_of sig_of evs g = Inr g'"
  shows "\<exists>bt' at'. dm_get (signature_cache g') sg = Some (bt', at') \<and> T \<le> at'"
  using assms
proof (induction evs arbitrary: g bt at0)
  case (Cons ev evs)
  show ?case
  proof (cases ev)
    case (Block_event clock b)
    then obtain g1 where h: "handle_block p hash_of sig_of clock b g = Inr g1"
      and run: "run_cache_events p hash_of sig_of evs g1 = Inr g'"
      using Cons.prems(5) by (auto simp: and_then_eq_Inr)
    have clock: "\<forall>i. T \<le> clock i" using Cons.prems(4) Block_event by simp
    obtain b1 a1 where "dm_get (signature_cache g1) sg = Some (b1, a1)" "T \<le> a1"
      using handle_block_sigs [OF h] Cons.prems(2,3)
        cache_signatures_keeps [OF Cons.prems(1-3) clock, of sig_of "unwrap_or 0 (block_time b)" 0
          "block_transactions b"] by auto
    then show ?thesis
      using Cons.IH [of g1 b1 a1] handle_block_ok [OF h Cons.prems(1)] Cons.prems(4) run by auto
  next
    case (Clean_event now)
    let ?g = "clean_signature_cache now g"
    have "now sg < T + 90000" using Cons.prems(4) Clean_event by simp
    then have "dm_get (signature_cache ?g) sg = Some (bt, at0)"
      using Cons.prems(1-3) by (intro clean_keeps) auto
    moreover have "dm_ok (signature_cache ?g)"
      using Cons.prems(1) by (simp add: clean_signature_cache_def dash_wf)
    ultimately show ?thesis using Cons.IH [of ?g bt at0] Cons.prems(3-5) Clean_event by simp
  qed
qed auto

lemma block_stays_confirmed:
  assumes "handle_block p hash_of sig_of clock b g = Inr g1" and "dm_ok (signature_cache g)"
    and "hash_of (blockhash b) \<noteq> None" and "tx \<in> set (block_transactions b)" and "sig_of tx = Some sg"
    and "\<forall>i. T \<le> clock i" and "\<forall>ev \<in> set evs. event_within T ev"
    and "run_cache_events p hash_of sig_of evs g1 = Inr g2"
  shows "confirmed_time (signature_cache g2) (sig_text sg) \<noteq> None"
proof -
  have "signature_cache g1 = cache_signatures sig_of (unwrap_or 0 (block_time b)) clock 0
      (block_transactions b) (signature_cache g)"
    using assms(1,3) by (auto simp: handle_block_def Let_def and_then_eq_Inr)
  then obtain at0 where "dm_get (signature_cache g1) (sig_text sg) =
      Some (unwrap_or 0 (block_time b), at0)" and "T \<le> at0"
    using cache_signatures_hit [where sig_of = sig_of and clock = clock, OF assms(2,4-6),
        of "unwrap_or 0 (block_time b)" 0] by auto
  with cache_events_keep [OF handle_block_ok [OF assms(1,2)] _ _ assms(7,8)]
  show ?thesis by (fastforce simp: confirmed_time_def)
qed

lemma run_cache_events_append:
  "run_cache_events p hash_of sig_of (evs @ evs') g =
     and_then (run_cache_events p hash_of sig_of evs g) (run_cache_events p hash_of sig_of evs')"
proof (induction evs arbitrary: g)
  case (Cons ev evs)
  show ?case
  proof (cases ev)
    case (Block_event clock b)
    with Cons show ?thesis by (cases "handle_block p hash_of sig_of clock b g") simp_all
  next
    case (Clean_event now)
    with Cons show ?thesis by simp
  qed
qed simp

lemma run_cache_events_ok:
  "run_cache_events p hash_of sig_of evs g = Inr g' \<Longrightarrow> dm_ok (signature_cache g) \<Longrightarrow> dm_ok (signature_cache g')"
proof (induction evs arbitrary: g)
  case (Cons ev evs)
  show ?case
  proof (cases ev)
    case (Block_event clock b)
    with Cons show ?thesis by (auto simp: and_then_eq_Inr dest: handle_block_ok)
  next
    case (Clean_event now)
    with Cons show ?thesis by (simp add: clean_signature_cache_def dash_wf)
  qed
qed simp

text \<open>Events that do not bring a signature add no entry for it.\<close>

fun brings :: "(u8 list \<Rightarrow> signature option) \<Rightarrow> string \<Rightarrow> cache_event \<Rightarrow> bool" where
  "brings sig_of k (Block_event clock b) =
     (\<exists>tx \<in> set (block_transactions b). \<exists>sg. sig_of tx = Some sg \<and> sig_text sg = k)"
| "brings sig_of k (Clean_event now) = False"

lemma handle_block_origin:
  assumes "handle_block p hash_of sig_of clock b g = Inr g'" and "dm_ok (signature_cache g)"
    and "dm_get (signature_cache g') k = Some (t, a)"
  shows "dm_get (signature_cache g) k = Some (t, a) \<or> brings sig_of k (Block_event clock b) \<and> a \<in> range clock"
proof -
  have "dm_get c k = Some (t, a) \<or> a \<in> range clock"
    if "dm_ok c" "dm_get (cache_signatures sig_of bt clock j txs c) k = Some (t, a)" for c bt j txs
    using that
  proof (induction txs arbitrary: j c)
    case (Cons tx txs)
    show ?case
    proof (cases "sig_of tx")
      case None
      with Cons show ?thesis by simp
    next
      case (Some sg)
      let ?c = "dm_insert (sig_text sg) (bt, clock j) c"
      have "dm_get ?c k = Some (t, a) \<or> a \<in> range clock"
        using Cons.IH [of ?c "Suc j"] Cons.prems Some by (simp add: dash_wf)
      then show ?thesis using Cons.prems(1) by (auto simp: dash split: if_splits)
    qed
  qed simp
  with handle_block_sigs [OF assms(1)] assms(2,3) cache_signatures_origin [OF assms(2)] show ?thesis
    by fastforce
qed

lemma quiet_events:
  assumes "\<forall>ev \<in> set evs. \<not> brings sig_of k ev" and "run_cache_events p hash_of sig_of evs g = Inr g'"
    and "dm_ok (signature_cache g)" and "dm_get (signature_cache g') k = Some (t, a)"
  shows "dm_get (signature_cache g) k = Some (t, a)"
  using assms
proof (induction evs arbitrary: g)
  case (Cons ev evs)
  show ?case
  proof (cases ev)
    case (Block_event clock b)
    with Cons.prems(2) obtain g1 where "handle_block p hash_of sig_of clock b g = Inr g1"
      and "run_cache_events p hash_of sig_of evs g1 = Inr g'"
      by (auto simp: and_then_eq_Inr)
    with Cons Block_event handle_block_ok [of p hash_of sig_of clock b g g1]
      handle_block_origin [of p hash_of sig_of clock b g g1 k t a]
    show ?thesis by auto
  next
    case (Clean_event now)
    have "dm_ok (signature_cache (clean_signature_cache now g))"
      using Cons.prems(3) by (simp add: clean_signature_cache_def dash_wf)
    with Cons Clean_event have "dm_get (signature_cache (clean_signature_cache now g)) k = Some (t, a)" by simp
    with Cons.prems(3) show ?thesis by (simp add: clean_signature_cache_def dm.retain_only)
  qed
qed simp

lemma run_rounds_keeps:
  assumes "\<And>c g es g'. round c g = (es, Inr g') \<Longrightarrow> Q g \<Longrightarrow> Q g'"
  shows "run_rounds round cs g = (es, Inr g') \<Longrightarrow> Q g \<Longrightarrow> Q g'"
proof (induction cs arbitrary: g es)
  case (Cons c cs)
  then show ?case using assms by (auto simp: Let_def split: prod.splits sum.splits)
qed simp

section \<open>Properties\<close>

definition demo_hash_of :: "string \<Rightarrow> hash option" where
  "demo_hash_of s = (if s = [] then None else Some (Hash s))"

definition demo_sig_of :: "u8 list \<Rightarrow> signature option" where
  "demo_sig_of b = (if b = [65, 66] then Some (Signature ''AB'')
     else if b = [67, 68] then Some (Signature ''CD'') else None)"

definition demo_block :: "string \<Rightarrow> u64 \<Rightarrow> block" where
  "demo_block h s = \<lparr>block_time = Some 77, blockhash = h, block_slot = s,
     block_transactions = [[65, 66], [1], [67, 68]]\<rparr>"

definition demo_geyser :: geyser where
  "demo_geyser = \<lparr>geyser_cur_slot = 0, signature_cache = [],
     recent_blockhash_cache = Some [(Hash ''a'', 300), (Hash ''b'', 449), (Hash ''c'', 450)]\<rparr>"

text \<open>
  C31: A block that is not older than any cached blockhash leaves, in both build profiles, its own
  blockhash and exactly the cached ones at most 150 slots behind it: the cache spans 151 slots.
\<close>

theorem blockhash_window:
  assumes "hash_of (blockhash b) = Some h" and "recent_blockhash_cache g = Some m" and "dm_ok m"
    and "every_entry (dm_get m) (\<lambda>h' s. s \<le> block_slot b)"
  shows "\<exists>g' m'. handle_block p hash_of sig_of clock b g = Inr g' \<and>
    recent_blockhash_cache g' = Some m' \<and>
    (\<forall>h' s. dm_get m' h' = Some s \<longleftrightarrow>
       (if h' = h then s = block_slot b
        else dm_get m h' = Some s \<and> unat (block_slot b) \<le> unat s + 150))"
proof -
  let ?t = "block_slot b"
  define m1 where "m1 = dm_insert h ?t m"
  have ok: "dm_ok m1" using assms(3) by (simp add: m1_def dash_wf)
  have every: "every_entry (dm_get m1) (\<lambda>h' s. s \<le> ?t)"
    unfolding m1_def using assms(3,4) by (rule dm.every_insert) simp
  then have "\<forall>(h', s) \<in> set m1. s \<le> ?t" using ok by (simp add: every_entry_set)
  then have retain: "retain_recent p ?t m1 = Inr (dm_retain (\<lambda>_ s. ?t - s \<le> 150) m1)"
    by (cases p) (use retain_recent_Dev [of ?t m1] in \<open>simp_all add: retain_recent_Release\<close>)
  let ?m' = "dm_retain (\<lambda>_ s. ?t - s \<le> 150) m1"
  have "dm_get ?m' h' = Some s \<longleftrightarrow>
      (if h' = h then s = ?t else dm_get m h' = Some s \<and> unat ?t \<le> unat s + 150)" for h' s
  proof -
    have "dm_get ?m' h' = Some s \<longleftrightarrow> dm_get m1 h' = Some s \<and> ?t - s \<le> 150"
      using ok by (rule dm.retain_only)
    moreover have "s \<le> ?t" if "dm_get m1 h' = Some s" using every that by (rule every_entryD)
    ultimately show ?thesis
      using assms(3) by (auto simp: m1_def dash sub_le_iff split: if_splits)
  qed
  then show ?thesis
    using assms(1,2) retain by (simp add: handle_block_def m1_def Let_def)
qed

theorem blockhash_window_witness:
  "\<exists>g' m'. handle_block Dev demo_hash_of demo_sig_of (\<lambda>_. 5) (demo_block ''d'' 450) demo_geyser = Inr g' \<and>
     recent_blockhash_cache g' = Some m' \<and> dm_get m' (Hash ''a'') = Some 300 \<and>
     dm_get m' (Hash ''d'') = Some 450"
proof -
  let ?m = "[(Hash ''a'', 300), (Hash ''b'', 449), (Hash ''c'', 450)] :: (hash, u64) dashmap"
  have "demo_hash_of (blockhash (demo_block ''d'' 450)) = Some (Hash ''d'')"
    by (simp add: demo_hash_of_def demo_block_def)
  moreover have "recent_blockhash_cache demo_geyser = Some ?m" by (simp add: demo_geyser_def)
  moreover have "dm_ok ?m" by (simp add: dm_ok_def)
  moreover have "every_entry (dm_get ?m) (\<lambda>h' s. s \<le> block_slot (demo_block ''d'' 450))"
    by (simp add: every_entry_def dm_get_def demo_block_def)
  ultimately have "\<exists>g' m'. handle_block Dev demo_hash_of demo_sig_of (\<lambda>_. 5) (demo_block ''d'' 450) demo_geyser = Inr g' \<and>
    recent_blockhash_cache g' = Some m' \<and>
    (\<forall>h' s. dm_get m' h' = Some s \<longleftrightarrow>
       (if h' = Hash ''d'' then s = block_slot (demo_block ''d'' 450)
        else dm_get ?m h' = Some s \<and> unat (block_slot (demo_block ''d'' 450)) \<le> unat s + 150))"
    by (rule blockhash_window)
  then show ?thesis by (auto simp: demo_block_def dm_get_def)
qed

text \<open>
  C35: A block that arrives late throws newer blockhashes away. If a cached blockhash belongs to a
  later slot than the block, the unsigned difference of the retention test wraps: the release build
  drops the newer entry, and the checked build panics in the middle of the block.
\<close>

theorem late_block_evicts_newer:
  assumes "hash_of (blockhash b) = Some h" and "recent_blockhash_cache g = Some m" and "dm_ok m"
    and "dm_get m h' = Some s" and "h' \<noteq> h"
    and "unat (block_slot b) < unat s" and "unat s - unat (block_slot b) < 2 ^ 64 - 150"
  shows "handle_block Dev hash_of sig_of clock b g = Inl Arith_overflow \<and>
    (\<exists>g' m'. handle_block Release hash_of sig_of clock b g = Inr g' \<and>
       recent_blockhash_cache g' = Some m' \<and> dm_get m' h' = None)"
proof
  let ?t = "block_slot b"
  define m1 where "m1 = dm_insert h ?t m"
  have ok: "dm_ok m1" using assms(3) by (simp add: m1_def dash_wf)
  have get: "dm_get m1 h' = Some s" using assms(3-5) by (simp add: m1_def dash)
  then have "(h', s) \<in> set m1" using ok by (simp add: dm_get_in_set)
  moreover have "\<not> s \<le> ?t" using assms(6) by (simp add: word_le_nat_alt)
  ultimately have "\<not> (\<forall>(h, s) \<in> set m1. s \<le> ?t)" by blast
  then have "retain_recent Dev ?t m1 = Inl Arith_overflow" by (simp only: retain_recent_Dev if_False)
  then show "handle_block Dev hash_of sig_of clock b g = Inl Arith_overflow"
    using assms(1,2) by (simp add: handle_block_def m1_def Let_def)
  let ?m' = "dm_retain (\<lambda>_ s. ?t - s \<le> 150) m1"
  have "dm_get ?m' h' = None"
    using ok get sub_gt_wrap [OF assms(6,7)] by (simp add: dash)
  then show "\<exists>g' m'. handle_block Release hash_of sig_of clock b g = Inr g' \<and>
       recent_blockhash_cache g' = Some m' \<and> dm_get m' h' = None"
    using assms(1,2) by (simp add: handle_block_def m1_def Let_def retain_recent_Release)
qed

theorem late_block_evicts_newer_witness:
  "handle_block Dev demo_hash_of demo_sig_of (\<lambda>_. 5) (demo_block ''d'' 449) demo_geyser = Inl Arith_overflow \<and>
   (\<exists>g' m'. handle_block Release demo_hash_of demo_sig_of (\<lambda>_. 5) (demo_block ''d'' 449) demo_geyser = Inr g' \<and>
      recent_blockhash_cache g' = Some m' \<and> dm_get m' (Hash ''c'') = None)"
  by (rule late_block_evicts_newer [where h = "Hash ''d''" and s = 450 and
        m = "[(Hash ''a'', 300), (Hash ''b'', 449), (Hash ''c'', 450)]"])
    (simp_all add: demo_hash_of_def demo_block_def demo_geyser_def dm_ok_def dm_get_def)

text \<open>
  C22: A signature of a processed block stays confirmed for 90 seconds: whatever blocks follow and
  whenever the cache is cleaned before that time is over, a lookup finds it.
\<close>

theorem signature_stays_confirmed:
  assumes "handle_block p hash_of sig_of clock b g = Inr g1" and "dm_ok (signature_cache g)"
    and "hash_of (blockhash b) \<noteq> None" and "tx \<in> set (block_transactions b)" and "sig_of tx = Some sg"
    and "\<forall>i. T \<le> clock i" and "\<forall>ev \<in> set evs. event_within T ev"
    and "run_cache_events p hash_of sig_of evs g1 = Inr g2"
  shows "confirmed_time (signature_cache g2) (sig_text sg) \<noteq> None"
  using assms by (rule block_stays_confirmed)

theorem signature_stays_confirmed_witness:
  "\<exists>g1 g2. handle_block Release demo_hash_of demo_sig_of (\<lambda>_. 1000) (demo_block ''d'' 450) demo_geyser = Inr g1 \<and>
     run_cache_events Release demo_hash_of demo_sig_of
       [Clean_event (\<lambda>_. 90000), Block_event (\<lambda>_. 90500) (demo_block ''e'' 451), Clean_event (\<lambda>_. 90999)]
       g1 = Inr g2 \<and>
     confirmed_time (signature_cache g2) ''CD'' \<noteq> None"
proof -
  let ?evs = "[Clean_event (\<lambda>_. 90000), Block_event (\<lambda>_. 90500) (demo_block ''e'' 451), Clean_event (\<lambda>_. 90999)]"
  obtain g1 where g1: "handle_block Release demo_hash_of demo_sig_of (\<lambda>_. 1000) (demo_block ''d'' 450) demo_geyser = Inr g1"
    by (simp add: handle_block_def demo_hash_of_def demo_block_def demo_geyser_def Let_def
        retain_recent_Release)
  obtain rbc where "recent_blockhash_cache g1 = Some rbc"
    using g1 by (auto simp: handle_block_def demo_hash_of_def demo_block_def demo_geyser_def Let_def
        retain_recent_Release)
  then obtain g2 where g2: "run_cache_events Release demo_hash_of demo_sig_of ?evs g1 = Inr g2"
    by (simp add: handle_block_def clean_signature_cache_def demo_hash_of_def demo_block_def Let_def
        retain_recent_Release)
  have "confirmed_time (signature_cache g2) (sig_text (Signature ''CD'')) \<noteq> None"
    by (rule signature_stays_confirmed [OF g1 _ _ _ _ _ _ g2, where tx = "[67, 68]" and T = 1000])
      (simp_all add: demo_geyser_def demo_hash_of_def demo_block_def demo_sig_of_def)
  with g1 g2 show ?thesis by auto
qed

text \<open>
  C20: Waiting for a confirmation returns within its limit: the loop leaves in the first turn in which
  the signature is in the cache or the 60 seconds are over, answering the block time in the one case
  and nothing in the other. That is after at most 6000 sleeps, and, if no turn takes longer than \<open>d\<close>,
  at most \<open>d\<close> after the limit.
\<close>

theorem confirm_transaction_correct:
  assumes "sleeps_at_least 10 clock"
  shows "\<exists>n r. confirm_turn clock caches sg 0 = Some (n, r) \<and> confirm_transaction clock caches sg = Some r \<and>
    (\<forall>j < n. clock j < 60000 \<and> confirmed_time (caches j) sg = None) \<and>
    (clock n < 60000 \<and> r \<noteq> None \<and> confirmed_time (caches n) sg = r \<or> 60000 \<le> clock n \<and> r = None) \<and>
    n \<le> 6000 \<and> (\<forall>d. clock 0 = 0 \<longrightarrow> (\<forall>j. clock (Suc j) \<le> clock j + d) \<longrightarrow> clock n \<le> 60000 + d)"
proof -
  obtain n r where turn: "confirm_turn clock caches sg 0 = Some (n, r)"
    and look: "confirm_look (clock n) (caches n) sg = Some r"
    and before: "\<forall>j < n. confirm_look (clock j) (caches j) sg = None"
    using confirm_turn_returns [OF assms, of caches sg 0] by auto
  have early: "clock j < 60000 \<and> confirmed_time (caches j) sg = None" if "j < n" for j
    using before that by (auto simp: confirm_look_None CONFIRM_LIMIT_def)
  have "n \<le> 6000"
  proof (cases n)
    case (Suc m)
    then have "clock m < 60000" using early by simp
    with sleeps_at_least_linear [OF assms, of m] Suc show ?thesis by simp
  qed simp
  moreover have "clock n \<le> 60000 + d" if "clock 0 = 0" "\<forall>j. clock (Suc j) \<le> clock j + d" for d
  proof (cases n)
    case (Suc m)
    then have "clock m < 60000" using early by simp
    moreover have "clock n \<le> clock m + d" using that(2) Suc by simp
    ultimately show ?thesis by linarith
  qed (use that in simp)
  moreover have "clock n < 60000 \<and> r \<noteq> None \<and> confirmed_time (caches n) sg = r \<or> 60000 \<le> clock n \<and> r = None"
    using look by (auto simp: confirm_look_Some CONFIRM_LIMIT_def split: if_splits)
  moreover have "confirm_transaction clock caches sg = Some r" using turn by (simp add: confirm_transaction_def)
  ultimately show ?thesis using turn early by blast
qed

definition late_hit :: "nat \<Rightarrow> (string, i64 \<times> instant) dashmap" where
  "late_hit k = (if k = 2 then [(''s'', 9, 0)] else [])"

lemma late_hit_time: "confirmed_time (late_hit k) ''s'' = (if k = 2 then Some 9 else None)"
  by (simp add: late_hit_def confirmed_time_def dm_get_def)

theorem confirm_transaction_correct_witness:
  "confirm_turn (\<lambda>k. 10 * k) late_hit ''s'' 0 = Some (2, Some 9)"
proof -
  have ticks: "sleeps_at_least 10 (\<lambda>k. 10 * k)" by (simp add: sleeps_at_least_def)
  obtain n r where turn: "confirm_turn (\<lambda>k. 10 * k) late_hit ''s'' 0 = Some (n, r)"
    and before: "\<forall>j < n. 10 * j < 60000 \<and> confirmed_time (late_hit j) ''s'' = None"
    and look: "10 * n < 60000 \<and> r \<noteq> None \<and> confirmed_time (late_hit n) ''s'' = r \<or> 60000 \<le> 10 * n \<and> r = None"
    using confirm_transaction_correct [OF ticks, of late_hit "''s''"]
    by (elim exE conjE) (rule that; assumption)
  have "n \<le> 2"
  proof (rule ccontr)
    assume "\<not> n \<le> 2"
    with before have "confirmed_time (late_hit 2) ''s'' = None" by simp
    then show False by (simp add: late_hit_time)
  qed
  with look have "n = 2" "r = Some 9" by (auto simp: late_hit_time split: if_splits)
  with turn show ?thesis by simp
qed

text \<open>
  C21: A block with the signature, its blockhash parsing, that arrives between two turns of the waiting
  loop is found if the later turn comes within the 60 seconds, whatever else happens to the cache
  between the turns: an entry outlives the time to the next turn. If that turn comes too late, the
  block having arrived in the last sleep, the loop does not look again and the transaction counts as
  not landed.
\<close>

theorem block_during_wait_confirms:
  assumes "sleeps_at_least 10 clock"
    and "\<forall>k. run_cache_events p hash_of sig_of (evs k) (gs k) = Inr (gs (Suc k))" and "dm_ok (signature_cache (gs 0))"
    and "evs j = before @ Block_event bclock b # after"
    and "hash_of (blockhash b) \<noteq> None" and "tx \<in> set (block_transactions b)" and "sig_of tx = Some sg"
    and "\<forall>i. T \<le> bclock i" and "\<forall>ev \<in> set after. event_within T ev"
  shows "(clock (Suc j) < 60000 \<longrightarrow>
      (\<exists>bt. confirm_transaction clock (\<lambda>k. signature_cache (gs k)) (sig_text sg) = Some (Some bt))) \<and>
    (60000 \<le> clock (Suc j) \<longrightarrow> (\<forall>i \<le> j. confirmed_time (signature_cache (gs i)) (sig_text sg) = None) \<longrightarrow>
      confirm_transaction clock (\<lambda>k. signature_cache (gs k)) (sig_text sg) = Some None)"
proof (intro conjI impI)
  have ok: "dm_ok (signature_cache (gs k))" for k
  proof (induction k)
    case (Suc k)
    with assms(2) show ?case by (blast intro: run_cache_events_ok)
  qed (rule assms(3))
  have "run_cache_events p hash_of sig_of (before @ Block_event bclock b # after) (gs j) = Inr (gs (Suc j))"
    using assms(2,4) by metis
  then obtain g g1 where before: "run_cache_events p hash_of sig_of before (gs j) = Inr g"
    and h: "handle_block p hash_of sig_of bclock b g = Inr g1"
    and after: "run_cache_events p hash_of sig_of after g1 = Inr (gs (Suc j))"
    by (auto simp: run_cache_events_append and_then_eq_Inr)
  have "dm_ok (signature_cache g)" using before ok by (rule run_cache_events_ok)
  then have "confirmed_time (signature_cache (gs (Suc j))) (sig_text sg) \<noteq> None"
    using block_stays_confirmed [OF h _ assms(5-9) after] by blast
  then show "\<exists>bt. confirm_transaction clock (\<lambda>k. signature_cache (gs k)) (sig_text sg) = Some (Some bt)"
    if "clock (Suc j) < 60000"
    using that geyser_confirm.wait_finds [OF assms(1), of "Suc j" "\<lambda>k. signature_cache (gs k)" "sig_text sg"]
    by (simp add: CONFIRM_LIMIT_def)
  show "confirm_transaction clock (\<lambda>k. signature_cache (gs k)) (sig_text sg) = Some None"
    if late: "60000 \<le> clock (Suc j)"
      and unknown: "\<forall>i \<le> j. confirmed_time (signature_cache (gs i)) (sig_text sg) = None"
  proof (rule geyser_confirm.wait_misses [OF assms(1)])
    fix i
    assume "clock i < CONFIRM_LIMIT"
    with late have "clock i < clock (Suc j)" by (simp add: CONFIRM_LIMIT_def)
    with sleeps_at_least_mono [OF assms(1), of "Suc j" i] have "i \<le> j" by (meson leD not_less_eq_eq)
    with unknown show "confirmed_time (signature_cache (gs i)) (sig_text sg) = None" by simp
  qed
qed

theorem block_during_wait_confirms_witness:
  "\<exists>gs bt. gs 0 = demo_geyser \<and> confirm_transaction (\<lambda>k. 10 * k) (\<lambda>k. signature_cache (gs k)) ''CD'' = Some (Some bt)"
proof -
  let ?evs = "\<lambda>k :: nat. if k = 0 then [] @ Block_event (\<lambda>_. 1000) (demo_block ''d'' 450) # [Clean_event (\<lambda>_. 90000)] else []"
  obtain g1 where g1: "handle_block Release demo_hash_of demo_sig_of (\<lambda>_. 1000) (demo_block ''d'' 450) demo_geyser = Inr g1"
    by (simp add: handle_block_def demo_hash_of_def demo_block_def demo_geyser_def Let_def
        retain_recent_Release)
  let ?gs = "\<lambda>k :: nat. if k = 0 then demo_geyser else clean_signature_cache (\<lambda>_. 90000) g1"
  have "(10 * Suc 0 < 60000 \<longrightarrow> (\<exists>bt. confirm_transaction (\<lambda>k. 10 * k) (\<lambda>k. signature_cache (?gs k))
        (sig_text (Signature ''CD'')) = Some (Some bt))) \<and>
      (60000 \<le> 10 * Suc 0 \<longrightarrow> (\<forall>i \<le> 0. confirmed_time (signature_cache (?gs i)) (sig_text (Signature ''CD'')) = None) \<longrightarrow>
        confirm_transaction (\<lambda>k. 10 * k) (\<lambda>k. signature_cache (?gs k)) (sig_text (Signature ''CD'')) = Some None)"
  proof (rule block_during_wait_confirms [where evs = ?evs and j = 0 and T = 1000 and tx = "[67, 68]"])
    show "sleeps_at_least 10 (\<lambda>k. 10 * k)" by (simp add: sleeps_at_least_def)
    show "\<forall>k. run_cache_events Release demo_hash_of demo_sig_of (?evs k) (?gs k) = Inr (?gs (Suc k))"
      using g1 by simp
    show "?evs 0 = [] @ Block_event (\<lambda>_. 1000) (demo_block ''d'' 450) # [Clean_event (\<lambda>_. 90000)]" by simp
  qed (simp_all add: demo_geyser_def demo_hash_of_def demo_block_def demo_sig_of_def CONFIRM_LIMIT_def)
  then obtain bt where "confirm_transaction (\<lambda>k. 10 * k) (\<lambda>k. signature_cache (?gs k)) ''CD'' = Some (Some bt)"
    by auto
  then show ?thesis by (intro exI [of _ ?gs] exI [of _ bt]) simp
qed

section \<open>The fate of the two pollers\<close>

lemma read_blocks_Release:
  "\<exists>es g'. read_blocks Release hash_of sig_of g its = (es, Inr g')"
proof (induction its arbitrary: g)
  case (Cons it its)
  have block: "\<exists>g'. handle_block Release hash_of sig_of clock b g = Inr g'" for clock b
    by (auto simp: handle_block_def Let_def retain_recent_Release split: option.split)
  obtain u where u: "u = received it" by simp
  show ?case
  proof (cases "\<exists>b. received it = Inr (Some (Block b))")
    case True
    then obtain b where b: "received it = Inr (Some (Block b))" by blast
    obtain g1 where g1: "handle_block Release hash_of sig_of (item_clock it) b g = Inr g1"
      using block by blast
    obtain es g' where "read_blocks Release hash_of sig_of g1 its = (es, Inr g')"
      using Cons.IH by blast
    with b g1 show ?thesis by simp
  next
    case False
    obtain es g' where "read_blocks Release hash_of sig_of g its = (es, Inr g')"
      using Cons.IH by blast
    with False show ?thesis
      by (auto split: sum.splits option.splits update_oneof.splits)
  qed
qed simp

lemma connection_failure_last: "c \<noteq> Subscribed \<Longrightarrow> last (connection_failure c) = Nap 1000"
  by (cases c) auto

text \<open>
  C36: The two pollers fail differently. In the release build no turn of the block poller ends its
  task, whatever the connection and the stream do, and every turn ends with a sleep of one second.
  The slot poller's task dies when the connection is up but the subscription request cannot be sent,
  and exactly then.
\<close>

theorem only_slot_poller_dies:
  "(\<exists>es g'. poll_blocks_round Release hash_of sig_of conn g = (es, Inr g') \<and> last es = Nap 1000) \<and>
   ((\<exists>es e. poll_slots_round sconn g = (es, Inl e)) \<longleftrightarrow> (\<exists>items. sconn = (Subscribed, False, items)))"
proof
  obtain outcome items where conn: "conn = (outcome, items)" by (cases conn)
  obtain es g' where "read_blocks Release hash_of sig_of g items = (es, Inr g')"
    using read_blocks_Release by blast
  then show "\<exists>es g'. poll_blocks_round Release hash_of sig_of conn g = (es, Inr g') \<and> last es = Nap 1000"
    using conn connection_failure_last [of outcome] by (auto simp: poll_blocks_round_def)
  obtain outcome sends items where sconn: "sconn = (outcome, sends, items)" by (cases sconn)
  show "(\<exists>es e. poll_slots_round sconn g = (es, Inl e)) \<longleftrightarrow> (\<exists>items. sconn = (Subscribed, False, items))"
    unfolding sconn by (cases "read_slots g items") (auto simp: poll_slots_round_def)
qed

text \<open>Both caches stay maps under any number of turns of either stream.\<close>

lemma poll_blocks_caches:
  assumes "poll_blocks p hash_of sig_of conns g = (es, Inr g')" and "geyser_ok g"
  shows "geyser_ok g'"
proof -
  have "geyser_ok v" if "poll_blocks_round p hash_of sig_of c u = (es, Inr v)" "geyser_ok u" for c u es v
    using that
    by (auto simp: poll_blocks_round_def split: prod.splits if_splits sum.splits dest: read_blocks_caches)
  then show ?thesis using assms unfolding poll_blocks_def by (rule run_rounds_keeps)
qed

lemma poll_slots_caches:
  assumes "poll_slots sconns g = (es, Inr g')" and "geyser_ok g"
  shows "geyser_ok g'"
proof -
  have "geyser_ok v" if "poll_slots_round c u = (es, Inr v)" "geyser_ok u" for c u es v
    using that by (auto simp: poll_slots_round_def split: prod.splits if_splits dest: read_slots_caches)
  then show ?thesis using assms unfolding poll_slots_def by (rule run_rounds_keeps)
qed

text \<open>
  C19: A signature is forgotten: when no block with it has come since the time \<open>T\<close>, the first clean-up
  90 seconds or more after \<open>T\<close> takes it out of the cache, and whatever blocks without it and clean-ups
  come before and after, it stays unconfirmed.
\<close>

theorem signature_expires:
  assumes "handle_block p hash_of sig_of clock b g = Inr g1" and "dm_ok (signature_cache g)"
    and "\<forall>i. clock i \<le> T" and "\<forall>bt a. dm_get (signature_cache g) k = Some (bt, a) \<longrightarrow> a \<le> T"
    and "\<forall>ev \<in> set evs. \<not> brings sig_of k ev" and "Clean_event now \<in> set evs" and "T + 90000 \<le> now k"
    and "run_cache_events p hash_of sig_of evs g1 = Inr g2"
  shows "confirmed_time (signature_cache g2) k = None"
proof (rule ccontr)
  assume "confirmed_time (signature_cache g2) k \<noteq> None"
  then obtain bt a where found: "dm_get (signature_cache g2) k = Some (bt, a)"
    by (auto simp: confirmed_time_def)
  obtain xs ys where evs: "evs = xs @ Clean_event now # ys" using assms(6) by (meson split_list)
  with assms(8) obtain u where xs: "run_cache_events p hash_of sig_of xs g1 = Inr u"
    and ys: "run_cache_events p hash_of sig_of ys (clean_signature_cache now u) = Inr g2"
    by (auto simp: run_cache_events_append and_then_eq_Inr)
  have g1: "dm_ok (signature_cache g1)" using assms(1,2) by (rule handle_block_ok)
  with xs have u: "dm_ok (signature_cache u)" by (rule run_cache_events_ok)
  have "dm_get (signature_cache (clean_signature_cache now u)) k = Some (bt, a)"
    using assms(5) u found by (intro quiet_events [OF _ ys]) (simp_all add: evs clean_signature_cache_def dash_wf)
  then have kept: "dm_get (signature_cache u) k = Some (bt, a)" "(now k - a) div 1000 < 90"
    using u by (simp_all add: clean_signature_cache_def dm.retain_only)
  have "dm_get (signature_cache g1) k = Some (bt, a)"
    using assms(5) g1 kept(1) by (intro quiet_events [OF _ xs]) (simp_all add: evs)
  from handle_block_origin [OF assms(1,2) this] assms(3,4) have "a \<le> T" by auto
  with assms(7) have "90 \<le> (now k - a) div 1000" by (simp add: less_eq_div_iff_mult_less_eq)
  with kept(2) show False by simp
qed

theorem signature_expires_witness:
  "\<exists>g1 g2. handle_block Release demo_hash_of demo_sig_of (\<lambda>_. 1000) (demo_block ''d'' 450) demo_geyser = Inr g1 \<and>
     confirmed_time (signature_cache g1) ''CD'' = Some 77 \<and>
     run_cache_events Release demo_hash_of demo_sig_of [Clean_event (\<lambda>_. 90999), Clean_event (\<lambda>_. 91000)] g1 = Inr g2 \<and>
     confirmed_time (signature_cache g2) ''CD'' = None"
proof -
  let ?evs = "[Clean_event (\<lambda>_. 90999), Clean_event (\<lambda>_. 91000)]"
  obtain g1 where g1: "handle_block Release demo_hash_of demo_sig_of (\<lambda>_. 1000) (demo_block ''d'' 450) demo_geyser = Inr g1"
    by (simp add: handle_block_def demo_hash_of_def demo_block_def demo_geyser_def Let_def retain_recent_Release)
  then have "signature_cache g1 = [(''AB'', 77, 1000), (''CD'', 77, 1000)]"
    by (auto simp: handle_block_def demo_hash_of_def demo_sig_of_def demo_block_def demo_geyser_def Let_def
        retain_recent_Release dm_insert_def)
  then have cached: "confirmed_time (signature_cache g1) ''CD'' = Some 77" by (simp add: confirmed_time_def dm_get_def)
  obtain g2 where g2: "run_cache_events Release demo_hash_of demo_sig_of ?evs g1 = Inr g2" by simp
  have "confirmed_time (signature_cache g2) ''CD'' = None"
    by (rule signature_expires [OF g1 _ _ _ _ _ _ g2, where T = 1000 and now = "\<lambda>_. 91000"])
      (simp_all add: demo_geyser_def dm_get_def)
  with g1 cached g2 show ?thesis by blast
qed

end
