(* ===== verification/Main_Config.thy ===== *)
theory Main_Config
  imports System Grpc_Geyser
begin

text \<open>
  \<open>bin/main.rs\<close> and \<open>metrics.rs\<close>: the settings of the environment, their defaults, and the panics
  of the start-up. What the outside answers at start-up (whether the port binds, the key file reads,
  the RPC node replies, the runtime builds, the metrics sockets open) is the record \<open>start_env\<close>. The
  extraction of the settings from the process environment is the library's.
\<close>

record atlas_txn_sender_env =
  identity_keypair_file :: "string option"
  grpc_url :: "string option"
  rpc_url :: "string option"
  port :: "u16 option"
  tpu_connection_pool_size :: "usize option"
  x_token :: "string option"
  env_num_leaders :: "usize option"
  env_leader_offset :: "i64 option"
  env_txn_sender_threads :: "usize option"
  max_txn_send_retries :: "usize option"
  txn_send_retry_interval :: "usize option"
  env_max_retry_queue_size :: "usize option"

definition DEFAULT_TPU_CONNECTION_POOL_SIZE :: usize where
  "DEFAULT_TPU_CONNECTION_POOL_SIZE = 4"

section \<open>Metrics\<close>

text \<open>Where \<open>new_metrics_client\<close> sends: the two variables, and the port's \<open>unwrap\<close>.\<close>

definition metrics_host :: "string option \<Rightarrow> string option \<Rightarrow> panic + (string \<times> u16)" where
  "metrics_host METRICS_URI METRICS_PORT =
     and_then (unwrap (parse_u16 (unwrap_or ''7998'' METRICS_PORT))) (\<lambda>p.
       Inr (unwrap_or ''127.0.0.1'' METRICS_URI, p))"

record start_env =
  metrics_uri :: "string option"
  metrics_port :: "string option"
  udp_opens :: bool
  port_binds :: "u16 \<Rightarrow> bool"
  keypair_reads :: "string \<Rightarrow> bool"
  rpc_slot :: "string + u64"
  rpc_blockhash :: "string + hash"
  runtime_builds :: "usize \<Rightarrow> bool"

definition new_metrics_client :: "start_env \<Rightarrow> panic + (string \<times> u16)" where
  "new_metrics_client E =
     and_then (metrics_host (metrics_uri E) (metrics_port E)) (\<lambda>host.
       if udp_opens E then Inr host else Inl Unwrap_failed)"

section \<open>Start-up\<close>

text \<open>\<open>TxnSenderImpl::new\<close>: the runtime's \<open>unwrap\<close>, and the retry task started at the top of its loop.\<close>

definition new_txn_sender ::
  "(usize \<Rightarrow> bool) \<Rightarrow> txn_sender_config \<Rightarrow> panic + (txn_sender_config \<times> retry_phase)" where
  "new_txn_sender builds config =
     (if builds (txn_sender_threads config) then Inr (config, Sleeping) else Inl Unwrap_failed)"

text \<open>What \<open>main\<close> has built when it starts the server.\<close>

record service =
  service_port :: u16
  service_metrics :: "string \<times> u16"
  service_pool_size :: usize
  service_identity :: "string option"
  service_rpc_url :: string
  service_grpc_url :: string
  service_x_token :: "string option"
  service_geyser :: geyser
  service_tracker :: leader_tracker
  service_sender :: txn_sender_config
  service_retry_task :: retry_phase
  service_max_retries :: usize
  service_store :: tx_store

definition start_service :: "start_env \<Rightarrow> atlas_txn_sender_env \<Rightarrow> panic + service" where
  "start_service E env =
     and_then (new_metrics_client E) (\<lambda>metrics.
     let p = unwrap_or 4040 (port env) in
     and_then (if port_binds E p then Inr () else Inl Unwrap_failed) (\<lambda>_.
     and_then (case identity_keypair_file env of
         None \<Rightarrow> Inr ()
       | Some f \<Rightarrow> if keypair_reads E f then Inr () else Inl (Expect_failed ''keypair file must exist'')) (\<lambda>_.
     and_then (expect ''rpc_url is required'' (rpc_url env)) (\<lambda>rpc.
     and_then (unwrap (grpc_url env)) (\<lambda>grpc.
     and_then (new_with_rpc (rpc_slot E) (rpc_blockhash E) (Some [])) (\<lambda>g.
     let config = \<lparr>txn_sender_threads = unwrap_or 4 (env_txn_sender_threads env),
           txn_send_retry_interval_seconds = unwrap_or 2 (txn_send_retry_interval env),
           max_retry_queue_size = env_max_retry_queue_size env\<rparr> in
     and_then (new_txn_sender (runtime_builds E) config) (\<lambda>(sender, retry_task).
       Inr \<lparr>service_port = p, service_metrics = metrics,
         service_pool_size = unwrap_or DEFAULT_TPU_CONNECTION_POOL_SIZE (tpu_connection_pool_size env),
         service_identity = identity_keypair_file env, service_rpc_url = rpc, service_grpc_url = grpc,
         service_x_token = x_token env, service_geyser = g,
         service_tracker = new_tracker (unwrap_or 2 (env_num_leaders env)) (unwrap_or 0 (env_leader_offset env)),
         service_sender = sender, service_retry_task = retry_task, service_max_retries = unwrap_or 5 (max_txn_send_retries env),
         service_store = new_store\<rparr>)))))))"

lemma new_txn_sender_Inr:
  "new_txn_sender builds config = Inr (c, ph) \<longleftrightarrow> builds (txn_sender_threads config) \<and> c = config \<and> ph = Sleeping"
  by (auto simp: new_txn_sender_def)

section \<open>Properties\<close>

definition demo_start :: "string option \<Rightarrow> start_env" where
  "demo_start mp = \<lparr>metrics_uri = None, metrics_port = mp, udp_opens = True, port_binds = (\<lambda>_. True),
     keypair_reads = (\<lambda>f. f = ''id.json''), rpc_slot = Inr 10, rpc_blockhash = Inr (Hash ''bh''),
     runtime_builds = (\<lambda>n. 0 < n)\<rparr>"

definition demo_env :: "string option \<Rightarrow> atlas_txn_sender_env" where
  "demo_env rpc = \<lparr>identity_keypair_file = None, grpc_url = Some ''grpc'', rpc_url = rpc, port = None,
     tpu_connection_pool_size = None, x_token = None, env_num_leaders = None, env_leader_offset = None,
     env_txn_sender_threads = None, max_txn_send_retries = Some 9, txn_send_retry_interval = None,
     env_max_retry_queue_size = None\<rparr>"

lemma new_with_rpc_starts:
  "(\<exists>g. new_with_rpc sl bh (Some []) = Inr g) \<longleftrightarrow> (\<exists>s h. sl = Inr s \<and> bh = Inr h)"
  by (cases sl; cases bh) (simp_all add: new_with_rpc_def initialize_blockhash_cache_def)

text \<open>
  C40: The service starts exactly when both URLs are set, the outside is in order, the key file, if
  one is named, can be read, and the metrics port, if set, is a decimal number below 65536; the
  \<open>X_TOKEN\<close> and every other setting may be missing.
\<close>

theorem service_starts_iff:
  "(\<exists>srv. start_service E env = Inr srv) \<longleftrightarrow>
     rpc_url env \<noteq> None \<and> grpc_url env \<noteq> None \<and>
     parse_u16 (unwrap_or ''7998'' (metrics_port E)) \<noteq> None \<and> udp_opens E \<and>
     port_binds E (unwrap_or 4040 (port env)) \<and>
     (\<forall>f. identity_keypair_file env = Some f \<longrightarrow> keypair_reads E f) \<and>
     (\<exists>s h. rpc_slot E = Inr s \<and> rpc_blockhash E = Inr h) \<and>
     runtime_builds E (unwrap_or 4 (env_txn_sender_threads env))"
proof -
  have first: "(\<exists>m. new_metrics_client E = Inr m) \<longleftrightarrow>
      parse_u16 (unwrap_or ''7998'' (metrics_port E)) \<noteq> None \<and> udp_opens E"
    by (cases "parse_u16 (unwrap_or ''7998'' (metrics_port E))")
      (simp_all add: new_metrics_client_def metrics_host_def)
  have opt: "(\<exists>a. unwrap x = Inr a) \<longleftrightarrow> x \<noteq> None" "(\<exists>a. expect msg x = Inr a) \<longleftrightarrow> x \<noteq> None"
    for x :: "string option" and msg
    by (cases x; simp)+
  show ?thesis
    using first opt new_with_rpc_starts [of "rpc_slot E" "rpc_blockhash E"]
    by (cases "identity_keypair_file env")
      (fastforce simp: start_service_def and_then_eq_Inr Let_def new_txn_sender_Inr)+
qed

theorem service_starts_iff_witness:
  "\<not> (\<exists>srv. start_service (demo_start None) (demo_env None) = Inr srv) \<and>
   (\<exists>srv. start_service (demo_start None) (demo_env (Some ''rpc'')) = Inr srv)"
proof -
  have "parse_u16 ''7998'' = Some 7998" by (simp add: parse_u16_def digit_value_def)
  then show ?thesis
    using service_starts_iff [of "demo_start None" "demo_env None"]
      service_starts_iff [of "demo_start None" "demo_env (Some ''rpc'')"]
    by (simp add: demo_start_def demo_env_def)
qed

text \<open>
  A started service has the settings of its environment or the defaults: port 4040, four
  connections, two leaders at offset 0, four threads, a retry every two seconds, five retries, no
  queue bound, and begins with an empty queue, an empty leader schedule and the latest blockhash of
  the RPC node as its only recent one.
\<close>

theorem service_settings:
  assumes "start_service E env = Inr srv" and "rpc_slot E = Inr s" and "rpc_blockhash E = Inr h"
  shows "service_port srv = unwrap_or 4040 (port env) \<and>
    service_pool_size srv = unwrap_or 4 (tpu_connection_pool_size env) \<and>
    num_leaders (service_tracker srv) = unwrap_or 2 (env_num_leaders env) \<and>
    leader_offset (service_tracker srv) = unwrap_or 0 (env_leader_offset env) \<and>
    service_sender srv = \<lparr>txn_sender_threads = unwrap_or 4 (env_txn_sender_threads env),
      txn_send_retry_interval_seconds = unwrap_or 2 (txn_send_retry_interval env),
      max_retry_queue_size = env_max_retry_queue_size env\<rparr> \<and> service_retry_task srv = Sleeping \<and>
    service_max_retries srv = unwrap_or 5 (max_txn_send_retries env) \<and>
    store_ok (service_store srv) \<and> (\<forall>sg. \<not> has_signature (service_store srv) sg) \<and>
    (\<forall>ls. get_leaders p (service_tracker srv) = Inr ls \<longrightarrow> ls = []) \<and>
    recent_blockhash_cache (service_geyser srv) = Some [(h, s)] \<and> get_next_slot (service_geyser srv) = None"
proof -
  have tracker: "\<forall>ls. get_leaders p (new_tracker n off) = Inr ls \<longrightarrow> ls = []" for n off
    using get_leaders_shape(3) [of p "new_tracker n off"] by (force simp: new_tracker_def)
  have fields: "num_leaders (new_tracker n off) = n" "leader_offset (new_tracker n off) = off" for n off
    by (simp_all add: new_tracker_def)
  have store: "store_ok new_store" "\<forall>sg. \<not> has_signature new_store sg"
    by (simp_all add: store_ok_new has_signature_def dm_contains_key_def) (simp add: new_store_def)
  have g: "new_with_rpc (Inr s) (Inr h) (Some []) = Inr (new_geyser (Some [(h, s)]))"
    by (simp add: new_with_rpc_def initialize_blockhash_cache_def dm_insert_def)
  have geyser: "recent_blockhash_cache (new_geyser c) = c" "get_next_slot (new_geyser c) = None" for c
    by (simp_all add: new_geyser_def get_next_slot_def)
  show ?thesis
    using assms tracker store
    by (auto simp: start_service_def and_then_eq_Inr Let_def new_txn_sender_Inr g geyser fields
        DEFAULT_TPU_CONNECTION_POOL_SIZE_def)
qed

theorem service_settings_witness:
  "\<exists>srv. start_service (demo_start None) (demo_env (Some ''rpc'')) = Inr srv \<and> service_port srv = 4040 \<and>
     service_max_retries srv = 9 \<and> store_ok (service_store srv) \<and>
     recent_blockhash_cache (service_geyser srv) = Some [(Hash ''bh'', 10)]"
proof -
  have "parse_u16 ''7998'' = Some 7998" by (simp add: parse_u16_def digit_value_def)
  then obtain srv where run: "start_service (demo_start None) (demo_env (Some ''rpc'')) = Inr srv"
    by (simp add: start_service_def demo_start_def demo_env_def new_metrics_client_def metrics_host_def
        new_with_rpc_def initialize_blockhash_cache_def Let_def new_txn_sender_def)
  have "rpc_slot (demo_start None) = Inr 10" "rpc_blockhash (demo_start None) = Inr (Hash ''bh'')"
    by (simp_all add: demo_start_def)
  from service_settings [OF run this, of Dev] run show ?thesis by (simp add: demo_env_def)
qed

text \<open>
  Every port below 65536, written in decimal, is accepted for the metrics; 65536 and the empty
  text end the process at its start; without the variable the port is 7998.
\<close>

theorem metrics_port_accepted:
  assumes "n < 2 ^ 16"
  shows "metrics_host uri (Some (show_nat n)) = Inr (unwrap_or ''127.0.0.1'' uri, of_nat n) \<and>
    metrics_host uri (Some ''65536'') = Inl Unwrap_failed \<and> metrics_host uri (Some []) = Inl Unwrap_failed \<and>
    metrics_host uri None = Inr (unwrap_or ''127.0.0.1'' uri, 7998)"
proof -
  have "parse_u16 ''65536'' = None" "parse_u16 [] = None" "parse_u16 ''7998'' = Some 7998"
    by (simp_all add: parse_u16_def digit_value_def)
  with parse_u16_show_nat [OF assms] show ?thesis by (simp add: metrics_host_def)
qed

theorem metrics_port_accepted_witness:
  "metrics_host None (Some (show_nat 8125)) = Inr (''127.0.0.1'', 8125)"
  using metrics_port_accepted [of 8125 None] by simp

end
