(* ===== verification/Service_Run.thy ===== *)
theory Service_Run
  imports System_Ledger Main_Config
begin

text \<open>
  The running service: what \<open>main\<close> has started, together. The tasks of \<open>System\<close>, the two streams of
  \<open>Grpc_Geyser\<close> and the two pollers of \<open>Leader_Tracker\<close> take their steps in any order; the retry task
  and the handlers are answered by \<open>get_leaders\<close> on the tracker as it is, a confirmation task by the
  signature cache as it is, and a member of a bundle is checked against the blockhash cache as it is.
\<close>

record outside =
  out_profile :: profile
  out_server :: server_lib
  out_codec :: "versioned_transaction codec"
  out_budget :: budget_lib
  out_hash_of :: "string \<Rightarrow> hash option"
  out_sig_of :: "u8 list \<Rightarrow> signature option"

text \<open>The settings the tasks of a started service run with; the leaders are answered step by step.\<close>

definition service_tasks :: "outside \<Rightarrow> service \<Rightarrow> system_config" where
  "service_tasks out srv = \<lparr>sys_profile = out_profile out, sys_server = out_server out, sys_codec = out_codec out,
     sys_budget = out_budget out, sys_max_retries = service_max_retries srv,
     sys_queue_bound = max_retry_queue_size (service_sender srv), sys_leaders = {}\<rparr>"

text \<open>
  The last three fields are a record of the past: the blocks received, the cluster nodes fetched and
  the transactions the bundle path has submitted.
\<close>

record running =
  run_world :: world
  run_geyser :: geyser
  run_tracker :: tracker_tasks
  seen_blocks :: "block list"
  seen_nodes :: "contact_info list"
  bundled :: "versioned_transaction list"

definition started :: "service \<Rightarrow> running" where
  "started srv = \<lparr>run_world = initial_world\<lparr>queue := service_store srv, phase := service_retry_task srv\<rparr>, run_geyser = service_geyser srv,
     run_tracker = \<lparr>tracker = service_tracker srv, poller = Poll_sleeping\<rparr>,
     seen_blocks = [], seen_nodes = [], bundled = []\<rparr>"

text \<open>
  A confirmation task may only end with the answer that the waiting loop of \<open>confirm_transaction\<close> gives
  in a turn that finds the cache as it is.
\<close>

definition cache_answers :: "(string, i64 \<times> instant) dashmap \<Rightarrow> world \<Rightarrow> world \<Rightarrow> bool" where
  "cache_answers cache w w' \<longleftrightarrow> answers w' = answers w \<or>
     (\<exists>sg a elapsed. answers w' = (sg, a) # answers w \<and> confirm_look elapsed cache sg = Some a)"

definition submitted :: "bundle_effects \<Rightarrow> versioned_transaction list" where
  "submitted eff = List.map_filter (\<lambda>call. case call of Send_transaction tx opts \<Rightarrow> Some tx | _ \<Rightarrow> None) (bundle_calls eff)"

inductive service_step :: "outside \<Rightarrow> service \<Rightarrow> running \<Rightarrow> running \<Rightarrow> bool" for out srv where
  work: "system_step ((service_tasks out srv)\<lparr>sys_leaders := {get_leaders (out_profile out) (tracker (run_tracker r))}\<rparr>)
      (run_world r) w \<Longrightarrow>
    cache_answers (signature_cache (run_geyser r)) (run_world r) w \<Longrightarrow>
    service_step out srv r (r\<lparr>run_world := w\<rparr>)"
| block: "handle_block (out_profile out) (out_hash_of out) (out_sig_of out) clock b (run_geyser r) = Inr g \<Longrightarrow>
    service_step out srv r (r\<lparr>run_geyser := g, seen_blocks := b # seen_blocks r\<rparr>)"
| clean: "service_step out srv r (r\<lparr>run_geyser := clean_signature_cache now (run_geyser r)\<rparr>)"
| new_slot: "service_step out srv r (r\<lparr>run_geyser := (run_geyser r)\<lparr>geyser_cur_slot := s\<rparr>\<rparr>)"
| poll_slot: "poll_slot_once (out_profile out) (get_next_slot (run_geyser r)) (tracker (run_tracker r)) = Inr t \<Longrightarrow>
    service_step out srv r (r\<lparr>run_tracker := (run_tracker r)\<lparr>tracker := t\<rparr>\<rparr>)"
| fetch: "poller (run_tracker r) = Poll_sleeping \<Longrightarrow>
    service_step out srv r (r\<lparr>run_tracker := (run_tracker r)\<lparr>poller :=
      Inserting (cur_slot (tracker (run_tracker r))) 0 leaders (cluster_node_map nodes)\<rparr>,
      seen_nodes := nodes @ seen_nodes r\<rparr>)"
| poll_leaders: "poller (run_tracker r) \<noteq> Poll_sleeping \<Longrightarrow> tracker_step (out_profile out) (run_tracker r) c \<Longrightarrow>
    cur_slot (tracker c) = cur_slot (tracker (run_tracker r)) \<Longrightarrow>
    service_step out srv r (r\<lparr>run_tracker := c\<rparr>)"
| bundle_member: "recent_blockhash_cache (run_geyser r) = Some cache \<Longrightarrow>
    send_transaction_bundle (out_codec out) (\<lambda>_. cache) node [t] enc key = Some (eff, res) \<Longrightarrow>
    service_step out srv r (r\<lparr>bundled := submitted eff @ bundled r\<rparr>)"

inductive_cases service_stepE: "service_step out srv r r'"

definition service_reaches :: "outside \<Rightarrow> start_env \<Rightarrow> atlas_txn_sender_env \<Rightarrow> service \<Rightarrow> running \<Rightarrow> bool" where
  "service_reaches out E env srv r \<longleftrightarrow> start_service E env = Inr srv \<and> (service_step out srv)\<^sup>*\<^sup>* (started srv) r"

section \<open>Facts about steps of the tasks\<close>

text \<open>More answers of \<open>get_leaders\<close> allow more steps.\<close>

lemma system_step_mono:
  assumes "system_step (cfg\<lparr>sys_leaders := A\<rparr>) w w'" and "A \<subseteq> B"
  shows "system_step (cfg\<lparr>sys_leaders := B\<rparr>) w w'"
  using assms(1)
proof cases
  case (request params enc now m txn t sg)
  then show ?thesis using system_step.request [of "cfg\<lparr>sys_leaders := B\<rparr>"] by simp
next
  case (first_sends t ls)
  with assms(2) show ?thesis using system_step.first_sends [of t w ls "cfg\<lparr>sys_leaders := B\<rparr>"] by auto
next
  case (first_sends_panic t e)
  with assms(2) show ?thesis using system_step.first_sends_panic [of t w e "cfg\<lparr>sys_leaders := B\<rparr>"] by auto
next
  case (send_wire wire wires reached ls)
  with assms(2) show ?thesis using system_step.send_wire [of w wire wires reached ls "cfg\<lparr>sys_leaders := B\<rparr>"] by auto
next
  case (send_panic wire wires reached e)
  with assms(2) show ?thesis using system_step.send_panic [of w wire wires reached e "cfg\<lparr>sys_leaders := B\<rparr>"] by auto
qed (simp_all add: system_step.intros)

text \<open>A new send task goes to a leader of an answer.\<close>

lemma new_sends:
  assumes "system_step cfg w w'" and "task \<in> set (sends w')" and "task \<notin> set (sends w)"
  shows "\<exists>ls. Inr ls \<in> sys_leaders cfg \<and> task_leader task \<in> set ls"
proof -
  have spawned: "task_leader task \<in> set ls" if "task \<in> set (spawn_sends wire key retry n ls)" for wire key retry n ls
  proof -
    have "task_leader task \<in> set (map task_leader (spawn_sends wire key retry n ls))" using that by simp
    then show ?thesis unfolding spawn_sends_leaders by simp
  qed
  from assms show ?thesis by cases (auto dest: spawned)
qed

text \<open>A confirmation task waits for the signature of an accepted request.\<close>

definition awaited :: "world \<Rightarrow> bool" where
  "awaited w \<longleftrightarrow>
     (\<forall>task \<in> set (confirmers w). \<exists>t \<in> set (accepted w). get_signature t = Some (confirm_signature task)) \<and>
     (\<forall>(sg, a) \<in> set (answers w). \<exists>t \<in> set (accepted w). get_signature t = Some sg)"

lemma awaited_step:
  assumes "system_step cfg w w'" and "traced cfg w" and "awaited w"
  shows "awaited w'"
  using assms(1)
proof cases
  case (spawn t sg d)
  with handled_accepted [OF assms(2) spawn(2)] assms(3) show ?thesis
    by (auto simp: awaited_def confirm_task_for_def)
next
  case (confirm task confirmed_at now ms q)
  with assms(3) show ?thesis
    using set_remove1_subset [of task "confirmers w"] by (auto simp: awaited_def)
qed (use assms(3) in \<open>auto simp: awaited_def\<close>)

section \<open>The tasks of the service\<close>

text \<open>What \<open>get_leaders\<close> can ever answer: at most \<open>num_leaders\<close> leaders, and no panic in the release build.\<close>

definition possible_leaders :: "profile \<Rightarrow> usize \<Rightarrow> (panic + contact_info list) set" where
  "possible_leaders p n = {a. (\<forall>ls. a = Inr ls \<longrightarrow> length ls \<le> unat n) \<and> (\<forall>e. a = Inl e \<longrightarrow> p = Dev)}"

definition whole_system :: "outside \<Rightarrow> service \<Rightarrow> system_config" where
  "whole_system out srv = (service_tasks out srv)\<lparr>sys_leaders :=
     possible_leaders (out_profile out) (num_leaders (service_tracker srv))\<rparr>"

lemma get_leaders_possible: "get_leaders p t \<in> possible_leaders p (num_leaders t)"
proof -
  have "p = Dev" if "get_leaders p t = Inl e" for e
    using that by (cases p) (auto simp: get_leaders_def and_then_eq_Inl mul_w_def add_w_def)
  then show ?thesis using lt.leaders_bound [of p t] by (auto simp: possible_leaders_def)
qed

lemma started_service:
  assumes "start_service E env = Inr srv"
  obtains h where "rpc_blockhash E = Inr h" and "service_store srv = new_store"
    and "service_retry_task srv = Sleeping"
    and "geyser_ok (service_geyser srv)" and "signature_cache (service_geyser srv) = []"
    and "\<And>m k s. recent_blockhash_cache (service_geyser srv) = Some m \<Longrightarrow> dm_get m k = Some s \<Longrightarrow> k = h"
    and "cur_leaders (service_tracker srv) = []"
    and "num_leaders (service_tracker srv) = unwrap_or 2 (env_num_leaders env)"
    and "service_max_retries srv = unwrap_or 5 (max_txn_send_retries env)"
    and "max_retry_queue_size (service_sender srv) = env_max_retry_queue_size env"
proof -
  obtain g where g: "new_with_rpc (rpc_slot E) (rpc_blockhash E) (Some []) = Inr g" "service_geyser srv = g"
    and rest: "service_store srv = new_store" "service_retry_task srv = Sleeping" "cur_leaders (service_tracker srv) = []"
      "num_leaders (service_tracker srv) = unwrap_or 2 (env_num_leaders env)"
      "service_max_retries srv = unwrap_or 5 (max_txn_send_retries env)"
      "max_retry_queue_size (service_sender srv) = env_max_retry_queue_size env"
    using assms by (auto simp: start_service_def and_then_eq_Inr Let_def new_tracker_def new_txn_sender_Inr)
  obtain sl h where "rpc_slot E = Inr sl" and h: "rpc_blockhash E = Inr h" and "g = new_geyser (Some [(h, sl)])"
    using g(1) by (auto simp: new_with_rpc_def initialize_blockhash_cache_def and_then_eq_Inr dm_insert_def
        split: sum.splits)
  then show thesis
    using g(2) rest by (intro that [OF h]) (auto simp: new_geyser_def geyser_ok_def dm_ok_def dm_get_def split: if_splits)
qed

definition tasks_ok :: "outside \<Rightarrow> service \<Rightarrow> running \<Rightarrow> bool" where
  "tasks_ok out srv r \<longleftrightarrow> reachable (whole_system out srv) (run_world r) \<and> awaited (run_world r) \<and>
     num_leaders (tracker (run_tracker r)) = num_leaders (service_tracker srv)"

lemma tracker_step_num:
  assumes "tracker_step p c c'"
  shows "num_leaders (tracker c') = num_leaders (tracker c)"
  using assms
proof cases
  case (slot s t)
  with arg_cong [OF poll_slot_once_frame(2) [OF slot(2)], of num_leaders] show ?thesis by simp
qed simp_all

lemma tasks_ok_step:
  assumes "service_step out srv r r'" and ok: "tasks_ok out srv r"
  shows "tasks_ok out srv r'"
  using assms(1)
proof cases
  case (work w)
  let ?cfg = "whole_system out srv"
  have "system_step ?cfg (run_world r) w"
    unfolding whole_system_def
    using ok get_leaders_possible [of "out_profile out" "tracker (run_tracker r)"]
    by (intro system_step_mono [OF work(2)]) (simp add: tasks_ok_def)
  moreover have "traced ?cfg (run_world r)" using ok by (simp add: tasks_ok_def reachable_traced)
  ultimately show ?thesis
    using ok work(1) awaited_step [of ?cfg "run_world r" w] reachable_run [of ?cfg "run_world r" w]
    by (auto simp: tasks_ok_def)
next
  case (poll_slot t)
  with ok arg_cong [OF poll_slot_once_frame(2) [OF poll_slot(2)], of num_leaders] show ?thesis
    by (simp add: tasks_ok_def)
next
  case (poll_leaders c)
  with ok tracker_step_num [OF poll_leaders(3)] show ?thesis by (simp add: tasks_ok_def)
qed (use ok in \<open>simp_all add: tasks_ok_def\<close>)

lemma service_tasks_ok:
  assumes "service_reaches out E env srv r"
  shows "tasks_ok out srv r"
proof -
  have "service_store srv = new_store" "service_retry_task srv = Sleeping"
    using assms by (auto simp: service_reaches_def elim: started_service)
  then have "run_world (started srv) = initial_world" by (simp add: started_def initial_world_def)
  then have "tasks_ok out srv (started srv)"
    by (simp add: tasks_ok_def reachable_def awaited_def started_def initial_world_def)
  moreover have "(service_step out srv)\<^sup>*\<^sup>* (started srv) r" using assms by (simp add: service_reaches_def)
  ultimately show ?thesis
    by (rotate_tac) (induction rule: rtranclp_induct, auto intro: tasks_ok_step)
qed

section \<open>Where packets go\<close>

definition nodes_ok :: "running \<Rightarrow> bool" where
  "nodes_ok r \<longleftrightarrow> dm_ok (cur_leaders (tracker (run_tracker r))) \<and>
     every_entry (dm_get (cur_leaders (tracker (run_tracker r)))) (\<lambda>s l. l \<in> set (seen_nodes r)) \<and>
     (\<forall>next_slot i ls nodes. poller (run_tracker r) = Inserting next_slot i ls nodes \<longrightarrow>
        ran nodes \<subseteq> set (seen_nodes r)) \<and>
     (\<forall>task \<in> set (sends (run_world r)). task_leader task \<in> set (seen_nodes r))"

lemma cluster_node_map_ran: "ran (cluster_node_map nodes) \<subseteq> set nodes"
proof -
  have "ran (fold (\<lambda>n m. m(contact_pubkey n \<mapsto> n)) nodes m) \<subseteq> set nodes \<union> ran m" for m
  proof (induction nodes arbitrary: m)
    case (Cons n nodes)
    have "ran (m(contact_pubkey n \<mapsto> n)) \<subseteq> insert n (ran m)" by (auto simp: ran_def)
    with Cons.IH [of "m(contact_pubkey n \<mapsto> n)"] show ?case by (simp del: fun_upd_apply) blast
  qed simp
  from this [of "\<lambda>_. None"] show ?thesis by (simp add: cluster_node_map_def)
qed

lemma poll_slot_once_leaders: "poll_slot_once p s t = Inr t' \<Longrightarrow> cur_leaders t' = cur_leaders t"
  using arg_cong [OF poll_slot_once_frame(2) [of p s t t'], of cur_leaders] by simp

lemma nodes_ok_tracker:
  assumes "tracker_step p (run_tracker r) c" and "nodes_ok r" and "poller (run_tracker r) \<noteq> Poll_sleeping"
  shows "nodes_ok (r\<lparr>run_tracker := c\<rparr>)"
  using assms(1)
proof cases
  case (insert_known next_slot i l ls nodes ci s)
  have "ci \<in> set (seen_nodes r)" using assms(2) insert_known(2,3) by (auto simp: nodes_ok_def ran_def)
  with assms(2) insert_known(2) show ?thesis
    unfolding insert_known(1) by (auto simp: nodes_ok_def dash dash_wf every_entry_def)
next
  case (remove s ss)
  with assms(2) show ?thesis by (auto simp: nodes_ok_def dash dash_wf every_entry_def split: if_splits)
qed (use assms(2,3) in \<open>auto simp: nodes_ok_def dest: poll_slot_once_leaders\<close>)

lemma nodes_ok_step:
  assumes "service_step out srv r r'" and ok: "nodes_ok r"
  shows "nodes_ok r'"
  using assms(1)
proof cases
  case (work w)
  have "task_leader task \<in> set (seen_nodes r)" if "task \<in> set (sends w)" for task
  proof (cases "task \<in> set (sends (run_world r))")
    case False
    with new_sends [OF work(2) that] obtain ls where
      "Inr ls = get_leaders (out_profile out) (tracker (run_tracker r))" "task_leader task \<in> set ls"
      by auto
    then obtain s where "dm_get (cur_leaders (tracker (run_tracker r))) s = Some (task_leader task)"
      using get_leaders_shape(3) [of "out_profile out" "tracker (run_tracker r)" ls] by auto
    with ok show ?thesis by (auto simp: nodes_ok_def every_entry_def)
  qed (use ok in \<open>simp add: nodes_ok_def\<close>)
  with ok work(1) show ?thesis by (simp add: nodes_ok_def)
next
  case (fetch nodes leaders)
  with ok cluster_node_map_ran [of nodes] show ?thesis by (auto simp: nodes_ok_def every_entry_def)
next
  case (poll_slot t)
  with ok poll_slot_once_leaders [OF poll_slot(2)] show ?thesis by (simp add: nodes_ok_def)
next
  case (poll_leaders c)
  with nodes_ok_tracker [OF poll_leaders(3) ok] show ?thesis by simp
qed (use ok in \<open>simp_all add: nodes_ok_def\<close>)

lemma service_nodes_ok:
  assumes "service_reaches out E env srv r"
  shows "nodes_ok r"
proof -
  have "cur_leaders (service_tracker srv) = []"
    using assms by (auto simp: service_reaches_def elim: started_service)
  then have "nodes_ok (started srv)"
    by (simp add: nodes_ok_def started_def initial_world_def every_entry_def)
  moreover have "(service_step out srv)\<^sup>*\<^sup>* (started srv) r" using assms by (simp add: service_reaches_def)
  ultimately show ?thesis
    by (rotate_tac) (induction rule: rtranclp_induct, auto intro: nodes_ok_step)
qed

section \<open>What the caches say\<close>

definition in_block :: "outside \<Rightarrow> block list \<Rightarrow> string \<Rightarrow> i64 \<Rightarrow> bool" where
  "in_block out bs sg bt \<longleftrightarrow> (\<exists>b \<in> set bs. out_hash_of out (blockhash b) \<noteq> None \<and> bt = unwrap_or 0 (block_time b) \<and>
     (\<exists>tx \<in> set (block_transactions b). \<exists>s. out_sig_of out tx = Some s \<and> sg = sig_text s))"

definition announced :: "outside \<Rightarrow> start_env \<Rightarrow> block list \<Rightarrow> hash \<Rightarrow> bool" where
  "announced out E bs h \<longleftrightarrow> rpc_blockhash E = Inr h \<or> (\<exists>b \<in> set bs. out_hash_of out (blockhash b) = Some h)"

definition caches_ok :: "outside \<Rightarrow> start_env \<Rightarrow> running \<Rightarrow> bool" where
  "caches_ok out E r \<longleftrightarrow> geyser_ok (run_geyser r) \<and>
     (\<forall>sg bt a. dm_get (signature_cache (run_geyser r)) sg = Some (bt, a) \<longrightarrow> in_block out (seen_blocks r) sg bt) \<and>
     (\<forall>m h s. recent_blockhash_cache (run_geyser r) = Some m \<longrightarrow> dm_get m h = Some s \<longrightarrow> announced out E (seen_blocks r) h) \<and>
     (\<forall>sg bt. (sg, Some bt) \<in> set (answers (run_world r)) \<longrightarrow> in_block out (seen_blocks r) sg bt) \<and>
     (\<forall>tx \<in> set (bundled r). announced out E (seen_blocks r) (recent_blockhash tx))"

lemma more_blocks:
  "in_block out bs sg bt \<Longrightarrow> in_block out (b # bs) sg bt"
  "announced out E bs h \<Longrightarrow> announced out E (b # bs) h"
  by (auto simp: in_block_def announced_def)

lemma caches_ok_block:
  assumes "handle_block (out_profile out) (out_hash_of out) (out_sig_of out) clock b (run_geyser r) = Inr g"
    and ok: "caches_ok out E r"
  shows "caches_ok out E (r\<lparr>run_geyser := g, seen_blocks := b # seen_blocks r\<rparr>)"
proof -
  have g: "geyser_ok (run_geyser r)" using ok by (simp add: caches_ok_def)
  note caches = handle_block_caches [OF assms(1) g]
  have "in_block out (b # seen_blocks r) sg bt" if "dm_get (signature_cache g) sg = Some (bt, a)" for sg bt a
    using caches(2) [OF that] ok by (auto simp: caches_ok_def in_block_def)
  moreover have "announced out E (b # seen_blocks r) h"
    if "recent_blockhash_cache g = Some m" "dm_get m h = Some s" for m h s
  proof -
    from caches(3) [OF that] consider (old) m0 where "recent_blockhash_cache (run_geyser r) = Some m0" "dm_get m0 h = Some s"
      | (new) "out_hash_of out (blockhash b) = Some h" by blast
    then show ?thesis
    proof cases
      case old
      with ok have "announced out E (seen_blocks r) h" unfolding caches_ok_def by blast
      then show ?thesis by (rule more_blocks)
    next
      case new
      then show ?thesis by (simp add: announced_def)
    qed
  qed
  ultimately show ?thesis
    using caches(1) ok by (auto simp: caches_ok_def intro: more_blocks)
qed

lemma submitted_announced:
  assumes "caches_ok out E r" and "recent_blockhash_cache (run_geyser r) = Some cache"
    and "send_transaction_bundle c (\<lambda>_. cache) node ts enc key = Some (eff, res)" and "tx \<in> set (submitted eff)"
  shows "announced out E (seen_blocks r) (recent_blockhash tx)"
proof -
  obtain opts where "Send_transaction tx opts \<in> set (bundle_calls eff)"
    using assms(4) by (auto simp: submitted_def map_filter_def split: rpc_call.splits)
  from bundle_loop_calls [OF assms(3) [unfolded send_transaction_bundle_def] this]
  have "dm_contains_key cache (recent_blockhash tx)" by (auto simp: member_checked_def)
  with assms(1,2) show ?thesis by (auto simp: caches_ok_def dm_contains_key_def)
qed

lemma caches_ok_step:
  assumes "service_step out srv r r'" and ok: "caches_ok out E r"
  shows "caches_ok out E r'"
  using assms(1)
proof cases
  case (work w)
  have "in_block out (seen_blocks r) sg bt" if "(sg, Some bt) \<in> set (answers w)" for sg bt
  proof (cases "(sg, Some bt) \<in> set (answers (run_world r))")
    case True
    with ok show ?thesis by (simp add: caches_ok_def)
  next
    case False
    with that work(3) have "confirmed_time (signature_cache (run_geyser r)) sg = Some bt"
      by (auto simp: cache_answers_def confirm_look_Some split: if_splits)
    then obtain a where "dm_get (signature_cache (run_geyser r)) sg = Some (bt, a)"
      by (auto simp: confirmed_time_def)
    with ok show ?thesis unfolding caches_ok_def by blast
  qed
  with ok work(1) show ?thesis by (simp add: caches_ok_def)
next
  case (block clock b g)
  with caches_ok_block [OF block(2) ok] show ?thesis by simp
next
  case (clean now)
  with ok clean_caches [of "run_geyser r" now] show ?thesis
    by (auto simp: caches_ok_def) (simp add: clean_signature_cache_def)
next
  case (bundle_member cache node t enc key eff res)
  with ok submitted_announced [OF ok bundle_member(2,3)] show ?thesis by (auto simp: caches_ok_def)
qed (use ok in \<open>simp_all add: caches_ok_def geyser_ok_def\<close>)

lemma service_caches_ok:
  assumes "service_reaches out E env srv r"
  shows "caches_ok out E r"
proof -
  from assms have srv: "start_service E env = Inr srv" and run: "(service_step out srv)\<^sup>*\<^sup>* (started srv) r"
    by (simp_all add: service_reaches_def)
  from srv obtain h where "rpc_blockhash E = Inr h" "geyser_ok (service_geyser srv)"
    "signature_cache (service_geyser srv) = []"
    "\<And>m k s. recent_blockhash_cache (service_geyser srv) = Some m \<Longrightarrow> dm_get m k = Some s \<Longrightarrow> k = h"
    by (rule started_service) blast
  then have "caches_ok out E (started srv)"
    by (auto simp: caches_ok_def started_def initial_world_def announced_def)
  with run show ?thesis by (induction rule: rtranclp_induct) (auto intro: caches_ok_step)
qed

section \<open>The retry task within the service\<close>

lemma answers_grow_step: "system_step cfg w w' \<Longrightarrow> \<exists>as. answers w' = as @ answers w"
  by (erule system_stepE) auto

lemma answers_grow: "system_run cfg w w' \<Longrightarrow> \<exists>as. answers w' = as @ answers w"
proof (induction rule: rtranclp_induct)
  case (step u v)
  from answers_grow_step [OF step.hyps(2)] step.IH show ?case by auto
qed simp

text \<open>What the tasks do on their own, without a confirmation, is a run of the service.\<close>

lemma work_run:
  assumes "system_run ((service_tasks out srv)\<lparr>sys_leaders := {get_leaders (out_profile out) (tracker (run_tracker r))}\<rparr>)
      (run_world r) w" and "answers w = answers (run_world r)"
  shows "(service_step out srv)\<^sup>*\<^sup>* r (r\<lparr>run_world := w\<rparr>)"
  using assms
proof (induction rule: rtranclp_induct)
  case base
  have "r\<lparr>run_world := run_world r\<rparr> = r" by (cases r) simp
  then show ?case by (metis rtranclp.rtrancl_refl)
next
  case (step u v)
  obtain as bs where "answers u = as @ answers (run_world r)" "answers v = bs @ answers u"
    using answers_grow [OF step.hyps(1)] answers_grow_step [OF step.hyps(2)] by blast
  with step.prems have same: "answers u = answers (run_world r)" "answers v = answers u" by simp_all
  have "service_step out srv (r\<lparr>run_world := u\<rparr>) ((r\<lparr>run_world := u\<rparr>)\<lparr>run_world := v\<rparr>)"
    using step.hyps(2) same(2) by (intro work) (simp_all add: cache_answers_def)
  with step.IH [OF same(1)] show ?case by (auto intro: rtranclp.rtrancl_into_rtrancl)
qed

lemma world_ok_leaders:
  assumes "world_ok (cfg\<lparr>sys_leaders := A\<rparr>) w" and "\<forall>e. phase w \<noteq> Dead e"
  shows "world_ok (cfg\<lparr>sys_leaders := B\<rparr>) w"
  using assms by (simp add: world_ok_def death_ok_def)

lemma release_never_dies:
  assumes "tasks_ok out srv r" and "out_profile out = Release" and "max_retry_queue_size (service_sender srv) = None"
  shows "\<forall>e. phase (run_world r) \<noteq> Dead e"
proof (intro allI notI)
  fix e
  assume dead: "phase (run_world r) = Dead e"
  have "death_ok (whole_system out srv) (run_world r)"
    using assms(1) reachable_ok by (auto simp: tasks_ok_def world_ok_def)
  with dead assms(2,3) show False
    by (auto simp: death_ok_def whole_system_def possible_leaders_def service_tasks_def shed_victims_def)
qed

lemma release_answers: "\<exists>ls. get_leaders Release t = Inr ls"
  by (simp add: get_leaders_def)

section \<open>A service to run\<close>

definition demo_settings :: atlas_txn_sender_env where
  "demo_settings = (demo_env (Some ''rpc''))\<lparr>max_txn_send_retries := None\<rparr>"

definition demo_outside :: outside where
  "demo_outside = \<lparr>out_profile = Release, out_server = demo_server, out_codec = wire_codec, out_budget = demo_lib,
     out_hash_of = demo_hash_of, out_sig_of = (\<lambda>b. if b = [65, 66] then Some (Signature ''sig'') else None)\<rparr>"

definition demo_service :: service where
  "demo_service = projr (start_service (demo_start None) demo_settings)"

lemma demo_service_started:
  "start_service (demo_start None) demo_settings = Inr demo_service"
  "service_tracker demo_service = new_tracker 2 0" "service_max_retries demo_service = 5"
  "max_retry_queue_size (service_sender demo_service) = None" "service_store demo_service = new_store"
    "service_retry_task demo_service = Sleeping"
  "service_geyser demo_service = new_geyser (Some [(Hash ''bh'', 10)])"
proof -
  have "parse_u16 ''7998'' = Some 7998" by (simp add: parse_u16_def digit_value_def)
  then obtain srv where run: "start_service (demo_start None) demo_settings = Inr srv"
    and srv: "service_tracker srv = new_tracker 2 0" "service_max_retries srv = 5"
      "max_retry_queue_size (service_sender srv) = None" "service_store srv = new_store"
      "service_retry_task srv = Sleeping" "service_geyser srv = new_geyser (Some [(Hash ''bh'', 10)])"
    by (simp add: start_service_def demo_start_def demo_settings_def demo_env_def new_metrics_client_def
        metrics_host_def new_with_rpc_def initialize_blockhash_cache_def Let_def dm_insert_def new_txn_sender_def)
  from run have "srv = demo_service" by (simp add: demo_service_def)
  with run srv show "start_service (demo_start None) demo_settings = Inr demo_service"
    "service_tracker demo_service = new_tracker 2 0" "service_max_retries demo_service = 5"
    "max_retry_queue_size (service_sender demo_service) = None" "service_store demo_service = new_store"
    "service_retry_task demo_service = Sleeping"
    "service_geyser demo_service = new_geyser (Some [(Hash ''bh'', 10)])" by simp_all
qed

text \<open>The schedule has been fetched, and one transaction is queued and has been sent.\<close>

definition demo_schedule :: tracker_tasks where
  "demo_schedule = \<lparr>tracker = (new_tracker 2 0)\<lparr>cur_leaders := [(0, demo_contact ''A'')]\<rparr>,
     poller = Inserting 0 1 [] (cluster_node_map [demo_contact ''A''])\<rparr>"

definition demo_running :: running where
  "demo_running = (started demo_service)\<lparr>run_world := queued_world, run_tracker := demo_schedule,
     seen_nodes := [demo_contact ''A'']\<rparr>"

lemma demo_schedule_leaders: "get_leaders Release (tracker demo_schedule) = Inr [demo_contact ''A'']"
  by (simp add: get_leaders_def demo_schedule_def new_tracker_def NUM_LEADERS_PER_SLOT_def
      slot_range_def upt_rec dm_get_def im_insert_def Let_def)

lemma demo_started_world: "run_world (started demo_service) = initial_world"
  by (simp add: started_def demo_service_started initial_world_def)

lemma demo_fetched:
  "(service_step demo_outside demo_service)\<^sup>*\<^sup>* (started demo_service)
     ((started demo_service)\<lparr>run_tracker := demo_schedule, seen_nodes := [demo_contact ''A'']\<rparr>)"
proof -
  let ?nodes = "cluster_node_map [demo_contact ''A'']"
  let ?f = "(started demo_service)\<lparr>run_tracker := \<lparr>tracker = new_tracker 2 0,
      poller = Inserting 0 0 [Pubkey ''A''] ?nodes\<rparr>, seen_nodes := [demo_contact ''A'']\<rparr>"
  have fetched: "service_step demo_outside demo_service (started demo_service) ?f"
    using fetch [of "started demo_service" demo_outside demo_service "[demo_contact ''A'']" "[Pubkey ''A'']"]
    by (simp add: started_def demo_service_started new_tracker_def)
  have "?nodes ''A'' = Some (demo_contact ''A'')" by (simp add: cluster_node_map_def demo_contact_def)
  then have "tracker_step Release (run_tracker ?f) demo_schedule"
    using insert_known [of "run_tracker ?f" 0 0 "Pubkey ''A''" "[]" ?nodes "demo_contact ''A''" Release 0]
    by (simp add: demo_schedule_def dm_insert_def new_tracker_def)
  then have inserted: "service_step demo_outside demo_service ?f (?f\<lparr>run_tracker := demo_schedule\<rparr>)"
    by (intro poll_leaders) (simp_all add: demo_outside_def demo_schedule_def new_tracker_def)
  have same: "?f\<lparr>run_tracker := demo_schedule\<rparr>
      = (started demo_service)\<lparr>run_tracker := demo_schedule, seen_nodes := [demo_contact ''A'']\<rparr>"
    by (cases "started demo_service") simp
  from converse_rtranclp_into_rtranclp [of "service_step demo_outside demo_service", OF fetched r_into_rtranclp,
      OF inserted] show ?thesis unfolding same .
qed

lemma demo_request_run:
  "system_run ((service_tasks demo_outside demo_service)\<lparr>sys_leaders := {Inr [demo_contact ''A'']}\<rparr>)
     initial_world queued_world"
proof -
  let ?cfg = "(service_tasks demo_outside demo_service)\<lparr>sys_leaders := {Inr [demo_contact ''A'']}\<rparr>"
  let ?f = "initial_world\<lparr>queue := [(''sig'', demo_request)], handlers := [Filed demo_request], accepted := [demo_request]\<rparr>"
  let ?t = "?f\<lparr>handlers := [Tracked demo_request], confirmers := [confirm_task_for demo_request ''sig'' demo_details]\<rparr>"
  have "\<not> has_signature (queue initial_world) ''sig''"
    by (simp add: initial_world_def new_store_def has_signature_def dm_contains_key_def)
  moreover have "create_transaction_data demo_server wire_codec 5 0 (demo_params None None) None Base58 (raw_encode [7])
      = Inr demo_request"
    by (simp add: create_transaction_data_def decode_and_deserialize_def wire_codec_def MAX_BASE58_SIZE_def
        demo_params_def demo_request_def) (simp add: raw_encode_def)
  ultimately have "system_run ?cfg initial_world
      (initial_world\<lparr>queue := add_transaction demo_request (queue initial_world),
        handlers := Filed demo_request # handlers initial_world, accepted := demo_request # accepted initial_world\<rparr>)"
    using demo_request_created
    by (intro run_submission) (simp_all add: service_tasks_def demo_outside_def demo_service_started)
  moreover have "add_transaction demo_request (queue initial_world) = [(''sig'', demo_request)]"
    by (simp add: add_transaction_def demo_request_created initial_world_def new_store_def
        dm_contains_key_def dm_insert_def)
  ultimately have "system_run ?cfg initial_world ?f" by (simp add: initial_world_def)
  moreover have "system_run ?cfg ?f ?t"
    using run_spawn [OF demo_request_created(3), of ?f "[]" ?cfg demo_details]
    by (simp add: service_tasks_def demo_outside_def demo_request_details initial_world_def)
  moreover have "system_run ?cfg ?t queued_world"
    using run_first_sends [of ?t demo_request "[]" "Inr [demo_contact ''A'']" ?cfg]
    by (simp add: initial_world_def queued_world_def demo_sends_def demo_request_def api_key_or_none_def)
  ultimately show ?thesis by (meson rtranclp_trans)
qed

lemma demo_running_reached: "service_reaches demo_outside (demo_start None) demo_settings demo_service demo_running"
proof -
  let ?r = "(started demo_service)\<lparr>run_tracker := demo_schedule, seen_nodes := [demo_contact ''A'']\<rparr>"
  have "out_profile demo_outside = Release" by (simp add: demo_outside_def)
  then have "(service_step demo_outside demo_service)\<^sup>*\<^sup>* ?r (?r\<lparr>run_world := queued_world\<rparr>)"
    using demo_request_run
    by (intro work_run) (simp_all add: demo_schedule_leaders demo_started_world, simp add: queued_world_def initial_world_def)
  moreover have "?r\<lparr>run_world := queued_world\<rparr> = demo_running" by (cases "started demo_service") (simp add: demo_running_def)
  ultimately show ?thesis using demo_fetched demo_service_started(1) by (auto simp: service_reaches_def)
qed

section \<open>Properties\<close>

text \<open>
  C4: A transaction is only ever reported as landed with a block time when a block with that time
  arrived on the stream whose blockhash parses and which contains the signature of the transaction, and
  the signature is that of a request the service accepted.
\<close>

theorem landed_was_in_block:
  assumes "service_reaches out E env srv r" and "(sg, Some bt) \<in> set (answers (run_world r))"
  shows "(\<exists>t \<in> set (accepted (run_world r)). get_signature t = Some sg) \<and>
    (\<exists>b \<in> set (seen_blocks r). out_hash_of out (blockhash b) \<noteq> None \<and> bt = unwrap_or 0 (block_time b) \<and>
       (\<exists>tx \<in> set (block_transactions b). \<exists>s. out_sig_of out tx = Some s \<and> sg = sig_text s))"
proof
  have "awaited (run_world r)" using service_tasks_ok [OF assms(1)] by (simp add: tasks_ok_def)
  with assms(2) show "\<exists>t \<in> set (accepted (run_world r)). get_signature t = Some sg"
    by (auto simp: awaited_def)
  have "in_block out (seen_blocks r) sg bt"
    using service_caches_ok [OF assms(1)] assms(2) unfolding caches_ok_def by blast
  then show "\<exists>b \<in> set (seen_blocks r). out_hash_of out (blockhash b) \<noteq> None \<and> bt = unwrap_or 0 (block_time b) \<and>
       (\<exists>tx \<in> set (block_transactions b). \<exists>s. out_sig_of out tx = Some s \<and> sg = sig_text s)"
    by (simp add: in_block_def)
qed

text \<open>
  C16: The bundle path of the running service only submits transactions whose blockhash was the latest
  one at the start or came with a block of the stream.
\<close>

theorem bundles_use_announced_hashes:
  assumes "service_reaches out E env srv r" and "tx \<in> set (bundled r)"
  shows "rpc_blockhash E = Inr (recent_blockhash tx) \<or>
    (\<exists>b \<in> set (seen_blocks r). out_hash_of out (blockhash b) = Some (recent_blockhash tx))"
  using service_caches_ok [OF assms(1)] assms(2) unfolding caches_ok_def announced_def by blast

text \<open>
  C15: Packets only go where the cluster says: every send task of the running service is addressed to a
  node that a \<open>getClusterNodes\<close> answer named, with a QUIC address, and carries the bytes of an accepted
  request.
\<close>

theorem packets_go_to_cluster:
  assumes "service_reaches out E env srv r" and "task \<in> set (sends (run_world r))"
  shows "task_leader task \<in> set (seen_nodes r) \<and> tpu_quic (task_leader task) \<noteq> None \<and>
    (\<exists>t \<in> set (accepted (run_world r)). task_wire task = wire_transaction t)"
proof -
  have "reachable (whole_system out srv) (run_world r)" using service_tasks_ok [OF assms(1)] by (simp add: tasks_ok_def)
  then have "traced (whole_system out srv) (run_world r)" by (rule reachable_traced)
  with assms(2) have "send_ok (accepted (run_world r)) task" by (simp add: traced_def)
  moreover have "task_leader task \<in> set (seen_nodes r)"
    using service_nodes_ok [OF assms(1)] assms(2) by (simp add: nodes_ok_def)
  ultimately show ?thesis by (auto simp: send_ok_def)
qed

text \<open>
  C3: With the settings it was started with, the service spawns for a transaction that was requested
  once at most \<open>num_leaders * (max_retries + 2)\<close> send tasks in its whole life, whatever happens: 14 with
  the defaults of two leaders and five retries.
\<close>

theorem service_send_bound:
  assumes "service_reaches out E env srv r"
    and "filter (\<lambda>t. get_signature t = Some k) (accepted (run_world r)) = [t]"
  shows "length (filter (\<lambda>task. task_wire task = wire_transaction t) (sends (run_world r))) \<le>
    unat (unwrap_or 2 (env_num_leaders env)) * (unat (unwrap_or 5 (max_txn_send_retries env)) + 2)"
proof -
  let ?cfg = "whole_system out srv" and ?w = "run_world r"
  let ?n = "unat (num_leaders (service_tracker srv))"
  have ok: "reachable ?cfg ?w" using service_tasks_ok [OF assms(1)] by (simp add: tasks_ok_def)
  have "start_service E env = Inr srv" using assms(1) by (simp add: service_reaches_def)
  then have env: "num_leaders (service_tracker srv) = unwrap_or 2 (env_num_leaders env)"
    "service_max_retries srv = unwrap_or 5 (max_txn_send_retries env)"
    by (auto elim: started_service)
  have "t \<in> set (filter (\<lambda>t. get_signature t = Some k) (accepted ?w))" unfolding assms(2) by simp
  then have t: "t \<in> set (accepted ?w)" "get_signature t = Some k" by simp_all
  have tr: "traced ?cfg ?w" using ok by (rule reachable_traced)
  have "sends_ok ?n ?w"
    using ok by (rule reachable_sends) (rule leaders_within_length, simp add: whole_system_def possible_leaders_def)
  then have "tasks_of True (wire_transaction t) (sends ?w) \<le> ?n * count_list (map snd (visits ?w)) (wire_transaction t)"
    and "tasks_of False (wire_transaction t) (sends ?w) \<le> ?n * requests_of (wire_transaction t) (accepted ?w)"
    by (metis sends_ok_def add_leE)+
  moreover have "visits_of ?w k \<le> credit ?w k"
    using reachable_ledger [OF ok] by (fastforce simp: ledger_ok_def dest: spec [of _ k])
  then have "count_list (map snd (visits ?w)) (wire_transaction t) \<le> Suc (unat (max_retries t))"
    using visits_of_wire [OF tr t] by (simp add: credit_filter assms(2))
  moreover have "requests_of (wire_transaction t) (accepted ?w) \<le> 1"
    using requests_of_wire [OF tr t] by (simp add: assms(2))
  ultimately have "tasks_of True (wire_transaction t) (sends ?w) \<le> ?n * Suc (unat (max_retries t))"
    and "tasks_of False (wire_transaction t) (sends ?w) \<le> ?n * 1"
    by (meson mult_le_mono2 order_trans)+
  moreover have "within (sys_max_retries ?cfg) t" using tr t(1) by (simp add: traced_def)
  then have "unat (max_retries t) \<le> unat (service_max_retries srv)"
    by (simp add: within_def whole_system_def service_tasks_def word_le_nat_alt)
  then have "?n * Suc (unat (max_retries t)) + ?n * 1 \<le> ?n * (unat (service_max_retries srv) + 2)"
    by (simp flip: add_mult_distrib2)
  ultimately show ?thesis unfolding tasks_of_both env by linarith
qed

text \<open>
  C11: A release build without a queue bound keeps retrying: in no reachable state is the retry task
  dead, and from every one its own steps bring it back to its sleep.
\<close>

theorem release_keeps_retrying:
  assumes "service_reaches out E env srv r" and "out_profile out = Release" and "env_max_retry_queue_size env = None"
  shows "(\<forall>e. phase (run_world r) \<noteq> Dead e) \<and>
    (\<exists>r'. (service_step out srv)\<^sup>*\<^sup>* r r' \<and> phase (run_world r') = Sleeping \<and>
       confirmers (run_world r') = confirmers (run_world r))"
proof
  have ok: "tasks_ok out srv r" by (rule service_tasks_ok [OF assms(1)])
  have "start_service E env = Inr srv" using assms(1) by (simp add: service_reaches_def)
  then have bound: "max_retry_queue_size (service_sender srv) = None"
    using assms(3) by (auto elim: started_service)
  show alive: "\<forall>e. phase (run_world r) \<noteq> Dead e" by (rule release_never_dies [OF ok assms(2) bound])
  let ?cfg = "(service_tasks out srv)\<lparr>sys_leaders := {get_leaders (out_profile out) (tracker (run_tracker r))}\<rparr>"
  have "world_ok ?cfg (run_world r)"
    using ok alive unfolding whole_system_def tasks_ok_def by (blast intro: world_ok_leaders reachable_ok)
  moreover obtain ls where "Inr ls \<in> sys_leaders ?cfg"
    using release_answers [of "tracker (run_tracker r)"] assms(2) by auto
  ultimately obtain w where run: "system_run ?cfg (run_world r) w" and kept: "others_kept (run_world r) w"
    and "phase w = Sleeping \<or> shed_death ?cfg w"
    using retry_task_sleeps_or_dies [OF _ alive] by blast
  moreover have "\<not> shed_death ?cfg w" using bound by (simp add: shed_death_def service_tasks_def)
  ultimately have "phase w = Sleeping" by blast
  moreover have "(service_step out srv)\<^sup>*\<^sup>* r (r\<lparr>run_world := w\<rparr>)"
    using run kept by (intro work_run) (simp_all add: others_kept_def)
  ultimately show "\<exists>r'. (service_step out srv)\<^sup>*\<^sup>* r r' \<and> phase (run_world r') = Sleeping \<and>
       confirmers (run_world r') = confirmers (run_world r)"
    using kept by (intro exI conjI) (assumption, simp_all add: others_kept_def)
qed

lemma demo_continues:
  "(service_step demo_outside demo_service)\<^sup>*\<^sup>* demo_running r \<Longrightarrow>
     service_reaches demo_outside (demo_start None) demo_settings demo_service r"
  using demo_running_reached by (auto simp: service_reaches_def)

lemma demo_running_fields:
  "run_world demo_running = queued_world" "seen_nodes demo_running = [demo_contact ''A'']"
  "seen_blocks demo_running = []" "bundled demo_running = []"
  "run_geyser demo_running = new_geyser (Some [(Hash ''bh'', 10)])" "run_tracker demo_running = demo_schedule"
  by (simp_all add: demo_running_def started_def demo_service_started)

theorem landed_was_in_block_witness:
  "\<exists>r. service_reaches demo_outside (demo_start None) demo_settings demo_service r \<and>
     (''sig'', Some 77) \<in> set (answers (run_world r)) \<and>
     (\<exists>b \<in> set (seen_blocks r). 77 = unwrap_or 0 (block_time b))"
proof -
  let ?b = "demo_block ''d'' 450"
  obtain g where g: "handle_block Release demo_hash_of (out_sig_of demo_outside) (\<lambda>_. 5) ?b (run_geyser demo_running) = Inr g"
    by (simp add: handle_block_def demo_hash_of_def demo_block_def demo_running_fields new_geyser_def Let_def
        retain_recent_Release)
  then have "signature_cache g = [(''sig'', 77, 5)]"
    by (auto simp: handle_block_def demo_hash_of_def demo_block_def demo_running_fields new_geyser_def Let_def
        retain_recent_Release dm_insert_def demo_outside_def)
  then have cached: "confirmed_time (signature_cache g) ''sig'' = Some 77" by (simp add: confirmed_time_def dm_get_def)
  let ?r1 = "demo_running\<lparr>run_geyser := g, seen_blocks := ?b # seen_blocks demo_running\<rparr>"
  have one: "service_step demo_outside demo_service demo_running ?r1"
    using g by (intro block) (simp add: demo_outside_def)
  let ?task = "confirm_task_for demo_request ''sig'' demo_details"
  obtain ms q where fin: "finish_tracking ?task (Some 77) 0 (queue queued_world) = (ms, q)"
    by (cases "finish_tracking ?task (Some 77) 0 (queue queued_world)")
  let ?w = "queued_world\<lparr>queue := q, confirmers := remove1 ?task (confirmers queued_world),
    answers := (confirm_signature ?task, Some 77) # answers queued_world\<rparr>"
  have "system_step ((service_tasks demo_outside demo_service)\<lparr>sys_leaders :=
      {get_leaders (out_profile demo_outside) (tracker (run_tracker ?r1))}\<rparr>) queued_world ?w"
    using fin by (intro confirm) (simp_all add: queued_world_def)
  then have two: "service_step demo_outside demo_service ?r1 (?r1\<lparr>run_world := ?w\<rparr>)"
    using cached
    by (intro work) (auto simp: demo_running_fields cache_answers_def confirm_task_for_def confirm_look_Some
        CONFIRM_LIMIT_def intro!: exI [of _ 0])
  have reached: "service_reaches demo_outside (demo_start None) demo_settings demo_service (?r1\<lparr>run_world := ?w\<rparr>)"
    using converse_rtranclp_into_rtranclp [of "service_step demo_outside demo_service", OF one r_into_rtranclp, OF two]
    by (rule demo_continues)
  have landed: "(''sig'', Some 77) \<in> set (answers (run_world (?r1\<lparr>run_world := ?w\<rparr>)))"
    by (simp add: confirm_task_for_def)
  from landed_was_in_block [OF reached landed]
  have "\<exists>b \<in> set (seen_blocks (?r1\<lparr>run_world := ?w\<rparr>)). 77 = unwrap_or 0 (block_time b)" by blast
  with reached landed show ?thesis by (intro exI conjI)
qed

theorem packets_go_to_cluster_witness:
  "\<exists>task \<in> set demo_sends. task_leader task \<in> set (seen_nodes demo_running) \<and> task_wire task = [7]"
proof -
  let ?task = "\<lparr>task_leader = demo_contact ''A'', task_leader_num = 0, task_wire = [7], task_api_key = ''none'',
    task_retry = False\<rparr>"
  have task: "?task \<in> set demo_sends" by (simp add: demo_sends_def demo_contact_def)
  then have "?task \<in> set (sends (run_world demo_running))" by (simp add: demo_running_fields queued_world_def)
  from packets_go_to_cluster [OF demo_running_reached this] task show ?thesis by (intro bexI [of _ ?task]) simp_all
qed

theorem service_send_bound_witness:
  "length (filter (\<lambda>task. task_wire task = [7]) demo_sends) \<le> 14 \<and> demo_sends \<noteq> []"
proof -
  have "filter (\<lambda>t. get_signature t = Some ''sig'') (accepted (run_world demo_running)) = [demo_request]"
    by (simp add: demo_running_fields queued_world_def demo_request_created)
  from service_send_bound [OF demo_running_reached this]
  have "length (filter (\<lambda>task. task_wire task = [7]) demo_sends) \<le> 14"
    by (simp add: demo_running_fields queued_world_def demo_settings_def demo_env_def demo_request_def)
  then show ?thesis by (simp add: demo_sends_def demo_contact_def)
qed

theorem bundles_use_announced_hashes_witness:
  "\<exists>r. service_reaches demo_outside (demo_start None) demo_settings demo_service r \<and>
     demo_txn 1 \<in> set (bundled r) \<and> rpc_blockhash (demo_start None) = Inr (recent_blockhash (demo_txn 1))"
proof -
  have known: "dm_contains_key [(Hash ''bh'', 10 :: u64)] (Hash ''bh'')" by (simp add: dm_contains_key_def dm_get_def)
  have codec: "out_codec demo_outside = wire_codec" by (simp add: demo_outside_def)
  have run: "send_transaction_bundle (out_codec demo_outside) (\<lambda>_. [(Hash ''bh'', 10)]) (\<lambda>_. demo_node (\<lambda>_. Inr ''sig''))
     [bundle_member] Base58 ''k'' = Some (member_effects, Inr ([raw_encode [7]], []))"
    unfolding codec
    by (simp add: send_transaction_bundle_def bundle_member_def member_submission known Let_def member_effects_def)
  let ?r = "demo_running\<lparr>bundled := submitted member_effects @ bundled demo_running\<rparr>"
  have "service_step demo_outside demo_service demo_running ?r"
    by (rule service_step.bundle_member [OF _ run]) (simp add: demo_running_fields new_geyser_def)
  then have reached: "service_reaches demo_outside (demo_start None) demo_settings demo_service ?r"
    by (intro demo_continues r_into_rtranclp)
  have tx: "demo_txn 1 \<in> set (bundled ?r)" by (simp add: submitted_def member_effects_def map_filter_simps)
  from bundles_use_announced_hashes [OF reached tx] reached tx show ?thesis
    by (intro exI [of _ ?r]) (auto simp: demo_running_fields)
qed

theorem release_keeps_retrying_witness:
  "\<exists>r r'. phase (run_world r) = Length_read 1 \<and>
     (service_step demo_outside demo_service)\<^sup>*\<^sup>* r r' \<and> phase (run_world r') = Sleeping"
proof -
  let ?w = "queued_world\<lparr>phase := Length_read 1\<rparr>"
  let ?r = "demo_running\<lparr>run_world := ?w\<rparr>"
  have "system_step ((service_tasks demo_outside demo_service)\<lparr>sys_leaders :=
      {get_leaders (out_profile demo_outside) (tracker (run_tracker demo_running))}\<rparr>) queued_world ?w"
    using read_length [of queued_world] by (simp add: queued_world_def)
  then have "service_step demo_outside demo_service demo_running ?r"
    by (intro work) (simp_all add: demo_running_fields cache_answers_def)
  then have "service_reaches demo_outside (demo_start None) demo_settings demo_service ?r"
    by (intro demo_continues r_into_rtranclp)
  from release_keeps_retrying [OF this] obtain r' where
    "(service_step demo_outside demo_service)\<^sup>*\<^sup>* ?r r'" "phase (run_world r') = Sleeping"
    by (auto simp: demo_outside_def demo_settings_def demo_env_def)
  then show ?thesis by (intro exI [of _ ?r] exI [of _ r'] conjI) simp_all
qed

end
