(* ===== verification/Entry_Life.thy ===== *)
theory Entry_Life
  imports System_Ledger
begin

text \<open>
  What happens to one signature: the abstract service of a single signature as an automaton, without
  the queue, the other transactions and the phases of the retry task, and the refinement: seen from any
  signature, a step of the concurrent service is one step of this automaton or none.
\<close>

section \<open>The automaton\<close>

text \<open>
  The requests accepted and not yet filed; the handlers that have filed and have not yet started a
  confirmation task; the confirmation tasks that wait; the entry of the queue; whether this pass has
  found an entry at its bound and is going to remove it; and how often the retry loop has visited it.
\<close>

record life =
  life_open :: "transaction_data multiset"
  life_starting :: nat
  life_waiting :: nat
  life_entry :: "transaction_data option"
  life_spent :: bool
  life_visits :: nat

definition fresh_life :: life where
  "fresh_life = \<lparr>life_open = {#}, life_starting = 0, life_waiting = 0, life_entry = None, life_spent = False,
     life_visits = 0\<rparr>"

text \<open>
  An unknown signature is accepted; a handler finds the entry of another one in the queue, or files its
  own; it starts a confirmation task, or panics; a visit counts the entry up below its bound, once, or
  marks it at its bound; the entry is removed by a confirmation, by the load shedding of a bounded
  queue, or because it was marked; the retry task may die of \<open>get_leaders\<close> before that removal.
\<close>

inductive life_step :: "system_config \<Rightarrow> string \<Rightarrow> life \<Rightarrow> life \<Rightarrow> bool" for cfg k where
  accept: "life_entry l = None \<Longrightarrow> get_signature t = Some k \<Longrightarrow> retry_count t = 0 \<Longrightarrow>
    max_retries t \<le> sys_max_retries cfg \<Longrightarrow> decoded_by cfg t \<Longrightarrow>
    life_step cfg k l (l\<lparr>life_open := add_mset t (life_open l)\<rparr>)"
| find_other: "life_open l = add_mset t ts \<Longrightarrow> life_entry l \<noteq> None \<Longrightarrow>
    life_step cfg k l (l\<lparr>life_open := ts, life_starting := Suc (life_starting l)\<rparr>)"
| file_own: "life_open l = add_mset t ts \<Longrightarrow>
    life_step cfg k l (l\<lparr>life_open := ts, life_starting := Suc (life_starting l), life_entry := Some t\<rparr>)"
| start_waiting: "life_starting l = Suc n \<Longrightarrow>
    life_step cfg k l (l\<lparr>life_starting := n, life_waiting := Suc (life_waiting l)\<rparr>)"
| handler_panic: "life_starting l = Suc n \<Longrightarrow> get_signature t = Some k \<Longrightarrow>
    compute_priority_details (sys_budget cfg) (versioned_transaction t) = Inl e \<Longrightarrow>
    life_step cfg k l (l\<lparr>life_starting := n\<rparr>)"
| count_up: "life_entry l = Some t \<Longrightarrow> retry_count t < max_retries t \<Longrightarrow> \<not> life_spent l \<Longrightarrow>
    life_step cfg k l (l\<lparr>life_entry := Some (t\<lparr>retry_count := retry_count t + 1\<rparr>), life_visits := Suc (life_visits l)\<rparr>)"
| mark_spent: "life_entry l = Some t \<Longrightarrow> max_retries t \<le> retry_count t \<Longrightarrow> \<not> life_spent l \<Longrightarrow>
    life_step cfg k l (l\<lparr>life_spent := True, life_visits := Suc (life_visits l)\<rparr>)"
| confirmed: "life_waiting l = Suc n \<Longrightarrow>
    life_step cfg k l (l\<lparr>life_waiting := n, life_entry := None\<rparr>)"
| shed_entry: "sys_queue_bound cfg \<noteq> None \<Longrightarrow> \<not> life_spent l \<Longrightarrow>
    life_step cfg k l (l\<lparr>life_entry := None\<rparr>)"
| remove_spent: "life_spent l \<Longrightarrow>
    life_step cfg k l (l\<lparr>life_entry := None, life_spent := False\<rparr>)"
| retry_task_dies: "life_spent l \<Longrightarrow> Inl e \<in> sys_leaders cfg \<Longrightarrow>
    life_step cfg k l (l\<lparr>life_spent := False\<rparr>)"

section \<open>The service seen from one signature\<close>

definition open_of :: "string \<Rightarrow> handler list \<Rightarrow> transaction_data multiset" where
  "open_of k hs = image_mset handled {#h \<in># mset hs. unfiled h \<and> get_signature (handled h) = Some k#}"

fun is_filed :: "handler \<Rightarrow> bool" where
  "is_filed (Filed t) = True"
| "is_filed _ = False"

definition starting_of :: "string \<Rightarrow> handler list \<Rightarrow> nat" where
  "starting_of k hs = size {#h \<in># mset hs. is_filed h \<and> get_signature (handled h) = Some k#}"

definition waiting_of :: "string \<Rightarrow> confirm_task list \<Rightarrow> nat" where
  "waiting_of k cs = size {#c \<in># mset cs. confirm_signature c = k#}"

definition life_of :: "string \<Rightarrow> world \<Rightarrow> life" where
  "life_of k w = \<lparr>life_open = open_of k (handlers w), life_starting = starting_of k (handlers w),
     life_waiting = waiting_of k (confirmers w), life_entry = dm_get (queue w) k,
     life_spent = (k \<in> set (reached_keys (phase w))), life_visits = visits_of w k\<rparr>"

lemma handlers_of_simps [simp]:
  "open_of k [] = {#}" "starting_of k [] = 0"
  "open_of k (h # hs) =
     (if unfiled h \<and> get_signature (handled h) = Some k then add_mset (handled h) (open_of k hs) else open_of k hs)"
  "starting_of k (h # hs) =
     (if is_filed h \<and> get_signature (handled h) = Some k then Suc (starting_of k hs) else starting_of k hs)"
  by (simp_all add: open_of_def starting_of_def)

lemma waiting_of_simps [simp]:
  "waiting_of k [] = 0"
  "waiting_of k (c # cs) = (if confirm_signature c = k then Suc (waiting_of k cs) else waiting_of k cs)"
  by (simp_all add: waiting_of_def)

text \<open>A handler or a task may be brought to the front.\<close>

lemma handler_to_front:
  assumes "h \<in> set hs"
  shows "open_of k hs = open_of k (h # remove1 h hs)" and "starting_of k hs = starting_of k (h # remove1 h hs)"
  using assms unfolding open_of_def starting_of_def by simp_all

lemma task_to_front: "c \<in> set cs \<Longrightarrow> waiting_of k cs = waiting_of k (c # remove1 c cs)"
  unfolding waiting_of_def by simp

section \<open>The phases of the retry task\<close>

fun phase_sound :: "system_config \<Rightarrow> retry_phase \<Rightarrow> bool" where
  "phase_sound cfg (Shedding ks) \<longleftrightarrow> ks = [] \<or> sys_queue_bound cfg \<noteq> None"
| "phase_sound cfg (Scanning todo visited reached wires) \<longleftrightarrow> set reached \<subseteq> set visited \<and> distinct reached"
| "phase_sound cfg (Sending wires reached) \<longleftrightarrow> distinct reached"
| "phase_sound cfg (Removing_reached ks) \<longleftrightarrow> distinct ks"
| "phase_sound cfg _ \<longleftrightarrow> True"

lemma phase_sound_step:
  assumes "system_step cfg w w'" and ok: "world_ok cfg w" and "phase_sound cfg (phase w)"
  shows "phase_sound cfg (phase w')"
  using assms(1)
proof cases
  case (shed n todo seen victims)
  then show ?thesis by (auto simp: shed_victims_def split: option.splits)
next
  case (visit todo visited reached wires k t t' r)
  have "r = (if max_retries t \<le> retry_count t then [k] else [])"
    using visit(5) store_okD [OF _ visit(4)] ok by (simp add: world_ok_def retry_entry_ok)
  with assms(3) visit(1-3) show ?thesis by auto
qed (use assms(3) in auto)

lemma reachable_phase_sound: "reachable cfg w \<Longrightarrow> phase_sound cfg (phase w)"
proof -
  have "reachable cfg w \<Longrightarrow> world_ok cfg w \<and> phase_sound cfg (phase w)"
    unfolding reachable_def
  proof (induction rule: rtranclp_induct)
    case base
    show ?case using world_ok_initial by (simp add: initial_world_def)
  qed (auto intro: world_ok_step phase_sound_step)
  then show "reachable cfg w \<Longrightarrow> phase_sound cfg (phase w)" by blast
qed

section \<open>The refinement\<close>

lemma life_visit:
  assumes ok: "world_ok cfg w" and "phase_sound cfg (phase w)"
    and ph: "phase w = Scanning todo visited reached wires" and new: "k' \<notin> set visited"
    and get: "dm_get (queue w) k' = Some t" and entry: "retry_entry (sys_profile cfg) t = Inr (t', r)"
    and w': "w' = w\<lparr>queue := dm_insert k' t' (queue w),
      phase := Scanning todo (k' # visited) (reached @ r) wires', visits := (k', wire) # visits w\<rparr>"
  shows "life_step cfg k (life_of k w) (life_of k w') \<or> life_of k w' = life_of k w"
proof -
  have dm: "dm_ok (queue w)" and "entry_ok k' t" using ok store_okD [OF _ get] by (auto simp: world_ok_def)
  then have t': "t' = bump t" and r: "r = (if max_retries t \<le> retry_count t then [k'] else [])"
    using entry by (simp_all add: retry_entry_ok)
  have unspent: "k' \<notin> set reached" using assms(2) ph new by auto
  show ?thesis
  proof (cases "k = k'")
    case False
    then show ?thesis using dm ph r by (simp add: w' life_of_def dash visits_of_def)
  next
    case True
    show ?thesis
    proof (cases "max_retries t \<le> retry_count t")
      case True
      have "life_step cfg k (life_of k w) ((life_of k w)\<lparr>life_spent := True, life_visits := Suc (life_visits (life_of k w))\<rparr>)"
        using True \<open>k = k'\<close> get ph unspent by (intro mark_spent [where t = t]) (simp_all add: life_of_def)
      then show ?thesis
        using True \<open>k = k'\<close> get ph r dm by (simp add: w' life_of_def dash visits_of_def t' bump_def)
    next
      case False
      have "life_step cfg k (life_of k w) ((life_of k w)\<lparr>life_entry := Some (t\<lparr>retry_count := retry_count t + 1\<rparr>),
          life_visits := Suc (life_visits (life_of k w))\<rparr>)"
        using False \<open>k = k'\<close> get ph unspent by (intro count_up) (simp_all add: life_of_def)
      then show ?thesis
        using False \<open>k = k'\<close> ph r dm unspent by (simp add: w' life_of_def dash visits_of_def t' bump_def)
    qed
  qed
qed

lemma life_simulated:
  assumes "system_step cfg w w'" and ok: "world_ok cfg w" and tr: "traced cfg w" and ps: "phase_sound cfg (phase w)"
  shows "life_step cfg k (life_of k w) (life_of k w') \<or> life_of k w' = life_of k w"
proof -
  have dm: "dm_ok (queue w)" using ok by (auto simp: world_ok_def)
  note front = handler_to_front [where k = k]
  from assms(1) show ?thesis
  proof cases
    case (request params enc now m txn t sg)
    have t: "decoded_by cfg t" "within (sys_max_retries cfg) t" "retry_count t = 0"
      using created_decoded [OF request(3)] within_created [OF request(3,4)] created_bounded [OF request(3)] by simp_all
    have sig: "get_signature t = Some (sig_text sg)"
      using request(4) by (cases "signatures (versioned_transaction t)") (auto simp: get_signature_def)
    show ?thesis
    proof (cases "sig_text sg = k")
      case True
      with sig request(5) t have "life_step cfg k (life_of k w)
          ((life_of k w)\<lparr>life_open := add_mset t (life_open (life_of k w))\<rparr>)"
        by (intro accept) (auto simp: life_of_def within_def has_signature_def dm_contains_key_def)
      with sig True show ?thesis by (simp add: request(1) life_of_def visits_of_def)
    next
      case False
      with sig show ?thesis by (simp add: request(1) life_of_def visits_of_def)
    qed
  next
    case (known t sg)
    show ?thesis
    proof (cases "sg = k")
      case True
      with known have "life_step cfg k (life_of k w) ((life_of k w)\<lparr>life_open := open_of k (remove1 (Checked t) (handlers w)),
          life_starting := Suc (life_starting (life_of k w))\<rparr>)"
        by (intro find_other [where t = t]) (auto simp: life_of_def front [OF known(2)] dm_contains_key_def)
      with known True show ?thesis by (simp add: life_of_def visits_of_def front [OF known(2)])
    next
      case False
      with known(3) show ?thesis by (simp add: known(1) life_of_def visits_of_def front [OF known(2)])
    qed
  next
    case (unknown t sg)
    then show ?thesis by (simp add: life_of_def visits_of_def front [OF unknown(2)])
  next
    case (store t sg)
    show ?thesis
    proof (cases "sg = k")
      case True
      with store have "life_step cfg k (life_of k w) ((life_of k w)\<lparr>life_open := open_of k (remove1 (Storing t) (handlers w)),
          life_starting := Suc (life_starting (life_of k w)), life_entry := Some t\<rparr>)"
        by (intro file_own [where t = t]) (auto simp: life_of_def front [OF store(2)])
      with store True dm show ?thesis by (simp add: life_of_def visits_of_def dash front [OF store(2)])
    next
      case False
      with store(3) dm show ?thesis by (simp add: store(1) life_of_def visits_of_def dash front [OF store(2)])
    qed
  next
    case (spawn t sg d)
    show ?thesis
    proof (cases "sg = k")
      case True
      with spawn have "life_step cfg k (life_of k w) ((life_of k w)\<lparr>life_starting := starting_of k (remove1 (Filed t) (handlers w)),
          life_waiting := Suc (life_waiting (life_of k w))\<rparr>)"
        by (intro start_waiting) (auto simp: life_of_def front [OF spawn(2)])
      with spawn True show ?thesis
        by (simp add: life_of_def visits_of_def confirm_task_for_def front [OF spawn(2)])
    next
      case False
      with spawn(3) show ?thesis
        by (simp add: spawn(1) life_of_def visits_of_def confirm_task_for_def front [OF spawn(2)])
    qed
  next
    case (abandon t sg e)
    show ?thesis
    proof (cases "sg = k")
      case True
      with abandon have "life_step cfg k (life_of k w) ((life_of k w)\<lparr>life_starting := starting_of k (remove1 (Filed t) (handlers w))\<rparr>)"
        by (intro handler_panic) (auto simp: life_of_def front [OF abandon(2)])
      with abandon True show ?thesis by (simp add: life_of_def visits_of_def front [OF abandon(2)])
    next
      case False
      with abandon(3) show ?thesis by (simp add: abandon(1) life_of_def visits_of_def front [OF abandon(2)])
    qed
  next
    case (first_sends t ls)
    then show ?thesis by (simp add: life_of_def visits_of_def front [OF first_sends(2)])
  next
    case (first_sends_panic t e)
    then show ?thesis by (simp add: life_of_def visits_of_def front [OF first_sends_panic(2)])
  next
    case (confirm task confirmed_at now ms q)
    have q: "q = dm_remove (confirm_signature task) (queue w)" by (rule finish_tracking_store [OF confirm(3)])
    show ?thesis
    proof (cases "confirm_signature task = k")
      case True
      with confirm(2) have "life_step cfg k (life_of k w)
          ((life_of k w)\<lparr>life_waiting := waiting_of k (remove1 task (confirmers w)), life_entry := None\<rparr>)"
        by (intro confirmed) (simp add: life_of_def task_to_front [OF confirm(2)])
      with True dm show ?thesis by (simp add: confirm(1) life_of_def visits_of_def q dash)
    next
      case False
      with dm show ?thesis
        by (simp add: confirm(1) life_of_def visits_of_def q dash task_to_front [OF confirm(2)])
    qed
  next
    case (shed_one k' ks)
    show ?thesis
    proof (cases "k' = k")
      case True
      have "life_step cfg k (life_of k w) ((life_of k w)\<lparr>life_entry := None\<rparr>)"
        using ps shed_one(2) by (intro shed_entry) (auto simp: life_of_def)
      with True dm shed_one(2) show ?thesis by (simp add: shed_one(1) life_of_def visits_of_def dash)
    next
      case False
      with dm shed_one(2) show ?thesis by (simp add: shed_one(1) life_of_def visits_of_def dash)
    qed
  next
    case (visit todo visited reached wires k' t t' r)
    show ?thesis by (rule life_visit [OF ok ps visit(2-5,1)])
  next
    case (visit_panic todo visited reached wires k' t e)
    then show ?thesis using visit_never_panics [OF ok] by blast
  next
    case (send_panic wire wires reached e)
    show ?thesis
    proof (cases "k \<in> set reached")
      case True
      have "life_step cfg k (life_of k w) ((life_of k w)\<lparr>life_spent := False\<rparr>)"
        using True send_panic(2,3) by (intro retry_task_dies) (auto simp: life_of_def)
      then show ?thesis by (simp add: send_panic(1) life_of_def visits_of_def)
    next
      case False
      with send_panic(2) show ?thesis by (simp add: send_panic(1) life_of_def visits_of_def)
    qed
  next
    case (remove_one k' ks)
    show ?thesis
    proof (cases "k' = k")
      case True
      have "life_step cfg k (life_of k w) ((life_of k w)\<lparr>life_entry := None, life_spent := False\<rparr>)"
        using True remove_one(2) by (intro remove_spent) (simp add: life_of_def)
      with True dm ps remove_one(2) show ?thesis
        by (simp add: remove_one(1) life_of_def visits_of_def remove_transaction_def dash)
    next
      case False
      with dm remove_one(2) show ?thesis
        by (simp add: remove_one(1) life_of_def visits_of_def remove_transaction_def dash)
    qed
  next
    case (reorder q)
    then show ?thesis using dm_perm_get [of "queue w" q] dm by (simp add: life_of_def visits_of_def)
  qed (simp_all add: life_of_def visits_of_def)
qed

lemma life_of_initial: "life_of k initial_world = fresh_life"
  by (simp add: life_of_def fresh_life_def initial_world_def new_store_def visits_of_def)

lemma reachable_simulated:
  assumes "reachable cfg w" and "system_step cfg w w'"
  shows "life_step cfg k (life_of k w) (life_of k w') \<or> life_of k w' = life_of k w"
  using life_simulated [OF assms(2) reachable_ok [OF assms(1)] reachable_traced [OF assms(1)]
      reachable_phase_sound [OF assms(1)]] .

lemma life_reachable:
  assumes "reachable cfg w"
  shows "(life_step cfg k)\<^sup>*\<^sup>* fresh_life (life_of k w)"
  using assms unfolding reachable_def
proof (induction rule: rtranclp_induct)
  case base
  show ?case by (simp add: life_of_initial)
next
  case (step u v)
  then have "life_step cfg k (life_of k u) (life_of k v) \<or> life_of k v = life_of k u"
    by (intro reachable_simulated) (simp_all add: reachable_def)
  with step.IH show ?case by (auto intro: rtranclp.rtrancl_into_rtrancl)
qed

text \<open>An invariant of the automaton: the entry has been counted up no more often than visited.\<close>

definition life_counted :: "life \<Rightarrow> bool" where
  "life_counted l \<longleftrightarrow> (\<forall>t \<in># life_open l. retry_count t = 0) \<and>
     (\<forall>t. life_entry l = Some t \<longrightarrow> unat (retry_count t) \<le> life_visits l)"

lemma life_counted_step: "life_step cfg k l l' \<Longrightarrow> life_counted l \<Longrightarrow> life_counted l'"
proof (induction rule: life_step.induct)
  case (count_up l t)
  then have "unat (retry_count t + 1) = Suc (unat (retry_count t))" using unat_succ_below(1) by blast
  with count_up show ?case by (simp add: life_counted_def)
qed (auto simp: life_counted_def)

lemma life_counted_reachable: "(life_step cfg k)\<^sup>*\<^sup>* fresh_life l \<Longrightarrow> life_counted l"
proof (induction rule: rtranclp_induct)
  case base
  show ?case by (simp add: life_counted_def fresh_life_def)
qed (rule life_counted_step)

text \<open>
  C5: Seen from any signature the concurrent service refines the automaton of that signature: its state
  is one the automaton reaches, and whatever step the service takes is one step of the automaton or
  leaves the signature alone. In particular, a visit below the bound adds exactly one to the stored
  count and one at the bound marks the entry, at most once; a confirmation task removes it; only a
  bounded queue sheds; only an accepted request files; and the count never exceeds the visits.
\<close>

theorem service_refines_life:
  assumes "reachable cfg w"
  shows "(life_step cfg k)\<^sup>*\<^sup>* fresh_life (life_of k w) \<and>
    (\<forall>w'. system_step cfg w w' \<longrightarrow>
       life_step cfg k (life_of k w) (life_of k w') \<or> life_of k w' = life_of k w) \<and>
    (\<forall>t. dm_get (queue w) k = Some t \<longrightarrow> unat (retry_count t) \<le> length (filter (\<lambda>v. fst v = k) (visits w)))"
proof (intro conjI allI impI)
  show run: "(life_step cfg k)\<^sup>*\<^sup>* fresh_life (life_of k w)" by (rule life_reachable [OF assms])
  show "life_step cfg k (life_of k w) (life_of k w') \<or> life_of k w' = life_of k w"
    if "system_step cfg w w'" for w'
    using that by (rule reachable_simulated [OF assms])
  show "unat (retry_count t) \<le> length (filter (\<lambda>v. fst v = k) (visits w))"
    if "dm_get (queue w) k = Some t" for t
    using life_counted_reachable [OF run] that by (simp add: life_counted_def life_of_def visits_of_def)
qed

theorem service_refines_life_witness:
  "\<exists>l. (life_step (demo_config None) ''sig'')\<^sup>*\<^sup>* fresh_life l \<and>
     life_entry l = Some (demo_request\<lparr>retry_count := 1\<rparr>) \<and> 1 \<le> life_visits l"
proof -
  obtain w where run: "system_run (demo_config None) queued_world w"
    and queue: "queue w = [(''sig'', demo_request\<lparr>retry_count := 1\<rparr>)]"
    by (rule retried_world)
  have w: "reachable (demo_config None) w" by (rule reachable_run [OF queued_world_reachable run])
  note refines = service_refines_life [OF w, of "''sig''"]
  have get: "dm_get (queue w) ''sig'' = Some (demo_request\<lparr>retry_count := 1\<rparr>)" by (simp add: queue dm_get_def)
  then have "1 \<le> life_visits (life_of ''sig'' w)"
    using refines by (simp add: life_of_def visits_of_def demo_request_def)
  with refines get show ?thesis by (intro exI [of _ "life_of ''sig'' w"] conjI) (simp_all add: life_of_def)
qed

end
