(* ===== verification/Send_Bundle.thy ===== *)
theory Send_Bundle
  imports Rpc_Server Sender_Properties
begin

text \<open>
  \<open>bin/send_bundle.rs\<close>: the command line client. Key handling, signing and the two remote services
  are the fields of \<open>cli_lib\<close>; the file system is a map from paths to bytes with a function that says
  which writes fail. Log lines are left out, except the report on the answer, which is the value of
  the command. Errors of the client (\<open>anyhow\<close>) are texts.
\<close>

record 'k cli_lib =
  keypair_to_bytes :: "'k \<Rightarrow> u8 list"
  keypair_from_bytes :: "u8 list \<Rightarrow> string + 'k"
  cli_pubkey :: "'k \<Rightarrow> pubkey"
  new_keypair :: "nat \<Rightarrow> 'k"
  get_latest_blockhash :: "nat \<Rightarrow> string + hash"
  http_client :: "string \<Rightarrow> string + unit"
  request_airdrop :: "pubkey \<Rightarrow> u64 \<Rightarrow> string + unit"

text \<open>Accounts are files; reading, \<open>create_dir_all\<close> and writing may fail.\<close>

record cli_fs =
  files :: "string \<Rightarrow> string + u8 list"
  dir_fails :: "string option"
  write_fails :: "string \<Rightarrow> string option"

section \<open>Accounts\<close>

text \<open>\<open>PathBuf::join\<close> with a relative name.\<close>

definition path_join :: "string \<Rightarrow> string \<Rightarrow> string" where
  "path_join dir name =
     (if dir = [] \<or> List.last dir = CHR ''/'' then dir @ name else dir @ ''/'' @ name)"

definition load_keypair :: "'k cli_lib \<Rightarrow> cli_fs \<Rightarrow> string \<Rightarrow> string + 'k" where
  "load_keypair lib fs path =
     and_then (files fs path) (keypair_from_bytes lib)"

definition save_keypair :: "'k cli_lib \<Rightarrow> 'k \<Rightarrow> string \<Rightarrow> cli_fs \<Rightarrow> string + cli_fs" where
  "save_keypair lib k path fs =
     (case dir_fails fs of
        Some e \<Rightarrow> Inl e
      | None \<Rightarrow>
          (case write_fails fs path of
             Some e \<Rightarrow> Inl e
           | None \<Rightarrow> Inr (fs\<lparr>files := (files fs)(path := Inr (keypair_to_bytes lib k))\<rparr>)))"

definition account_path :: "string \<Rightarrow> nat \<Rightarrow> string" where
  "account_path dir i = path_join dir (''account_'' @ show_nat i @ ''.json'')"

fun save_accounts :: "'k cli_lib \<Rightarrow> string \<Rightarrow> nat list \<Rightarrow> cli_fs \<Rightarrow> string + cli_fs" where
  "save_accounts lib dir [] fs = Inr fs"
| "save_accounts lib dir (i # is) fs =
     and_then (save_keypair lib (new_keypair lib i) (account_path dir i) fs) (save_accounts lib dir is)"

definition create_accounts :: "'k cli_lib \<Rightarrow> string \<Rightarrow> usize \<Rightarrow> cli_fs \<Rightarrow> string + cli_fs" where
  "create_accounts lib dir tx_count fs =
     (case dir_fails fs of
        Some e \<Rightarrow> Inl e
      | None \<Rightarrow> save_accounts lib dir [0..<unat tx_count] fs)"

definition airdrop :: "'k cli_lib \<Rightarrow> cli_fs \<Rightarrow> string \<Rightarrow> u64 \<Rightarrow> string + unit" where
  "airdrop lib fs account amount =
     and_then (load_keypair lib fs account) (\<lambda>k. request_airdrop lib (cli_pubkey lib k) amount)"

section \<open>Sending a bundle\<close>

datatype cli_instruction =
    Set_compute_unit_price u64
  | Set_compute_unit_limit u32
  | Transfer pubkey pubkey u64

definition rent_exempt_balance :: u64 where
  "rent_exempt_balance = 890880"

definition bundle_instructions ::
  "profile \<Rightarrow> pubkey \<Rightarrow> pubkey \<Rightarrow> u64 \<Rightarrow> panic + cli_instruction list" where
  "bundle_instructions p from_key to_key amount =
     and_then (add_w p amount rent_exempt_balance) (\<lambda>lamports.
       Inr [Set_compute_unit_price 100000, Set_compute_unit_limit 200000,
            Transfer from_key to_key lamports])"

text \<open>
  The loop that makes the transactions: \<open>sign\<close> builds and signs one from its instructions, the
  sender's key and a blockhash, \<open>serialize\<close> is \<open>bincode::serialize\<close>, which has no limit. The second
  component are the sleeps.
\<close>

fun make_transactions ::
  "profile \<Rightarrow> 'k cli_lib \<Rightarrow> (cli_instruction list \<Rightarrow> 'k \<Rightarrow> hash \<Rightarrow> 't) \<Rightarrow> ('t \<Rightarrow> string + u8 list) \<Rightarrow>
   (u8 list \<Rightarrow> string) \<Rightarrow> 'k \<Rightarrow> 'k \<Rightarrow> u64 \<Rightarrow> nat \<Rightarrow> nat list \<Rightarrow>
   duration list \<times> (panic + (string + string list))" where
  "make_transactions p lib sign serialize bs58 from_keypair to_keypair amount tx_count [] = ([], Inr (Inr []))"
| "make_transactions p lib sign serialize bs58 from_keypair to_keypair amount tx_count (i # is) =
     (case get_latest_blockhash lib i of
        Inl e \<Rightarrow> ([], Inr (Inl (''Failed to get recent blockhash: '' @ e)))
      | Inr latest \<Rightarrow>
          (case bundle_instructions p (cli_pubkey lib from_keypair) (cli_pubkey lib to_keypair) amount of
             Inl e \<Rightarrow> ([], Inl e)
           | Inr ixs \<Rightarrow>
               (case serialize (sign ixs from_keypair latest) of
                  Inl e \<Rightarrow> ([], Inr (Inl e))
                | Inr bytes \<Rightarrow>
                    (let (naps, r) = make_transactions p lib sign serialize bs58 from_keypair to_keypair
                           amount tx_count is in
                     ((if 1 < tx_count then [500] else []) @ naps,
                      map_sum id (map_sum id (Cons (bs58 bytes))) r)))))"

text \<open>The parameters of the request, as the server reads them.\<close>

definition bundle_params :: rpc_send_transaction_config where
  "bundle_params = \<lparr>skip_preflight = True, preflight_commitment = None, encoding = Some Ui_Base58,
     rpc_max_retries = None, min_context_slot = None\<rparr>"

definition bundle_metadata :: "string \<Rightarrow> request_metadata" where
  "bundle_metadata key = \<lparr>api_key = key\<rparr>"

datatype report = Empty_response bundle_response | Service_errors "string list" | Sent_successfully "string list"

definition report_response :: "bundle_response \<Rightarrow> report" where
  "report_response response =
     (if response_signatures response = []
      then if response_errors response = [] then Empty_response response
           else Service_errors (response_errors response)
      else Sent_successfully (response_signatures response))"

text \<open>
  The whole command: \<open>request\<close> is the call of \<open>sendTransactionBundle\<close> on the service at a URL.
\<close>

definition send_bundle ::
  "profile \<Rightarrow> 'k cli_lib \<Rightarrow> cli_fs \<Rightarrow> (cli_instruction list \<Rightarrow> 'k \<Rightarrow> hash \<Rightarrow> 't) \<Rightarrow> ('t \<Rightarrow> string + u8 list) \<Rightarrow>
   (u8 list \<Rightarrow> string) \<Rightarrow>
   (string \<Rightarrow> string list \<Rightarrow> rpc_send_transaction_config \<Rightarrow> request_metadata option \<Rightarrow> string + bundle_response) \<Rightarrow>
   string \<Rightarrow> string \<Rightarrow> string \<Rightarrow> string \<Rightarrow> usize \<Rightarrow> u64 \<Rightarrow> duration list \<times> (panic + (string + report))" where
  "send_bundle p lib fs sign serialize bs58 request url key from_path to_path tx_count amount =
     (case and_then (load_keypair lib fs from_path) (\<lambda>a.
             and_then (load_keypair lib fs to_path) (\<lambda>b.
               and_then (http_client lib url) (\<lambda>_. Inr (a, b)))) of
        Inl e \<Rightarrow> ([], Inr (Inl e))
      | Inr (from_keypair, to_keypair) \<Rightarrow>
          (case make_transactions p lib sign serialize bs58 from_keypair to_keypair amount (unat tx_count)
                  [0..<unat tx_count] of
             (naps, Inl e) \<Rightarrow> (naps, Inl e)
           | (naps, Inr (Inl e)) \<Rightarrow> (naps, Inr (Inl e))
           | (naps, Inr (Inr txns)) \<Rightarrow>
               (naps, Inr (case request url txns bundle_params (Some (bundle_metadata key)) of
                  Inl e \<Rightarrow> Inl (''Failed to send transaction bundle: '' @ e)
                | Inr response \<Rightarrow> Inr (report_response response)))))"

text \<open>The subcommands, and \<open>main\<close>: the new file system and what is reported of a bundle.\<close>

datatype commands =
    CreateAccounts usize
  | Airdrop string u64
  | SendBundle string string string string usize u64

fun run_command where
  "run_command p lib fs dir sign serialize bs58 request (CreateAccounts tx_count) =
     ([], Inr (and_then (create_accounts lib dir tx_count fs) (\<lambda>fs'. Inr (fs', None))))"
| "run_command p lib fs dir sign serialize bs58 request (Airdrop account amount) =
     ([], Inr (and_then (airdrop lib fs account amount) (\<lambda>_. Inr (fs, None))))"
| "run_command p lib fs dir sign serialize bs58 request (SendBundle url key from_path to_path tx_count amount) =
     (case send_bundle p lib fs sign serialize bs58 request url key from_path to_path tx_count amount of
        (naps, r) \<Rightarrow> (naps, map_sum id (map_sum id (\<lambda>report. (fs, Some report))) r))"

section \<open>Facts\<close>

lemma account_path_inj: "account_path dir i = account_path dir j \<Longrightarrow> i = j"
  by (auto simp: account_path_def path_join_def dest: show_nat_inj split: if_splits)

lemma save_accounts_files:
  assumes "dir_fails fs = None" and "\<And>path. write_fails fs path = None" and "distinct is"
  shows "\<exists>fs'. save_accounts lib dir is fs = Inr fs' \<and>
    (\<forall>i \<in> set is. files fs' (account_path dir i) = Inr (keypair_to_bytes lib (new_keypair lib i))) \<and>
    (\<forall>path. path \<notin> account_path dir ` set is \<longrightarrow> files fs' path = files fs path)"
  using assms
proof (induction "is" arbitrary: fs)
  case (Cons i "is")
  let ?fs = "fs\<lparr>files := (files fs)(account_path dir i := Inr (keypair_to_bytes lib (new_keypair lib i)))\<rparr>"
  have save: "save_keypair lib (new_keypair lib i) (account_path dir i) fs = Inr ?fs"
    using Cons.prems(1,2) by (simp add: save_keypair_def)
  obtain fs' where fs': "save_accounts lib dir is ?fs = Inr fs'"
    and new: "\<forall>j \<in> set is. files fs' (account_path dir j) = Inr (keypair_to_bytes lib (new_keypair lib j))"
    and old: "\<forall>path. path \<notin> account_path dir ` set is \<longrightarrow> files fs' path = files ?fs path"
    using Cons.IH [of ?fs] Cons.prems by auto
  have "account_path dir i \<notin> account_path dir ` set is"
    using Cons.prems(3) account_path_inj by (metis distinct.simps(2) imageE)
  with old have "files fs' (account_path dir i) = Inr (keypair_to_bytes lib (new_keypair lib i))" by simp
  with save fs' new old show ?case by auto
qed auto

lemma make_transactions_result:
  assumes "bundle_instructions p (cli_pubkey lib a) (cli_pubkey lib b) amount = Inr ixs"
    and "\<And>i. i \<in> set is \<Longrightarrow> get_latest_blockhash lib i = Inr (bh i)"
    and "\<And>i. i \<in> set is \<Longrightarrow> serialize (sign ixs a (bh i)) = Inr (bytes i)"
  shows "make_transactions p lib sign serialize bs58 a b amount tx_count is =
    (if 1 < tx_count then replicate (length is) 500 else [], Inr (Inr (map (\<lambda>i. bs58 (bytes i)) is)))"
  using assms(2,3) by (induction "is") (simp_all add: assms(1))

lemma make_transactions_panics:
  assumes "bundle_instructions p (cli_pubkey lib a) (cli_pubkey lib b) amount = Inl e"
    and "get_latest_blockhash lib i = Inr bh"
  shows "make_transactions p lib sign serialize bs58 a b amount tx_count (i # is) = ([], Inl e)"
  using assms by simp

section \<open>Properties\<close>

definition demo_cli :: "u8 cli_lib" where
  "demo_cli = \<lparr>keypair_to_bytes = (\<lambda>k. [k, k + 1]), keypair_from_bytes = (\<lambda>b. case b of [k, _] \<Rightarrow> Inr k | _ \<Rightarrow> Inl ''bad key''),
     cli_pubkey = (\<lambda>k. Pubkey (show_nat (unat k))), new_keypair = of_nat,
     get_latest_blockhash = (\<lambda>i. Inr (Hash ''bh'')), http_client = (\<lambda>_. Inr ()), request_airdrop = (\<lambda>_ _. Inr ())\<rparr>"

definition demo_fs :: cli_fs where
  "demo_fs = \<lparr>files = (\<lambda>_. Inl ''not found''), dir_fails = None, write_fails = (\<lambda>_. None)\<rparr>"

text \<open>
  On a file system that works, \<open>create-accounts\<close> writes one file for each of the accounts, no two
  under the same name, leaves every other file alone, and each file loads back as the key made for it.
\<close>

theorem created_accounts_load:
  assumes "\<forall>k. keypair_from_bytes lib (keypair_to_bytes lib k) = Inr k"
    and "dir_fails fs = None" and "\<forall>path. write_fails fs path = None"
  shows "\<exists>fs'. create_accounts lib dir n fs = Inr fs' \<and>
    (\<forall>i < unat n. load_keypair lib fs' (account_path dir i) = Inr (new_keypair lib i)) \<and>
    inj_on (account_path dir) {..<unat n} \<and>
    (\<forall>path. path \<notin> account_path dir ` {..<unat n} \<longrightarrow> files fs' path = files fs path)"
proof -
  obtain fs' where "save_accounts lib dir [0..<unat n] fs = Inr fs'"
    and "\<forall>i \<in> set [0..<unat n]. files fs' (account_path dir i) = Inr (keypair_to_bytes lib (new_keypair lib i))"
    and "\<forall>path. path \<notin> account_path dir ` set [0..<unat n] \<longrightarrow> files fs' path = files fs path"
    using save_accounts_files [of fs "[0..<unat n]" lib dir] assms(2,3) by auto
  then show ?thesis
    using assms(1,2) by (auto simp: create_accounts_def load_keypair_def atLeast0LessThan
        intro: inj_onI account_path_inj)
qed

theorem created_accounts_load_witness:
  "\<exists>fs'. create_accounts demo_cli ''accounts'' 2 demo_fs = Inr fs' \<and>
     load_keypair demo_cli fs' (account_path ''accounts'' 1) = Inr 1"
  using created_accounts_load [of demo_cli demo_fs "''accounts''" 2]
  by (fastforce simp: demo_cli_def demo_fs_def)

text \<open>
  Every transfer moves the amount of the command line plus 890880 lamports, not the amount; when
  the sum does not fit in 64 bits the debug build panics and the release build transfers the wrapped,
  smaller sum.
\<close>

theorem transfer_amount:
  "bundle_instructions p a b amount =
     (if unat amount + 890880 < 2 ^ 64
      then Inr [Set_compute_unit_price 100000, Set_compute_unit_limit 200000, Transfer a b (amount + 890880)]
      else if p = Dev then Inl Arith_overflow
      else Inr [Set_compute_unit_price 100000, Set_compute_unit_limit 200000, Transfer a b (amount + 890880)]) \<and>
   unat (amount + 890880) = (unat amount + 890880) mod 2 ^ 64"
  by (cases p) (auto simp: bundle_instructions_def rent_exempt_balance_def add_w_def unat_word_ariths(1))

text \<open>
  C39: The client's bundles are what the service accepts: if the service's codec reads what the client's
  serializer writes and each transaction fits in a packet, the parameters pass the validation and
  every text of the request decodes to the transaction the client signed, in order.
\<close>

theorem client_bundle_accepted:
  assumes "codec_ok c" and "encodings_ok L"
    and "\<forall>t bs. serialize t = Inr bs \<longrightarrow> length bs \<le> PACKET_DATA_SIZE c \<longrightarrow>
      bincode_deserialize c (PACKET_DATA_SIZE c) bs = Inr t"
    and "bundle_instructions p (cli_pubkey lib a) (cli_pubkey lib b) amount = Inr ixs"
    and "\<forall>i < n. get_latest_blockhash lib i = Inr (bh i) \<and> serialize (sign ixs a (bh i)) = Inr (bytes i) \<and>
      length (bytes i) \<le> PACKET_DATA_SIZE c"
  shows "\<exists>naps txns ts.
    make_transactions p lib sign serialize (bs58_encode c) a b amount n [0..<n] = (naps, Inr (Inr txns)) \<and>
    request_encoding L bundle_params = Inr Base58 \<and>
    decode_bundle (\<lambda>i. create_transaction_data L c mx (now i) bundle_params m Base58) 0 txns = Inr ts \<and>
    map versioned_transaction ts = map (\<lambda>i. sign ixs a (bh i)) [0..<n] \<and> (\<forall>t \<in> set ts. max_retries t = mx)"
proof -
  let ?txns = "map (\<lambda>i. bs58_encode c (bytes i)) [0..<n]"
  let ?t = "\<lambda>i. \<lparr>wire_transaction = bytes i, versioned_transaction = sign ixs a (bh i), sent_at = now i,
      retry_count = 0, max_retries = min mx (unwrap_or mx None), request_metadata = m\<rparr>"
  have make: "make_transactions p lib sign serialize (bs58_encode c) a b amount n [0..<n] =
      (if 1 < n then replicate (length [0..<n]) 500 else [], Inr (Inr ?txns))"
    using assms(5) by (intro make_transactions_result [where bh = bh, OF assms(4)]) auto
  have enc: "request_encoding L bundle_params = Inr Base58"
    using assms(2) by (simp add: request_encoding_def validate_send_transaction_params_def bundle_params_def
        encodings_ok_def Let_def)
  have "create_transaction_data L c mx (now i) bundle_params m Base58 (bs58_encode c (bytes i)) = Inr (?t i)"
    if "i < n" for i
  proof -
    have i: "serialize (sign ixs a (bh i)) = Inr (bytes i)" "length (bytes i) \<le> PACKET_DATA_SIZE c"
      using that assms(5) by auto
    then have "bincode_deserialize c (PACKET_DATA_SIZE c) (bytes i) = Inr (sign ixs a (bh i))"
      using assms(3) by blast
    moreover have "decode_wire c Base58 (bs58_encode c (bytes i)) = Inr (bytes i)"
      using decode_wire_encode_wire [OF assms(1) i(2), of Base58] by simp
    ultimately have "decode_and_deserialize c (bs58_encode c (bytes i)) Base58 = Inr (bytes i, sign ixs a (bh i))"
      using i(2) by (simp add: decode_and_deserialize_def)
    then show ?thesis by (simp add: create_transaction_data_Inr bundle_params_def)
  qed
  then have "decode_bundle (\<lambda>i. create_transaction_data L c mx (now i) bundle_params m Base58) 0 ?txns =
      Inr (map ?t [0..<n])"
    by (simp add: decode_bundle_Inr)
  then show ?thesis using make enc
    by (intro exI [of _ "if 1 < n then replicate (length [0..<n]) 500 else []"] exI [of _ ?txns]
        exI [of _ "map ?t [0..<n]"]) auto
qed

theorem client_bundle_accepted_witness:
  "\<exists>naps txns ts. make_transactions Dev demo_cli (\<lambda>_ _ _. demo_txn 1)
      (\<lambda>t. if t = demo_txn 1 then Inr [7] else Inl ''unsupported'') raw_encode 1 2 5 2 [0..<2] = (naps, Inr (Inr txns)) \<and>
    decode_bundle (\<lambda>i. create_transaction_data demo_server server_codec 9 0 bundle_params None Base58) 0 txns = Inr ts \<and>
    map versioned_transaction ts = [demo_txn 1, demo_txn 1]"
proof -
  let ?ser = "\<lambda>t. if t = demo_txn 1 then Inr [7] else Inl ''unsupported''"
  have amount: "unat (5 :: u64) + 890880 < 2 ^ 64" by simp
  have "\<exists>ixs. bundle_instructions Dev (cli_pubkey demo_cli 1) (cli_pubkey demo_cli 2) 5 = Inr ixs"
    by (simp add: bundle_instructions_def rent_exempt_balance_def add_w_def)
  then obtain ixs where ixs: "bundle_instructions Dev (cli_pubkey demo_cli 1) (cli_pubkey demo_cli 2) 5 = Inr ixs" ..
  have reads: "\<forall>t bs. ?ser t = Inr bs \<longrightarrow> length bs \<le> PACKET_DATA_SIZE server_codec \<longrightarrow>
      bincode_deserialize server_codec (PACKET_DATA_SIZE server_codec) bs = Inr t"
    by (auto simp: server_codec_def split: if_splits)
  have each: "\<forall>i < 2. get_latest_blockhash demo_cli i = Inr (Hash ''bh'') \<and> ?ser (demo_txn 1) = Inr [7] \<and>
      length [7 :: u8] \<le> PACKET_DATA_SIZE server_codec"
    by (simp add: demo_cli_def server_codec_def)
  have enc: "bs58_encode server_codec = raw_encode" by (simp add: server_codec_def)
  have two: "[0..<2] = [0, 1 :: nat]" by (simp add: upt_rec)
  obtain naps txns ts where
    made: "make_transactions Dev demo_cli (\<lambda>_ _ _. demo_txn 1) ?ser raw_encode 1 2 5 2 [0..<2] = (naps, Inr (Inr txns))"
    and dec: "decode_bundle (\<lambda>i. create_transaction_data demo_server server_codec 9 0 bundle_params None Base58) 0 txns = Inr ts"
    and ts: "map versioned_transaction ts = map (\<lambda>i. demo_txn 1) [0..<2]"
    using client_bundle_accepted [OF server_codec_ok demo_server_ok reads ixs,
      where n = 2 and bh = "\<lambda>_. Hash ''bh''" and sign = "\<lambda>_ _ _. demo_txn 1" and bytes = "\<lambda>_. [7]",
      of 9 "\<lambda>_. 0" None] each
    unfolding enc by blast
  have both: "map versioned_transaction ts = [demo_txn 1, demo_txn 1]" using ts two by simp
  show ?thesis by (intro exI conjI) (rule made, rule dec, rule both)
qed

end
