(* ===== verification/Spec2Isabelle.thy ===== *)
theory Spec2Isabelle
  imports Service_Run Entry_Life Send_Bundle
begin

text \<open>
  A model of atlas-txn-sender, a service that takes Solana transactions over JSON-RPC, sends them to
  the validators that will lead the next slots, and repeats that until they land.

  \<^bold>\<open>The program.\<close> A request (\<open>server/rpc_server.rs\<close>) is validated and decoded
  (\<open>vendor/solana_rpc.rs\<close>) into a record that the application (\<open>application/transaction.rs\<close>)
  deduplicates against the retry queue (\<open>storage/transaction_store.rs\<close>) and hands to the sender
  (\<open>infrastructure/txn_sender.rs\<close>). The sender files it, asks the leader tracker
  (\<open>infrastructure/leader_tracker.rs\<close>) for the next leaders and spawns a send for each; a task waits
  for the confirmation from the block stream (\<open>infrastructure/grpc_geyser.rs\<close>) and takes the record
  out of the queue; a loop sends everything queued again every few seconds. Bundles bypass the queue:
  their transactions are submitted one after the other through the RPC node. \<open>bin/main.rs\<close> assembles
  the service, \<open>bin/send_bundle.rs\<close> is a client.

  \<^bold>\<open>The theories.\<close>
  \<^item> \<open>Prelude\<close>, \<open>Rust_Int\<close>, \<open>Dash_Map\<close>: panics and fallible steps as sums, the arithmetic of the
    two build profiles on words (\<open>Dev\<close> panics on overflow, \<open>Release\<close> wraps), decimal text, and the
    concurrent map as a list of entries in an unspecified order, with its laws as the locale
    \<open>concurrent_map\<close>.
  \<^item> \<open>Transaction\<close>, \<open>Transaction_Store\<close>: the shared records, \<open>errors.rs\<close>, and the retry queue with
    its invariant \<open>store_ok\<close>; the trait is the locale \<open>transaction_store\<close>.
  \<^item> \<open>Solana_Rpc\<close>, \<open>Grpc_Geyser\<close>: the trait \<open>SolanaRpc\<close> as two locales, and the two stream pollers,
    the blockhash and signature caches and the confirmation loop that implement it.
  \<^item> \<open>Leader_Tracker\<close>: the slot poller, the leader poller, \<open>get_leaders\<close> (locale \<open>leader_source\<close>) and
    a step relation for the two pollers running side by side.
  \<^item> \<open>Vendor_Rpc\<close>: the wire codecs and \<open>send_and_encode_transaction\<close>.
  \<^item> \<open>Priority\<close>, \<open>Txn_Sender\<close>, \<open>Sender_Properties\<close>: the priority details, the whole sender, and what
    it guarantees; \<open>retry_spec\<close> is the specification of a retry pass on maps, \<open>bundle_outcomes\<close> that
    of a bundle.
  \<^item> \<open>Application\<close>, \<open>Rpc_Server\<close>: deduplication and the JSON-RPC methods over the traits \<open>TxnSender\<close>
    and \<open>AtlasTransaction\<close> (locales \<open>txn_sender\<close>, \<open>atlas_transaction\<close>).
  \<^item> \<open>System\<close>: handlers, confirmation tasks and the retry task interleaved, one access to the shared
    map in a step (\<open>system_step\<close>), with a record of the requests accepted, the visits of the retry
    loop, the send tasks spawned and the confirmations answered; the invariant \<open>world_ok\<close>.
  \<^item> \<open>System_Runs\<close>: the sequential retry pass and \<open>sendTransaction\<close> are runs of this system; what can
    kill the retry task, the races, and that the retry task and a queued transaction can always move on.
  \<^item> \<open>System_Ledger\<close>: where send tasks come from (\<open>traced\<close>), the ledger by which an accepted request
    pays for its retries in advance (\<open>ledger_ok\<close>, \<open>sends_ok\<close>), which bounds them in every interleaving,
    and its converse, that every visit is sent (\<open>sent_ok\<close>).
  \<^item> \<open>Entry_Life\<close>: the service seen from one signature (\<open>life_of\<close>), and the automaton of one signature
    (\<open>life_step\<close>) that it refines step by step: every visit counts up by one or marks the entry.
  \<^item> \<open>Main_Config\<close>: the start-up with its defaults and panics (with \<open>metrics.rs\<close>).
  \<^item> \<open>Service_Run\<close>: what \<open>main\<close> has started running together: the tasks of \<open>System\<close>, both streams and
    both pollers of the leader tracker. Confirmations are answered by the signature cache, leaders by
    the tracker and bundles by the blockhash cache of the moment.
  \<^item> \<open>Send_Bundle\<close>: the client.

  Every locale is interpreted on the definitions of the component that provides it, and the properties
  rest on the facts of these interpretations.

  \<^bold>\<open>What stands for what.\<close> A Rust function that can fail is a function into a sum type, a panic is
  \<open>Inl\<close> of type \<open>panic\<close>; a poisoned or dead task keeps the state it had reached. Fixed-width integers
  are words; counts that only drive a loop are naturals. Times are milliseconds. A spawned task is a
  value with its parameters and a function that gives its effects once the answers of the network are
  arguments. Metrics are values of \<open>metric\<close>, log lines are left out unless computing their arguments
  can panic. Code that is not in the repository is an argument: the codecs (\<open>codec\<close>, with the laws
  \<open>codec_ok\<close>), the RPC node (\<open>rpc_node\<close>), the compute-budget library (\<open>budget_lib\<close>), the naming of
  encodings (\<open>server_lib\<close>, \<open>encodings_ok\<close>), the gRPC stream (\<open>stream_item\<close>, \<open>connection\<close>), the
  clocks (a function from the turn of a loop to a reading, \<open>sleeps_at_least\<close> saying that sleeping takes
  its time), keys and signing (\<open>cli_lib\<close>). No fuel is used: loops over data are structural, the two
  waiting loops (\<open>confirm_turn\<close>, \<open>confirm_loop\<close>) are partial functions proved to return, and the
  loops that never end are modelled by one turn and by the runs of many turns.

  \<^bold>\<open>What the properties show.\<close> The queue keeps its invariant under all interleavings, and
  everything in it waits for a confirmation task, present or about to be started, unless the handler that
  filed it has panicked; the life of a signature is that of its automaton: filed when accepted, counted up
  by each visit below its bound, and removed by a confirmation, the shedding or at its bound. Every visit
  is sent to the leaders. However the tasks of the
  started service interleave, a transaction requested once gives rise to at most
  \<open>num_leaders * (max_retries + 2)\<close> send tasks, each to a node of the cluster, and is reported as landed
  only if a received block holds it; in a release build without a queue bound the retry task never
  dies. A retry pass leaves the queue and spawns the sends its specification says, and exactly
  \<open>max_retries + 1\<close> of them spawn sends of a transaction that never lands; a send task is over within five
  seconds; duplicates are not submitted again; no request takes anything out of the queue;
  requests fail exactly for the listed reasons and without effect; leaders are returned in schedule
  order, bounded and without repetition, and stay known until their slot passes; a confirmation returns
  in the first turn that finds the signature or begins sixty seconds or more after the first; a
  signature is remembered for ninety seconds and forgotten by the next clean-up after them; submissions
  and bundles return, with bounded submissions, polls and sleeps. Other properties
  state how the code falls short of its intention: the shedding slice that can kill the retry task,
  the underflow that silences the leader tracker, late blocks that evict newer blockhashes, an entry
  filed before a panic, the stream task that dies of a failed request, the texts a bundle returns as
  signatures.

  \<^bold>\<open>Not modelled.\<close> The QUIC client, the JSON-RPC transport, the UDP metrics sink, logging, the
  extraction of settings and arguments by their libraries, the timing of tasks relative to each other, the
  locking inside the concurrent map below the access to one entry, memory limits, the metric names of
  \<open>metrics.rs\<close> that nothing uses, and the deployment scripts. The loop over a bundle reads
  the blockhash cache again for every member (\<open>caches\<close>, a cache for each turn). In \<open>Service_Run\<close> a bundle
  is the sequence of its members, each checked against the cache of its moment and submitted in one step;
  \<open>bundle_each_on_its_own\<close> is the reason why this loses nothing. A timeout ends an attempt exactly at its
  limit (\<open>time_spent\<close>); delays of the scheduler come on top.
\<close>

section \<open>Bundles from the request to the node\<close>

lemma bundle_created:
  assumes "codec_ok c" and "list_all2 (\<lambda>tx txn. encode_and_serialize c tx enc = Inr txn) txs txns"
  obtains ts where "decode_bundle (\<lambda>i. create_transaction_data L c mx (now i) params m enc) i txns = Inr ts"
    and "map versioned_transaction ts = txs"
  using assms(2)
proof (induction txs txns arbitrary: i thesis rule: list_all2_induct)
  case (Cons tx txs txn txns)
  obtain wire where "decode_and_deserialize c txn enc = Inr (wire, tx)"
    using decode_encode [OF assms(1) Cons.hyps(1)] by blast
  then obtain t where "create_transaction_data L c mx (now i) params m enc txn = Inr t"
    and "versioned_transaction t = tx"
    by (auto simp: create_transaction_data_def)
  moreover obtain ts where "decode_bundle (\<lambda>i. create_transaction_data L c mx (now i) params m enc) (Suc i) txns = Inr ts"
    and "map versioned_transaction ts = txs"
    using Cons.IH by blast
  ultimately show ?case using Cons.prems [of "t # ts"] by simp
qed simp

lemma signed_indexed: "\<forall>t \<in> set ts. signatures (versioned_transaction t) \<noteq> [] \<Longrightarrow>
    \<exists>sgs. try_map (\<lambda>t. index (signatures (versioned_transaction t)) 0) ts = Inr sgs"
  by (induction ts) (auto simp: index_first)

text \<open>
  C14: A bundle of signed transactions, encoded as a client encodes them, with preflight skipped and a
  supported encoding, is answered whatever the RPC node does, the clock advancing: there is one text
  for each transaction, the texts under signatures decode to transactions of the bundle, and only
  transactions of the bundle were submitted whose blockhash the cache held when their turn came.
\<close>

theorem bundle_end_to_end:
  assumes "codec_ok c" and "skip_preflight params"
    and "into_binary_encoding L (unwrap_or Ui_Base58 (encoding params)) = Some enc"
    and "list_all2 (\<lambda>tx txn. encode_and_serialize c tx enc = Inr txn) txs txns"
    and "\<forall>tx \<in> set txs. signatures tx \<noteq> []" and "\<forall>i. sleeps_at_least 100 (confirm_elapsed (node i))"
  shows "\<exists>eff resp. rpc_send_bundle L c mx now info_enabled elapsed caches node txns params m =
      Some (Some eff, Inr (Inr resp)) \<and>
    length (response_signatures resp) + length (response_errors resp) = length txns \<and>
    (\<forall>s \<in> set (response_signatures resp). \<exists>tx \<in> set txs. \<exists>b. decode_and_deserialize c s enc = Inr (b, tx)) \<and>
    (\<forall>tx opts. Send_transaction tx opts \<in> set (bundle_calls eff) \<longrightarrow>
       (\<exists>j < length txs. txs ! j = tx \<and> dm_contains_key (caches j) (recent_blockhash tx)))"
proof -
  obtain ts where ts: "decode_bundle (\<lambda>i. create_transaction_data L c mx (now i) params m enc) 0 txns = Inr ts"
    and txs: "map versioned_transaction ts = txs"
    using bundle_created [OF assms(1,4)] by blast
  have enc: "request_encoding L params = Inr enc"
    using assms(2,3) by (simp add: request_encoding_def validate_send_transaction_params_def Let_def)
  have signed: "\<forall>t \<in> set ts. signatures (versioned_transaction t) \<noteq> []" using assms(5) txs by auto
  then have ready: "bundle_ready node ts" using assms(6) by (simp add: bundle_ready_def)
  let ?rs = "bundle_outcomes c caches node enc 0 ts"
  let ?sigs = "map projr (filter (\<lambda>r. \<not> isl r) ?rs)" and ?errs = "map projl (filter isl ?rs)"
  obtain eff where run: "send_transaction_bundle c caches node ts enc (api_key_or_none m) = Some (eff, Inr (?sigs, ?errs))"
    using bundle_loop_outcomes [OF ready, of c caches enc "api_key_or_none m" 0
        "\<lparr>bundle_calls = [], bundle_metrics = []\<rparr>" "[]" "[]"]
    by (auto simp: send_transaction_bundle_def)
  let ?resp = "\<lparr>response_signatures = ?sigs, response_errors = ?errs\<rparr>"
  obtain sgs where "try_map (\<lambda>t. index (signatures (versioned_transaction t)) 0) ts = Inr sgs"
    using signed_indexed [OF signed] by blast
  then have "rpc_send_bundle L c mx now info_enabled elapsed caches node txns params m =
      Some (Some eff, Inr (Inr ?resp))"
    using enc ts run
    by (simp add: rpc_send_bundle_def server_send_transaction_bundle_def app_send_transaction_bundle_def Let_def)
  moreover have "length ?sigs + length ?errs = length txns"
    using sum_length_filter_compl [of isl ?rs] arg_cong [OF txs, of length] assms(4)
    by (simp add: list_all2_lengthD)
  moreover have "\<exists>tx \<in> set txs. \<exists>b. decode_and_deserialize c s enc = Inr (b, tx)" if "s \<in> set ?sigs" for s
    using outcome_decodes [OF assms(1) in_projr [OF that]] txs by auto
  moreover have "\<exists>j < length txs. txs ! j = tx \<and> dm_contains_key (caches j) (recent_blockhash tx)"
    if "Send_transaction tx opts \<in> set (bundle_calls eff)" for tx opts
    using bundle_loop_calls [OF run [unfolded send_transaction_bundle_def] that] txs
    by (auto simp: member_checked_def)
  ultimately show ?thesis by (intro exI [of _ eff] exI [of _ ?resp]) simp
qed

theorem bundle_end_to_end_witness:
  "\<exists>eff resp. rpc_send_bundle demo_server server_codec 5 (\<lambda>_. 0) True 3 (\<lambda>_. known_blockhash)
      (\<lambda>_. demo_node (\<lambda>_. Inr ''sig'')) [raw_encode [7], raw_encode [7]] (demo_params None None) None =
      Some (Some eff, Inr (Inr resp)) \<and>
    length (response_signatures resp) + length (response_errors resp) = 2"
proof -
  have "list_all2 (\<lambda>tx txn. encode_and_serialize server_codec tx Base58 = Inr txn)
      [demo_txn 1, demo_txn 1] [raw_encode [7], raw_encode [7]]"
    by (simp add: server_codec_wire)
  moreover have "\<forall>i. sleeps_at_least 100 (confirm_elapsed (demo_node (\<lambda>_. Inr ''sig'')))"
    by (simp add: demo_node_def sleeps_at_least_def)
  moreover have "skip_preflight (demo_params None None)"
    "into_binary_encoding demo_server (unwrap_or Ui_Base58 (encoding (demo_params None None))) = Some Base58"
    by (simp_all add: demo_params_def demo_server_def)
  ultimately have "\<exists>eff resp. rpc_send_bundle demo_server server_codec 5 (\<lambda>_. 0) True 3 (\<lambda>_. known_blockhash)
      (\<lambda>_. demo_node (\<lambda>_. Inr ''sig'')) [raw_encode [7], raw_encode [7]] (demo_params None None) None =
      Some (Some eff, Inr (Inr resp)) \<and>
    length (response_signatures resp) + length (response_errors resp) = length [raw_encode [7], raw_encode [7]]"
    using bundle_end_to_end [OF server_codec_ok, of "demo_params None None" demo_server Base58
        "[demo_txn 1, demo_txn 1]" "[raw_encode [7], raw_encode [7]]" "\<lambda>_. demo_node (\<lambda>_. Inr ''sig'')"
        5 "\<lambda>_. 0" True 3 "\<lambda>_. known_blockhash" None]
    by fastforce
  then show ?thesis by (simp add: numeral_2_eq_2)
qed

end
